(* ===== verification/Prelude.thy ===== *)
theory Prelude
  imports Main "HOL-Library.Word" "HOL-Library.Multiset"
begin

text \<open>
  Shared vocabulary of the development: the machine types of the C sources (pointers,
  32-bit and 64-bit integers), the ways a C statement can go wrong, the result type of
  code that can go wrong, and generic lemmas on lists and results that the component
  theories use through the collections \<open>queue_simps\<close>, \<open>loop_simps\<close> and \<open>env_simps\<close>.
\<close>

unbundle bit_operations_syntax

named_theorems queue_simps \<open>unfolding of the list macros of bsdqueue.h\<close>
named_theorems loop_simps \<open>unfolding of the libev operations\<close>
named_theorems env_simps \<open>unfolding of the primitive operations on the coroutine environment\<close>

section \<open>Machine types\<close>

text \<open>
  A non-null pointer is an \<open>addr\<close>; a pointer that may be NULL is a \<open>ptr\<close>, with
  \<open>None\<close> for NULL. C's \<open>int\<close> and \<open>ssize_t\<close> values are integers; where the code
  converts to a narrower type the conversion is written out with \<open>to_int\<close>,
  \<open>to_ssize\<close>. Unsigned counters that wrap are words.
\<close>

type_synonym addr = nat
type_synonym ptr = "addr option"
type_synonym u32 = "32 word"
type_synonym u64 = "64 word"

definition to_int :: "int \<Rightarrow> int" where
  "to_int x = signed_take_bit 31 x"

definition to_ssize :: "int \<Rightarrow> int" where
  "to_ssize x = signed_take_bit 63 x"

lemma signed_take_bit_id:
  assumes "- (2 ^ n) \<le> x" and "x < 2 ^ n"
  shows "signed_take_bit n (x :: int) = x"
  using assms by (simp add: signed_take_bit_int_eq_self_iff)

lemma to_int_id [simp]: "- 2147483648 \<le> x \<Longrightarrow> x < 2147483648 \<Longrightarrow> to_int x = x"
  unfolding to_int_def by (rule signed_take_bit_id) simp_all

lemma to_int_range: "- 2147483648 \<le> to_int x \<and> to_int x < 2147483648"
  using signed_take_bit_int_greater_eq_minus_exp [of 31 x] signed_take_bit_int_less_exp [of 31 x]
  by (simp add: to_int_def)

lemma to_ssize_id [simp]:
  "- 9223372036854775808 \<le> x \<Longrightarrow> x < 9223372036854775808 \<Longrightarrow> to_ssize x = x"
  unfolding to_ssize_def by (rule signed_take_bit_id) simp_all

section \<open>Results of code that can fail\<close>

text \<open>
  What a C statement of the library can do instead of continuing: dereference NULL, touch
  freed memory, read an uninitialised variable, touch memory outside an array, fail an \<open>assert\<close>,
  call \<open>abort\<close>.
\<close>

datatype fault =
    NullDeref
  | UseAfterFree
  | Uninitialised
  | OutOfBounds
  | AssertFailed
  | Aborted

type_synonym 'a res = "fault + 'a"

definition bind_res :: "'a res \<Rightarrow> ('a \<Rightarrow> 'b res) \<Rightarrow> 'b res" where
  "bind_res m f = (case m of Inl e \<Rightarrow> Inl e | Inr x \<Rightarrow> f x)"

lemma bind_res_simps [simp]:
  "bind_res (Inl e) f = Inl e"
  "bind_res (Inr x) f = f x"
  by (simp_all add: bind_res_def)

lemma bind_res_Inr_iff:
  "bind_res m f = Inr y \<longleftrightarrow> (\<exists>x. m = Inr x \<and> f x = Inr y)"
  by (cases m) auto

lemma bind_res_Inl_iff:
  "bind_res m f = Inl e \<longleftrightarrow> m = Inl e \<or> (\<exists>x. m = Inr x \<and> f x = Inl e)"
  by (cases m) auto

lemma bind_res_split:
  "P (bind_res m f) \<longleftrightarrow> (\<forall>e. m = Inl e \<longrightarrow> P (Inl e)) \<and> (\<forall>x. m = Inr x \<longrightarrow> P (f x))"
  by (cases m) auto

text \<open>An \<open>assert\<close> of the source, followed by the rest of the function.\<close>

definition assert_c :: "bool \<Rightarrow> unit res" where
  "assert_c b = (if b then Inr () else Inl AssertFailed)"

lemma assert_c_simps [simp]:
  "assert_c True = Inr ()"
  "assert_c False = Inl AssertFailed"
  "assert_c b = Inr u \<longleftrightarrow> b"
  by (simp_all add: assert_c_def)

section \<open>Lists\<close>

lemma last_in_set_append: "xs \<noteq> [] \<Longrightarrow> last (ys @ xs) \<in> set xs"
  by simp

lemma distinct_last_notin_butlast: "distinct xs \<Longrightarrow> xs \<noteq> [] \<Longrightarrow> last xs \<notin> set (butlast xs)"
  by (metis append_butlast_last_id distinct_append disjoint_iff list.set_intros(1))

lemma split_at_member:
  assumes "x \<in> set xs" and "distinct xs"
  obtains us vs where "xs = us @ x # vs" and "x \<notin> set us" and "x \<notin> set vs"
proof -
  from assms(1) obtain us vs where "xs = us @ x # vs" by (meson split_list)
  with assms(2) that show ?thesis by auto
qed

end
