(* ===== verification/Bsdqueue.thy ===== *)
theory Bsdqueue
  imports Prelude
begin

text \<open>
  The singly-linked tail queue of \<^verbatim>\<open>src/src/bsdqueue.h\<close>, at the level of its pointers.
  The items' \<open>LINK_NEXT_PTR.stqe_next\<close> fields are one map \<open>links\<close> from item addresses
  to pointers, shared by every queue the items can be in; a queue head is a record. The
  queue's \<open>stqh_last\<close> holds the address of a pointer: either the head's own
  \<open>stqh_first\<close> or the next field of an item. Each macro is one definition on a pair of
  the links and the head; a macro that dereferences NULL on some inputs returns
  \<open>Inl NullDeref\<close> there. The mutex of the head is not represented: the library holds it
  around every operation, so an operation is one atomic step.

  The representation relation \<open>stailq_rep nx h xs\<close> says that the head \<open>h\<close> represents the
  list \<open>xs\<close>; the lemmas show that every macro refines an operation on lists, keeps the
  representation and does not disturb other queues over the same links. The locale
  \<open>task_fifo\<close> is the interface the coroutine environment relies on, interpreted here on
  the macros.
\<close>

section \<open>Data\<close>

type_synonym links = "addr \<Rightarrow> ptr"

datatype lastp = AtFirst | AtNext addr

record stailq =
  stqh_first :: ptr
  stqh_last :: lastp
  stqh_size :: u32

section \<open>The STAILQ macros\<close>

definition STAILQ_INIT :: stailq where
  "STAILQ_INIT = \<lparr>stqh_first = None, stqh_last = AtFirst, stqh_size = 0\<rparr>"

definition STAILQ_EMPTY :: "stailq \<Rightarrow> bool" where
  "STAILQ_EMPTY h \<longleftrightarrow> stqh_first h = None"

definition STAILQ_FIRST :: "stailq \<Rightarrow> ptr" where
  "STAILQ_FIRST h = stqh_first h"

definition STAILQ_NEXT :: "links \<Rightarrow> addr \<Rightarrow> ptr" where
  "STAILQ_NEXT nx e = nx e"

text \<open>The assignment through the double pointer: \<open>*(head)->stqh_last = p\<close>.\<close>

definition store_last :: "links \<Rightarrow> stailq \<Rightarrow> ptr \<Rightarrow> links \<times> stailq" where
  "store_last nx h p =
     (case stqh_last h of
        AtFirst \<Rightarrow> (nx, h\<lparr>stqh_first := p\<rparr>)
      | AtNext a \<Rightarrow> (nx(a := p), h))"

definition STAILQ_CONCAT :: "links \<Rightarrow> stailq \<Rightarrow> stailq \<Rightarrow> links \<times> stailq \<times> stailq" where
  "STAILQ_CONCAT nx h1 h2 =
     (if \<not> STAILQ_EMPTY h2 then
        let (nx', h1') = store_last nx h1 (stqh_first h2)
        in (nx', h1'\<lparr>stqh_last := stqh_last h2, stqh_size := stqh_size h1' + stqh_size h2\<rparr>,
            STAILQ_INIT)
      else (nx, h1, h2))"

definition STAILQ_INSERT_AFTER :: "links \<Rightarrow> stailq \<Rightarrow> addr \<Rightarrow> addr \<Rightarrow> links \<times> stailq" where
  "STAILQ_INSERT_AFTER nx h tqelm elm =
     (let nx1 = nx(elm := nx tqelm);
          h1 = (if nx1 elm = None then h\<lparr>stqh_last := AtNext elm\<rparr> else h)
      in (nx1(tqelm := Some elm), h1\<lparr>stqh_size := stqh_size h1 + 1\<rparr>))"

definition STAILQ_INSERT_HEAD :: "links \<Rightarrow> stailq \<Rightarrow> addr \<Rightarrow> links \<times> stailq" where
  "STAILQ_INSERT_HEAD nx h elm =
     (let nx1 = nx(elm := stqh_first h);
          h1 = (if nx1 elm = None then h\<lparr>stqh_last := AtNext elm\<rparr> else h)
      in (nx1, h1\<lparr>stqh_first := Some elm, stqh_size := stqh_size h1 + 1\<rparr>))"

definition STAILQ_INSERT_TAIL :: "links \<Rightarrow> stailq \<Rightarrow> addr \<Rightarrow> links \<times> stailq" where
  "STAILQ_INSERT_TAIL nx h elm =
     (let nx1 = nx(elm := None);
          (nx2, h2) = store_last nx1 h (Some elm)
      in (nx2, h2\<lparr>stqh_last := AtNext elm, stqh_size := stqh_size h2 + 1\<rparr>))"

text \<open>
  \<open>STAILQ_LAST\<close> subtracts the offset of the next field from \<open>stqh_last\<close>: the item whose
  next field it points at.
\<close>

definition STAILQ_LAST :: "stailq \<Rightarrow> ptr" where
  "STAILQ_LAST h =
     (if STAILQ_EMPTY h then None
      else case stqh_last h of AtNext a \<Rightarrow> Some a | AtFirst \<Rightarrow> None)"

definition STAILQ_REMOVE_HEAD :: "links \<Rightarrow> stailq \<Rightarrow> stailq res" where
  "STAILQ_REMOVE_HEAD nx h =
     (case stqh_first h of
        None \<Rightarrow> Inl NullDeref
      | Some e \<Rightarrow>
          let h1 = h\<lparr>stqh_first := nx e\<rparr>;
              h2 = (if stqh_first h1 = None then h1\<lparr>stqh_last := AtFirst\<rparr> else h1)
          in Inr (h2\<lparr>stqh_size := stqh_size h2 - 1\<rparr>))"

definition STAILQ_REMOVE_HEAD_UNTIL :: "links \<Rightarrow> stailq \<Rightarrow> addr \<Rightarrow> stailq" where
  "STAILQ_REMOVE_HEAD_UNTIL nx h elm =
     (let h1 = h\<lparr>stqh_first := nx elm\<rparr>
      in if stqh_first h1 = None then h1\<lparr>stqh_last := AtFirst\<rparr> else h1)"

text \<open>
  The search loop of \<open>STAILQ_REMOVE\<close>: \<open>None\<close> is a run that never ends (a cyclic list),
  \<open>Some (Inl NullDeref)\<close> a run off the end of the list.
\<close>

partial_function (option) stailq_find_prev :: "links \<Rightarrow> ptr \<Rightarrow> addr \<Rightarrow> addr res option" where
  "stailq_find_prev nx cur elm =
     (case cur of
        None \<Rightarrow> Some (Inl NullDeref)
      | Some c \<Rightarrow> if nx c = Some elm then Some (Inr c) else stailq_find_prev nx (nx c) elm)"

definition STAILQ_REMOVE :: "links \<Rightarrow> stailq \<Rightarrow> addr \<Rightarrow> (links \<times> stailq) res option" where
  "STAILQ_REMOVE nx h elm =
     (if stqh_first h = Some elm then Some (map_sum id (Pair nx) (STAILQ_REMOVE_HEAD nx h))
      else
        (case stailq_find_prev nx (stqh_first h) elm of
           None \<Rightarrow> None
         | Some (Inl e) \<Rightarrow> Some (Inl e)
         | Some (Inr c) \<Rightarrow>
             let nx1 = nx(c := nx elm);
                 h1 = (if nx1 c = None then h\<lparr>stqh_last := AtNext c\<rparr> else h)
             in Some (Inr (nx1, h1\<lparr>stqh_size := stqh_size h1 - 1\<rparr>))))"

text \<open>The items a \<open>STAILQ_FOREACH\<close> visits, in order.\<close>

partial_function (option) stailq_foreach :: "links \<Rightarrow> ptr \<Rightarrow> addr list option" where
  "stailq_foreach nx var =
     (case var of
        None \<Rightarrow> Some []
      | Some v \<Rightarrow> Option.bind (stailq_foreach nx (nx v)) (\<lambda>vs. Some (v # vs)))"

definition STAILQ_FOREACH :: "links \<Rightarrow> stailq \<Rightarrow> addr list option" where
  "STAILQ_FOREACH nx h = stailq_foreach nx (STAILQ_FIRST h)"

section \<open>The list interface\<close>

definition list_new :: stailq where
  "list_new = STAILQ_INIT"

definition list_size :: "stailq \<Rightarrow> u32" where
  "list_size h = stqh_size h"

definition list_push :: "links \<Rightarrow> stailq \<Rightarrow> addr \<Rightarrow> links \<times> stailq" where
  "list_push nx h e = STAILQ_INSERT_TAIL nx h e"

definition list_unshift :: "links \<Rightarrow> stailq \<Rightarrow> addr \<Rightarrow> links \<times> stailq" where
  "list_unshift nx h e = STAILQ_INSERT_HEAD nx h e"

text \<open>\<open>list_shift\<close> reads the first item, then removes the head: NULL is dereferenced by the
  removal, before the caller can test the item.\<close>

definition list_shift :: "links \<Rightarrow> stailq \<Rightarrow> (ptr \<times> stailq) res" where
  "list_shift nx h =
     (let item = STAILQ_FIRST h
      in bind_res (STAILQ_REMOVE_HEAD nx h) (\<lambda>h'. Inr (item, h')))"

text \<open>\<open>list_pop\<close> on an empty queue reads \<open>item_ptr = NULL\<close>, and \<open>STAILQ_REMOVE\<close> then finds
  \<open>STAILQ_FIRST = NULL = elm\<close> and removes the head of an empty queue.\<close>

definition list_pop :: "links \<Rightarrow> stailq \<Rightarrow> (ptr \<times> links \<times> stailq) res option" where
  "list_pop nx h =
     (case STAILQ_LAST h of
        None \<Rightarrow> Some (Inl NullDeref)
      | Some e \<Rightarrow>
          (case STAILQ_REMOVE nx h e of
             None \<Rightarrow> None
           | Some (Inl f) \<Rightarrow> Some (Inl f)
           | Some (Inr (nx', h')) \<Rightarrow> Some (Inr (Some e, nx', h'))))"

text \<open>The walk of \<open>list_addr\<close>: \<open>k\<close> steps from \<open>p\<close>.\<close>

fun list_walk :: "links \<Rightarrow> nat \<Rightarrow> ptr \<Rightarrow> ptr res" where
  "list_walk nx 0 p = Inr p"
| "list_walk nx (Suc k) None = Inl NullDeref"
| "list_walk nx (Suc k) (Some a) = list_walk nx k (nx a)"

definition list_addr :: "links \<Rightarrow> stailq \<Rightarrow> int \<Rightarrow> ptr res" where
  "list_addr nx h n =
     (let m = to_int n
      in if m \<ge> sint (list_size h) then Inr None
         else list_walk nx (nat m) (STAILQ_FIRST h))"

text \<open>
  The loop of \<open>list_clear\<close> and \<open>list_destroy\<close>: the addresses given to \<open>mem_free\<close>, in
  order, and the emptied head.
\<close>

partial_function (option) list_clear :: "links \<Rightarrow> stailq \<Rightarrow> (addr list \<times> stailq) res option" where
  "list_clear nx h =
     (case STAILQ_FIRST h of
        None \<Rightarrow> Some (Inr ([], h))
      | Some e \<Rightarrow>
          (case STAILQ_REMOVE_HEAD nx h of
             Inl f \<Rightarrow> Some (Inl f)
           | Inr h' \<Rightarrow>
               Option.bind (list_clear nx h')
                 (\<lambda>r. Some (map_sum id (map_prod ((#) e) id) r))))"

lemmas stailq_defs [queue_simps] =
  STAILQ_INIT_def STAILQ_EMPTY_def STAILQ_FIRST_def store_last_def
  STAILQ_INSERT_HEAD_def STAILQ_INSERT_TAIL_def STAILQ_LAST_def STAILQ_REMOVE_HEAD_def
  list_push_def list_unshift_def list_shift_def list_size_def list_new_def

section \<open>The list a queue represents\<close>

fun chain :: "links \<Rightarrow> ptr \<Rightarrow> addr list \<Rightarrow> bool" where
  "chain nx p [] \<longleftrightarrow> p = None"
| "chain nx p (x # xs) \<longleftrightarrow> p = Some x \<and> chain nx (nx x) xs"

definition last_slot :: "addr list \<Rightarrow> lastp" where
  "last_slot xs = (if xs = [] then AtFirst else AtNext (last xs))"

definition stailq_rep :: "links \<Rightarrow> stailq \<Rightarrow> addr list \<Rightarrow> bool" where
  "stailq_rep nx h xs \<longleftrightarrow>
     chain nx (stqh_first h) xs \<and> stqh_last h = last_slot xs \<and> stqh_size h = of_nat (length xs)"

lemma chain_None [simp]: "chain nx None xs \<longleftrightarrow> xs = []"
  by (cases xs) auto

lemma chain_unique: "chain nx p xs \<Longrightarrow> chain nx p ys \<Longrightarrow> xs = ys"
proof (induction xs arbitrary: p ys)
  case (Cons x xs)
  then show ?case by (cases ys) auto
qed simp

lemma chain_upd [simp]: "a \<notin> set xs \<Longrightarrow> chain (nx(a := q)) p xs = chain nx p xs"
  by (induction xs arbitrary: p) auto

lemma chain_cong: "\<forall>x\<in>set xs. nx' x = nx x \<Longrightarrow> chain nx' p xs = chain nx p xs"
  by (induction xs arbitrary: p) auto

lemma chain_head_notin: "chain nx p (x # xs) \<Longrightarrow> x \<notin> set xs"
proof
  assume c: "chain nx p (x # xs)" and "x \<in> set xs"
  then obtain us vs where xs: "xs = us @ x # vs" by (meson split_list)
  have split: "chain nx q (as @ x # bs) \<Longrightarrow> chain nx (Some x) (x # bs)" for q as bs
    by (induction as arbitrary: q) auto
  from c xs have "chain nx (Some x) (x # us @ x # vs)" by auto
  moreover from c xs split [of p "x # us" vs] have "chain nx (Some x) (x # vs)" by simp
  ultimately have "x # us @ x # vs = x # vs" by (rule chain_unique)
  then have "length (us @ x # vs) = length vs" by simp
  then show False by simp
qed

lemma chain_distinct: "chain nx p xs \<Longrightarrow> distinct xs"
proof (induction xs arbitrary: p)
  case (Cons x xs)
  then show ?case using chain_head_notin by fastforce
qed simp

text \<open>Writing the next field of the last item extends the chain by what it points at.\<close>

lemma chain_extend:
  assumes "chain nx p xs" and "xs \<noteq> []" and "set xs \<inter> set ys = {}" and "chain nx q ys"
  shows "chain (nx(last xs := q)) p (xs @ ys)"
  using assms
proof (induction xs arbitrary: p)
  case (Cons x xs)
  show ?case
  proof (cases "xs = []")
    case True
    with Cons.prems have "x \<notin> set ys" and "p = Some x" and "chain nx q ys" by auto
    then have "chain (nx(x := q)) q ys" and "p = Some x" by simp_all
    then show ?thesis using True by (simp del: chain_upd fun_upd_apply add: fun_upd_same)
  next
    case False
    from Cons.prems have "x \<noteq> last xs" using False chain_head_notin by fastforce
    with Cons False show ?thesis by auto
  qed
qed simp

lemma chain_next_last: "chain nx p xs \<Longrightarrow> xs \<noteq> [] \<Longrightarrow> nx (last xs) = None"
proof (induction xs arbitrary: p)
  case (Cons x xs)
  then show ?case by (cases xs) auto
qed simp

lemma chain_split:
  "chain nx p (us @ x # vs) \<Longrightarrow> nx x = (case vs of [] \<Rightarrow> None | v # _ \<Rightarrow> Some v)"
  by (induction us arbitrary: p) (auto split: list.splits)

lemma chain_drop: "chain nx p (us @ x # vs) \<Longrightarrow> chain nx (nx x) vs"
  by (induction us arbitrary: p) auto

subsection \<open>Every macro refines an operation on lists\<close>

lemma rep_distinct: "stailq_rep nx h xs \<Longrightarrow> distinct xs"
  by (auto simp: stailq_rep_def dest: chain_distinct)

lemma rep_unique: "stailq_rep nx h xs \<Longrightarrow> stailq_rep nx h ys \<Longrightarrow> xs = ys"
  by (auto simp: stailq_rep_def dest: chain_unique)

lemma rep_frame: "stailq_rep nx h xs \<Longrightarrow> \<forall>x\<in>set xs. nx' x = nx x \<Longrightarrow> stailq_rep nx' h xs"
  using chain_cong [of xs nx' nx] by (simp add: stailq_rep_def)

lemma rep_init: "stailq_rep nx STAILQ_INIT []"
  by (simp add: stailq_rep_def STAILQ_INIT_def last_slot_def)

lemma rep_empty_iff: "stailq_rep nx h xs \<Longrightarrow> STAILQ_EMPTY h \<longleftrightarrow> xs = []"
  by (cases xs) (auto simp: stailq_rep_def STAILQ_EMPTY_def)

lemma rep_first: "stailq_rep nx h xs \<Longrightarrow> STAILQ_FIRST h = (case xs of [] \<Rightarrow> None | x # _ \<Rightarrow> Some x)"
  by (cases xs) (auto simp: stailq_rep_def STAILQ_FIRST_def)

lemma rep_last: "stailq_rep nx h xs \<Longrightarrow> STAILQ_LAST h = (if xs = [] then None else Some (last xs))"
  by (cases xs) (auto simp: stailq_rep_def STAILQ_LAST_def STAILQ_EMPTY_def last_slot_def)

lemma rep_insert_tail:
  assumes "stailq_rep nx h xs" and "e \<notin> set xs" and "STAILQ_INSERT_TAIL nx h e = (nx', h')"
  shows "stailq_rep nx' h' (xs @ [e])"
proof (cases "xs = []")
  case True
  with assms show ?thesis
    by (auto simp: stailq_rep_def STAILQ_INSERT_TAIL_def store_last_def last_slot_def)
next
  case False
  from assms have c: "chain (nx(e := None)) (stqh_first h) xs" by (simp add: stailq_rep_def)
  have "chain (nx(e := None, last xs := Some e)) (stqh_first h) (xs @ [e])"
    using chain_extend [OF c False, of "[e]" "Some e"] assms(2) by simp
  with assms False show ?thesis
    by (auto simp: stailq_rep_def STAILQ_INSERT_TAIL_def store_last_def last_slot_def)
qed

lemma insert_tail_frame:
  assumes "stailq_rep nx h xs" and "STAILQ_INSERT_TAIL nx h e = (nx', h')" and "a \<noteq> e" and "a \<notin> set xs"
  shows "nx' a = nx a"
  using assms
  by (auto simp: stailq_rep_def STAILQ_INSERT_TAIL_def store_last_def last_slot_def split: if_splits)

lemma rep_insert_head:
  assumes "stailq_rep nx h xs" and "e \<notin> set xs" and "STAILQ_INSERT_HEAD nx h e = (nx', h')"
  shows "stailq_rep nx' h' (e # xs)"
  using assms
  by (cases xs) (auto simp: stailq_rep_def STAILQ_INSERT_HEAD_def last_slot_def Let_def)

lemma insert_head_frame:
  assumes "STAILQ_INSERT_HEAD nx h e = (nx', h')" and "a \<noteq> e"
  shows "nx' a = nx a"
  using assms by (auto simp: STAILQ_INSERT_HEAD_def Let_def)

lemma rep_remove_head:
  assumes "stailq_rep nx h (x # xs)"
  shows "\<exists>h'. STAILQ_REMOVE_HEAD nx h = Inr h' \<and> stailq_rep nx h' xs"
  using assms
  by (cases xs) (auto simp: stailq_rep_def STAILQ_REMOVE_HEAD_def last_slot_def Let_def)

lemma remove_head_empty: "stailq_rep nx h [] \<Longrightarrow> STAILQ_REMOVE_HEAD nx h = Inl NullDeref"
  by (auto simp: stailq_rep_def STAILQ_REMOVE_HEAD_def)

lemma rep_shift:
  assumes "stailq_rep nx h (x # xs)"
  shows "\<exists>h'. list_shift nx h = Inr (Some x, h') \<and> stailq_rep nx h' xs"
  using rep_remove_head [OF assms] rep_first [OF assms] by (auto simp: list_shift_def)

lemma shift_empty: "stailq_rep nx h [] \<Longrightarrow> list_shift nx h = Inl NullDeref"
  by (simp add: list_shift_def remove_head_empty)

lemma rep_insert_after:
  assumes "stailq_rep nx h (us @ x # vs)" and "e \<notin> set (us @ x # vs)"
    and "STAILQ_INSERT_AFTER nx h x e = (nx', h')"
  shows "stailq_rep nx' h' (us @ x # e # vs)"
proof -
  let ?nx = "nx(e := nx x, x := Some e)"
  from assms(1) have c: "chain nx (stqh_first h) (us @ x # vs)" by (simp add: stailq_rep_def)
  have d: "distinct (us @ x # vs)" using c by (rule chain_distinct)
  have pre: "chain nx p (us @ x # vs) \<Longrightarrow> chain ?nx p (us @ x # e # vs)" for p
    using assms(2) d by (induction us arbitrary: p) auto
  have nx': "nx' = ?nx" using assms(3) by (auto simp: STAILQ_INSERT_AFTER_def Let_def)
  have "stqh_first h' = stqh_first h" and "stqh_size h' = stqh_size h + 1"
    and "stqh_last h' = (if nx x = None then AtNext e else stqh_last h)"
    using assms(3) by (auto simp: STAILQ_INSERT_AFTER_def Let_def)
  with assms(1) pre [OF c] nx' chain_split [OF c] show ?thesis
    by (auto simp: stailq_rep_def last_slot_def split: list.splits)
qed

lemma rep_concat:
  assumes "stailq_rep nx h1 xs" and "stailq_rep nx h2 ys" and "set xs \<inter> set ys = {}"
    and "STAILQ_CONCAT nx h1 h2 = (nx', h1', h2')"
  shows "stailq_rep nx' h1' (xs @ ys) \<and> stailq_rep nx' h2' []"
proof (cases "ys = []")
  case True
  with assms show ?thesis by (auto simp: STAILQ_CONCAT_def rep_empty_iff)
next
  case False
  have ne: "\<not> STAILQ_EMPTY h2" using assms(2) False by (simp add: rep_empty_iff)
  have "chain nx (stqh_first h1) xs" and "chain nx (stqh_first h2) ys"
    using assms(1,2) by (auto simp: stailq_rep_def)
  then have "xs \<noteq> [] \<Longrightarrow> chain (nx(last xs := stqh_first h2)) (stqh_first h1) (xs @ ys)"
    using assms(3) by (simp add: chain_extend)
  with assms ne False show ?thesis
    by (auto simp: STAILQ_CONCAT_def stailq_rep_def store_last_def last_slot_def STAILQ_INIT_def
        split: if_splits)
qed

lemma find_prev_chain:
  assumes "chain nx p (us @ c # x # vs)"
  shows "stailq_find_prev nx p x = Some (Inr c)"
proof -
  have "distinct (us @ c # x # vs)" using assms by (rule chain_distinct)
  then show ?thesis using assms
  proof (induction us arbitrary: p)
    case Nil
    then show ?case by (subst stailq_find_prev.simps) auto
  next
    case (Cons u us)
    have n: "nx u = (case us @ c # x # vs of [] \<Rightarrow> None | v # _ \<Rightarrow> Some v)"
      using Cons.prems(2) chain_split [of nx p "[]" u "us @ c # x # vs"] by simp
    have "nx u \<noteq> Some x" using n Cons.prems(1) by (cases us) auto
    with Cons show ?case by (subst stailq_find_prev.simps) auto
  qed
qed

lemma find_prev_missing:
  "chain nx p xs \<Longrightarrow> x \<notin> set xs \<Longrightarrow> stailq_find_prev nx p x = Some (Inl NullDeref)"
proof (induction xs arbitrary: p)
  case Nil
  then show ?case by (subst stailq_find_prev.simps) simp
next
  case (Cons y ys)
  then have "nx y \<noteq> Some x" by (cases ys) auto
  with Cons show ?case by (subst stailq_find_prev.simps) auto
qed

lemma chain_unlink:
  assumes "chain nx p (us @ c # x # vs)"
  shows "chain (nx(c := nx x)) p (us @ c # vs)"
proof -
  have "distinct (us @ c # x # vs)" using assms by (rule chain_distinct)
  then show ?thesis using assms
  proof (induction us arbitrary: p)
    case Nil
    then have "chain nx (nx x) vs" and "c \<notin> set vs" and "p = Some c" by auto
    then show ?case by (simp del: fun_upd_apply add: fun_upd_same)
  qed auto
qed

text \<open>\<open>STAILQ_REMOVE\<close> returns and takes exactly the given item out of the list.\<close>

lemma rep_remove:
  assumes "stailq_rep nx h (us @ x # vs)"
  shows "\<exists>nx' h'. STAILQ_REMOVE nx h x = Some (Inr (nx', h')) \<and> stailq_rep nx' h' (us @ vs)
    \<and> (\<forall>a. a \<notin> set us \<longrightarrow> nx' a = nx a)"
proof (cases us rule: rev_cases)
  case Nil
  with assms rep_remove_head [of nx h x vs] show ?thesis
    by (auto simp: STAILQ_REMOVE_def stailq_rep_def)
next
  case (snoc us' c)
  from assms snoc have ch: "chain nx (stqh_first h) (us' @ c # x # vs)"
    by (simp add: stailq_rep_def)
  have d: "distinct (us' @ c # x # vs)" using ch by (rule chain_distinct)
  have nf: "stqh_first h \<noteq> Some x" using ch d by (cases us') auto
  have nxt: "nx x = (case vs of [] \<Rightarrow> None | v # _ \<Rightarrow> Some v)"
    using ch chain_split [of nx "stqh_first h" "us' @ [c]" x vs] by simp
  show ?thesis
    using assms nf nxt chain_unlink [OF ch] snoc
    by (auto simp: STAILQ_REMOVE_def find_prev_chain [OF ch] stailq_rep_def last_slot_def Let_def
        split: list.splits)
qed

lemma rep_pop:
  assumes "stailq_rep nx h (us @ [x])"
  shows "\<exists>nx' h'. list_pop nx h = Some (Inr (Some x, nx', h')) \<and> stailq_rep nx' h' us"
  using rep_remove [of nx h us x "[]"] rep_last [OF assms] assms
  by (auto simp: list_pop_def)

lemma foreach_chain: "chain nx p xs \<Longrightarrow> stailq_foreach nx p = Some xs"
proof (induction xs arbitrary: p)
  case Nil
  then show ?case by (subst stailq_foreach.simps) simp
next
  case (Cons x xs)
  then show ?case by (subst stailq_foreach.simps) simp
qed

lemma rep_foreach: "stailq_rep nx h xs \<Longrightarrow> STAILQ_FOREACH nx h = Some xs"
  by (simp add: stailq_rep_def STAILQ_FOREACH_def STAILQ_FIRST_def foreach_chain)

lemma list_walk_chain:
  "chain nx p xs \<Longrightarrow> k < length xs \<Longrightarrow> list_walk nx k p = Inr (Some (xs ! k))"
proof (induction xs arbitrary: p k)
  case (Cons x xs)
  then show ?case by (cases k) auto
qed simp

lemma list_clear_rep:
  "stailq_rep nx h xs \<Longrightarrow> \<exists>h'. list_clear nx h = Some (Inr (xs, h')) \<and> stailq_rep nx h' []"
proof (induction xs arbitrary: h)
  case Nil
  then show ?case by (subst list_clear.simps) (simp add: rep_first)
next
  case (Cons x xs)
  from rep_remove_head [OF Cons.prems] obtain h1
    where h1: "STAILQ_REMOVE_HEAD nx h = Inr h1" "stailq_rep nx h1 xs" by blast
  from Cons.IH [OF h1(2)] obtain h' where "list_clear nx h1 = Some (Inr (xs, h'))"
    and "stailq_rep nx h' []" by blast
  with h1 Cons.prems show ?case by (subst list_clear.simps) (simp add: rep_first)
qed

section \<open>The interface of a task queue\<close>

text \<open>Sequences of pushes and of shifts, for any implementation of the two operations.\<close>

fun push_all :: "('m \<Rightarrow> 'q \<Rightarrow> addr \<Rightarrow> 'm \<times> 'q) \<Rightarrow> 'm \<Rightarrow> 'q \<Rightarrow> addr list \<Rightarrow> 'm \<times> 'q" where
  "push_all psh m q [] = (m, q)"
| "push_all psh m q (e # es) = (case psh m q e of (m', q') \<Rightarrow> push_all psh m' q' es)"

fun shift_n :: "('m \<Rightarrow> 'q \<Rightarrow> (ptr \<times> 'q) res) \<Rightarrow> nat \<Rightarrow> 'm \<Rightarrow> 'q \<Rightarrow> (ptr list \<times> 'q) res" where
  "shift_n shf 0 m q = Inr ([], q)"
| "shift_n shf (Suc n) m q =
     bind_res (shf m q)
       (\<lambda>(p, q'). bind_res (shift_n shf n m q') (\<lambda>(ps, q''). Inr (p # ps, q'')))"

text \<open>
  What the environment asks of a queue over shared links: pushing at either end and taking
  the first item act on the represented list, and none of them disturbs the links of an
  item that is in neither the queue nor the operation.
\<close>

locale task_fifo =
  fixes rep :: "'m \<Rightarrow> 'q \<Rightarrow> addr list \<Rightarrow> bool"
    and link :: "'m \<Rightarrow> addr \<Rightarrow> ptr"
    and push :: "'m \<Rightarrow> 'q \<Rightarrow> addr \<Rightarrow> 'm \<times> 'q"
    and unshift :: "'m \<Rightarrow> 'q \<Rightarrow> addr \<Rightarrow> 'm \<times> 'q"
    and shift :: "'m \<Rightarrow> 'q \<Rightarrow> (ptr \<times> 'q) res"
  assumes rep_push: "rep m q xs \<Longrightarrow> e \<notin> set xs \<Longrightarrow> push m q e = (m', q') \<Longrightarrow> rep m' q' (xs @ [e])"
    and rep_unshift: "rep m q xs \<Longrightarrow> e \<notin> set xs \<Longrightarrow> unshift m q e = (m', q') \<Longrightarrow> rep m' q' (e # xs)"
    and rep_shift_Cons: "rep m q (x # xs) \<Longrightarrow> \<exists>q'. shift m q = Inr (Some x, q') \<and> rep m q' xs"
    and shift_Nil: "rep m q [] \<Longrightarrow> shift m q = Inl NullDeref"
    and push_link: "rep m q xs \<Longrightarrow> push m q e = (m', q') \<Longrightarrow> a \<noteq> e \<Longrightarrow> a \<notin> set xs \<Longrightarrow> link m' a = link m a"
    and unshift_link: "rep m q xs \<Longrightarrow> unshift m q e = (m', q') \<Longrightarrow> a \<noteq> e \<Longrightarrow> a \<notin> set xs \<Longrightarrow> link m' a = link m a"
    and rep_cong: "rep m q xs \<Longrightarrow> \<forall>x\<in>set xs. link m' x = link m x \<Longrightarrow> rep m' q xs"
    and rep_dist: "rep m q xs \<Longrightarrow> distinct xs"
begin

text \<open>Pushing into one queue keeps every other queue that shares no item with it.\<close>

lemma push_other:
  assumes "rep m q xs" and "rep m p ys" and "push m q e = (m', q')"
    and "e \<notin> set ys" and "set xs \<inter> set ys = {}"
  shows "rep m' p ys"
proof (rule rep_cong [OF assms(2)], rule ballI)
  fix y assume "y \<in> set ys"
  with assms(4,5) have "y \<noteq> e" and "y \<notin> set xs" by auto
  then show "link m' y = link m y" by (rule push_link [OF assms(1,3)])
qed

lemma unshift_other:
  assumes "rep m q xs" and "rep m p ys" and "unshift m q e = (m', q')"
    and "e \<notin> set ys" and "set xs \<inter> set ys = {}"
  shows "rep m' p ys"
proof (rule rep_cong [OF assms(2)], rule ballI)
  fix y assume "y \<in> set ys"
  with assms(4,5) have "y \<noteq> e" and "y \<notin> set xs" by auto
  then show "link m' y = link m y" by (rule unshift_link [OF assms(1,3)])
qed

text \<open>A shift succeeds exactly on a non-empty queue, and gives its first item.\<close>

lemma shift_Inr_iff:
  assumes "rep m q xs"
  shows "(\<exists>r. shift m q = Inr r) \<longleftrightarrow> xs \<noteq> []"
proof (cases xs)
  case Nil
  with assms shift_Nil [of m q] show ?thesis by simp
next
  case (Cons x ys)
  with assms rep_shift_Cons [of m q x ys] show ?thesis by auto
qed

lemma shift_InrD:
  assumes "rep m q xs" and "shift m q = Inr (p, q')"
  shows "\<exists>x ys. xs = x # ys \<and> p = Some x \<and> rep m q' ys"
proof (cases xs)
  case Nil
  with assms shift_Nil [of m q] show ?thesis by simp
next
  case (Cons x ys)
  with assms rep_shift_Cons [of m q x ys] show ?thesis by auto
qed

text \<open>Pushing items one after the other and shifting them out gives them back in order.\<close>

lemma push_all_rep:
  "rep m q xs \<Longrightarrow> distinct (xs @ es) \<Longrightarrow> push_all push m q es = (m', q') \<Longrightarrow> rep m' q' (xs @ es)"
proof (induction es arbitrary: m q xs)
  case (Cons e es)
  obtain m1 q1 where p: "push m q e = (m1, q1)" by fastforce
  from Cons.prems have "rep m1 q1 (xs @ [e])" using rep_push p by auto
  with Cons.IH [of m1 q1 "xs @ [e]"] Cons.prems p show ?case by simp
qed simp

lemma shift_n_rep:
  "rep m q (xs @ ys) \<Longrightarrow> \<exists>q'. shift_n shift (length xs) m q = Inr (map Some xs, q') \<and> rep m q' ys"
proof (induction xs arbitrary: q)
  case (Cons x xs)
  from rep_shift_Cons [of m q x "xs @ ys"] Cons.prems obtain q1
    where "shift m q = Inr (Some x, q1)" and "rep m q1 (xs @ ys)" by auto
  with Cons.IH show ?case by fastforce
qed simp

end

interpretation stq: task_fifo stailq_rep "\<lambda>nx. nx" list_push list_unshift list_shift
  unfolding task_fifo_def list_push_def list_unshift_def
  by (intro conjI allI impI)
    (erule (2) rep_insert_tail rep_insert_head | erule rep_shift shift_empty rep_distinct
      | erule (3) insert_tail_frame | erule (1) insert_head_frame | erule (1) rep_frame)+

section \<open>Properties\<close>

text \<open>
  First in, first out: items pushed onto an empty queue come out of \<open>list_shift\<close> in the
  order they were pushed, and the queue is then empty.
\<close>

theorem queue_is_fifo:
  assumes "distinct es" and "push_all list_push nx list_new es = (nx', h)"
  shows "\<exists>h'. shift_n list_shift (length es) nx' h = Inr (map Some es, h') \<and> STAILQ_EMPTY h'"
proof -
  have "stailq_rep nx' h ([] @ es)"
    using stq.push_all_rep [of nx list_new "[]" es nx' h] assms rep_init by (simp add: list_new_def)
  then obtain h' where "shift_n list_shift (length es) nx' h = Inr (map Some es, h')"
    and "stailq_rep nx' h' []"
    using stq.shift_n_rep [of nx' h es "[]"] by auto
  then show ?thesis by (auto simp: rep_empty_iff)
qed

theorem queue_is_fifo_witness:
  "\<exists>h'. shift_n list_shift 3 (fst (push_all list_push (\<lambda>_. None) list_new [7, 5, 9]))
      (snd (push_all list_push (\<lambda>_. None) list_new [7, 5, 9])) = Inr ([Some 7, Some 5, Some 9], h')
    \<and> STAILQ_EMPTY h'"
  using queue_is_fifo [of "[7, 5, 9]" "\<lambda>_. None"
      "fst (push_all list_push (\<lambda>_. None) list_new [7, 5, 9])"
      "snd (push_all list_push (\<lambda>_. None) list_new [7, 5, 9])"]
  by (simp add: numeral_3_eq_3 del: push_all.simps shift_n.simps)

text \<open>
  \<open>list_push\<close> refines appending at the end of the represented list, and a queue that
  shares the links but no item with this one still represents the same list.
\<close>

theorem list_push_refines:
  assumes "stailq_rep nx h xs" and "e \<notin> set xs" and "list_push nx h e = (nx', h')"
  shows "stailq_rep nx' h' (xs @ [e]) \<and>
    (\<forall>p ys. stailq_rep nx p ys \<and> e \<notin> set ys \<and> set xs \<inter> set ys = {} \<longrightarrow> stailq_rep nx' p ys)"
  using stq.rep_push [OF assms] stq.push_other [OF assms(1) _ assms(3)] by blast

text \<open>Two queues over the same links, the first holding \<open>3, 4\<close> and the second \<open>8\<close>.\<close>

definition two_links :: links where
  "two_links = (\<lambda>_. None)(3 := Some 4)"

definition two_first :: stailq where
  "two_first = \<lparr>stqh_first = Some 3, stqh_last = AtNext 4, stqh_size = 2\<rparr>"

definition two_second :: stailq where
  "two_second = \<lparr>stqh_first = Some 8, stqh_last = AtNext 8, stqh_size = 1\<rparr>"

lemma two_queues_rep:
  "stailq_rep two_links two_first [3, 4]" "stailq_rep two_links two_second [8]"
  by (simp_all add: stailq_rep_def two_links_def two_first_def two_second_def last_slot_def)

theorem list_push_refines_witness:
  "stailq_rep (fst (list_push two_links two_first 6)) (snd (list_push two_links two_first 6)) [3, 4, 6]
   \<and> stailq_rep (fst (list_push two_links two_first 6)) two_second [8]"
proof -
  have "list_push two_links two_first 6 =
      (fst (list_push two_links two_first 6), snd (list_push two_links two_first 6))" by simp
  from list_push_refines [OF two_queues_rep(1) _ this] two_queues_rep(2) show ?thesis by force
qed

text \<open>
  \<open>STAILQ_REMOVE\<close> of an item in the queue always returns, without dereferencing NULL,
  and the queue then represents the list without that item.
\<close>

theorem stailq_remove_refines:
  assumes "stailq_rep nx h xs" and "x \<in> set xs"
  shows "\<exists>nx' h'. STAILQ_REMOVE nx h x = Some (Inr (nx', h')) \<and> stailq_rep nx' h' (remove1 x xs)"
proof -
  obtain us vs where xs: "xs = us @ x # vs" "x \<notin> set us"
    using assms rep_distinct split_at_member by metis
  then have "remove1 x xs = us @ vs" by (simp add: remove1_append)
  then show ?thesis using rep_remove [of nx h us x vs] assms xs by auto
qed

theorem stailq_remove_refines_witness:
  "\<exists>nx' h'. STAILQ_REMOVE two_links two_first 4 = Some (Inr (nx', h')) \<and> stailq_rep nx' h' [3]"
  using stailq_remove_refines [OF two_queues_rep(1), of 4] by simp

lemma push_last_self:
  assumes "stailq_rep nx h (xs @ [e])" and "list_push nx h e = (nx', h')"
  shows "nx' e = Some e"
  using assms by (auto simp: stailq_rep_def list_push_def STAILQ_INSERT_TAIL_def store_last_def last_slot_def)

text \<open>An item that points at itself is in no represented list.\<close>

lemma self_not_in_rep:
  assumes "stailq_rep nx h ys" and "nx e = Some e"
  shows "e \<notin> set ys"
proof
  assume "e \<in> set ys"
  then obtain us vs where ys: "ys = us @ e # vs" by (meson split_list)
  have "chain nx p (us @ e # vs) \<Longrightarrow> chain nx (Some e) (e # vs)" for p
    by (induction us arbitrary: p) auto
  then have "chain nx (Some e) (e # vs)" using assms(1) ys by (auto simp: stailq_rep_def)
  then have "chain nx (Some e) vs" using assms(2) by simp
  with \<open>chain nx (Some e) (e # vs)\<close> have "e # vs = vs" by (rule chain_unique)
  then show False by simp
qed

lemma foreach_self_loop: "nx e = Some e \<Longrightarrow> stailq_foreach nx (Some e) = None"
proof (rule ccontr)
  assume loop: "nx e = Some e" and "stailq_foreach nx (Some e) \<noteq> None"
  then obtain vs where vs: "stailq_foreach nx (Some e) = Some vs" by auto
  have "chain nx (Some e) vs"
  proof (rule stailq_foreach.raw_induct [where P = "chain", OF _ vs])
    fix f nx var r
    assume "\<And>nx var r. f nx var = Some r \<Longrightarrow> chain nx var r"
      and "(case var of None \<Rightarrow> Some [] | Some v \<Rightarrow> Option.bind (f nx (nx v)) (\<lambda>vs. Some (v # vs)))
        = Some r"
    then show "chain nx var r" by (auto split: option.splits bind_splits)
  qed
  moreover from this obtain ws where "vs = e # ws" by (cases vs) auto
  ultimately have "chain nx (Some e) ws" and v: "vs = e # ws" using loop by auto
  with \<open>chain nx (Some e) vs\<close> have "vs = ws" by (blast intro: chain_unique)
  with v show False by (metis not_Cons_self)
qed

text \<open>
  Pushing an item that is already the last of the queue makes the queue cyclic: the item
  points at itself, no list is represented any more and a traversal never returns.
\<close>

theorem double_push_makes_cycle:
  assumes "stailq_rep nx h (xs @ [e])" and "list_push nx h e = (nx', h')"
  shows "nx' e = Some e \<and> (\<forall>ys. \<not> stailq_rep nx' h' (ys @ [e])) \<and> stailq_foreach nx' (Some e) = None"
proof -
  have "nx' e = Some e" using push_last_self [OF assms] .
  moreover from this have "stailq_foreach nx' (Some e) = None" by (rule foreach_self_loop)
  moreover have "\<not> stailq_rep nx' h' (ys @ [e])" for ys
    using \<open>nx' e = Some e\<close> chain_next_last [of nx' "stqh_first h'" "ys @ [e]"]
    by (auto simp: stailq_rep_def)
  ultimately show ?thesis by blast
qed

theorem double_push_makes_cycle_witness:
  "stailq_foreach (fst (list_push two_links two_first 4)) (Some 4) = None"
proof -
  have "list_push two_links two_first 4 =
      (fst (list_push two_links two_first 4), snd (list_push two_links two_first 4))" by simp
  from double_push_makes_cycle [of two_links two_first "[3]" 4, OF _ this] two_queues_rep(1)
  show ?thesis by simp
qed

text \<open>
  \<open>list_addr\<close> on a queue of fewer than \<open>2 ^ 31\<close> items: an index inside the queue gives
  that item, one past the end gives NULL, and a negative index gives the first item.
\<close>

theorem list_addr_spec:
  assumes "stailq_rep nx h xs" and "length xs < 2147483648"
    and "- 2147483648 \<le> n" and "n < 2147483648"
  shows "list_addr nx h n =
    Inr (if n \<ge> int (length xs) then None else if xs = [] then None else Some (xs ! nat n))"
proof -
  have "sint (of_nat (length xs) :: u32) = int (length xs)"
    using assms(2) by (simp add: signed_of_nat signed_take_bit_id)
  then have sz: "sint (list_size h) = int (length xs)"
    using assms(1) by (simp add: stailq_rep_def list_size_def)
  have c: "chain nx (stqh_first h) xs" using assms(1) by (simp add: stailq_rep_def)
  show ?thesis
  proof (cases "n \<ge> int (length xs)")
    case True
    then show ?thesis using sz assms(3,4) by (simp add: list_addr_def)
  next
    case False
    then have "xs = [] \<or> nat n < length xs" by (cases xs) auto
    then show ?thesis
      using False sz assms(3,4) c list_walk_chain [OF c, of "nat n"]
      by (auto simp: list_addr_def STAILQ_FIRST_def)
  qed
qed

theorem list_addr_spec_witness:
  "list_addr two_links two_first 1 = Inr (Some 4) \<and> list_addr two_links two_first 2 = Inr None
   \<and> list_addr two_links two_first (-5) = Inr (Some 3)"
  using list_addr_spec [OF two_queues_rep(1), of 1] list_addr_spec [OF two_queues_rep(1), of 2]
    list_addr_spec [OF two_queues_rep(1), of "-5"] by simp

text \<open>
  \<open>STAILQ_REMOVE_HEAD_UNTIL\<close> leaves the size field alone: after it a queue of fewer than
  \<open>2 ^ 32\<close> items has the remaining items but no longer represents any list.
\<close>

theorem remove_head_until_breaks_size:
  assumes "stailq_rep nx h (us @ x # vs)" and "length (us @ x # vs) < 4294967296"
  shows "stailq_foreach nx (stqh_first (STAILQ_REMOVE_HEAD_UNTIL nx h x)) = Some vs
    \<and> unat (list_size (STAILQ_REMOVE_HEAD_UNTIL nx h x)) = length us + 1 + length vs"
proof -
  have c: "chain nx (nx x) vs" using assms(1) chain_drop by (auto simp: stailq_rep_def)
  have "unat (of_nat (length (us @ x # vs)) :: u32) = length (us @ x # vs)"
    using assms(2) by (simp only: unat_of_nat) (simp add: take_bit_nat_eq_self)
  with assms(1) have "unat (stqh_size h) = length us + 1 + length vs"
    unfolding stailq_rep_def by (metis length_append length_Cons add.assoc add_Suc_right Suc_eq_plus1 add.commute)
  with foreach_chain [OF c] show ?thesis
    by (cases "nx x") (simp_all add: STAILQ_REMOVE_HEAD_UNTIL_def list_size_def Let_def)
qed

theorem remove_head_until_breaks_size_witness:
  "stailq_foreach two_links (stqh_first (STAILQ_REMOVE_HEAD_UNTIL two_links two_first 3)) = Some [4]
   \<and> unat (list_size (STAILQ_REMOVE_HEAD_UNTIL two_links two_first 3)) = 2"
  using remove_head_until_breaks_size [of two_links two_first "[]" 3 "[4]"] two_queues_rep(1) by simp

end
