(* ===== verification/Bsdqueue_Programs.thy ===== *)
theory Bsdqueue_Programs
  imports Bsdqueue
begin

text \<open>
  The rest of the list interface of \<^verbatim>\<open>src/src/bsdqueue.h\<close>, and programs over it: any sequence
  of queue operations does to the pointers what the same operations on lists do to the represented
  list, errors included, and a traversal with \<open>list_foreach_safe\<close> may remove items as it goes.
\<close>

section \<open>Operations\<close>

definition list_insert :: "links \<Rightarrow> stailq \<Rightarrow> addr \<Rightarrow> addr \<Rightarrow> links \<times> stailq" where
  "list_insert nx h pos e = STAILQ_INSERT_AFTER nx h pos e"

definition list_first :: "stailq \<Rightarrow> ptr" where
  "list_first h = STAILQ_FIRST h"

definition list_last :: "stailq \<Rightarrow> ptr" where
  "list_last h = STAILQ_LAST h"

definition list_empty :: "stailq \<Rightarrow> bool" where
  "list_empty h = STAILQ_EMPTY h"

definition list_cat :: "links \<Rightarrow> stailq \<Rightarrow> stailq \<Rightarrow> links \<times> stailq \<times> stailq" where
  "list_cat nx h1 h2 = STAILQ_CONCAT nx h1 h2"

definition list_remove :: "links \<Rightarrow> stailq \<Rightarrow> addr \<Rightarrow> (links \<times> stailq) res option" where
  "list_remove nx h e = STAILQ_REMOVE nx h e"

definition list_remove_head :: "links \<Rightarrow> stailq \<Rightarrow> stailq res" where
  "list_remove_head nx h = STAILQ_REMOVE_HEAD nx h"

text \<open>The two deletions also give the address passed to \<open>mem_free\<close>.\<close>

definition list_delete :: "links \<Rightarrow> stailq \<Rightarrow> addr \<Rightarrow> (ptr \<times> links \<times> stailq) res option" where
  "list_delete nx h e = map_option (map_sum id (Pair (Some e))) (list_remove nx h e)"

definition list_delete_head :: "links \<Rightarrow> stailq \<Rightarrow> (ptr \<times> stailq) res" where
  "list_delete_head nx h = (let first_ptr = list_first h in map_sum id (Pair first_ptr) (list_remove_head nx h))"

text \<open>
  \<open>list_foreach_safe\<close> with a loop body over the links and the head: the next item is read before the
  body runs. \<open>None\<close> is a loop that never ends.
\<close>

partial_function (option) list_foreach_safe ::
  "(addr \<Rightarrow> links \<times> stailq \<Rightarrow> (links \<times> stailq) res option) \<Rightarrow> ptr \<Rightarrow> links \<times> stailq \<Rightarrow> (links \<times> stailq) res option" where
  "list_foreach_safe body var q =
     (case var of
        None \<Rightarrow> Some (Inr q)
      | Some v \<Rightarrow>
          let tvar = STAILQ_NEXT (fst q) v
          in Option.bind (body v q) (\<lambda>r. case r of Inl f \<Rightarrow> Some (Inl f) | Inr q' \<Rightarrow> list_foreach_safe body tvar q'))"

section \<open>Programs over a queue\<close>

datatype queue_op =
    Q_push addr
  | Q_unshift addr
  | Q_insert addr addr
  | Q_remove addr
  | Q_shift
  | Q_pop

text \<open>One operation, with the item it gives to the caller.\<close>

fun queue_do :: "queue_op \<Rightarrow> links \<times> stailq \<Rightarrow> (ptr \<times> links \<times> stailq) res option" where
  "queue_do (Q_push e) (nx, h) = Some (Inr (None, list_push nx h e))"
| "queue_do (Q_unshift e) (nx, h) = Some (Inr (None, list_unshift nx h e))"
| "queue_do (Q_insert pos e) (nx, h) = Some (Inr (None, list_insert nx h pos e))"
| "queue_do (Q_remove e) (nx, h) = map_option (map_sum id (Pair None)) (list_remove nx h e)"
| "queue_do Q_shift (nx, h) = Some (map_sum id (\<lambda>(p, h'). (p, nx, h')) (list_shift nx h))"
| "queue_do Q_pop (nx, h) = list_pop nx h"

fun queue_run :: "queue_op list \<Rightarrow> links \<times> stailq \<Rightarrow> (ptr list \<times> links \<times> stailq) res option" where
  "queue_run [] q = Some (Inr ([], q))"
| "queue_run (op # ops) q =
     Option.bind (queue_do op q) (\<lambda>r. case r of
       Inl f \<Rightarrow> Some (Inl f)
     | Inr (p, q') \<Rightarrow> map_option (map_sum id (map_prod ((#) p) id)) (queue_run ops q'))"

text \<open>The same operations on lists.\<close>

fun insert_behind :: "addr \<Rightarrow> addr \<Rightarrow> addr list \<Rightarrow> addr list" where
  "insert_behind pos e [] = []"
| "insert_behind pos e (x # xs) = (if x = pos then x # e # xs else x # insert_behind pos e xs)"

fun list_do :: "queue_op \<Rightarrow> addr list \<Rightarrow> (ptr \<times> addr list) res" where
  "list_do (Q_push e) xs = Inr (None, xs @ [e])"
| "list_do (Q_unshift e) xs = Inr (None, e # xs)"
| "list_do (Q_insert pos e) xs = Inr (None, insert_behind pos e xs)"
| "list_do (Q_remove e) xs = Inr (None, remove1 e xs)"
| "list_do Q_shift xs = (case xs of [] \<Rightarrow> Inl NullDeref | x # ys \<Rightarrow> Inr (Some x, ys))"
| "list_do Q_pop xs = (if xs = [] then Inl NullDeref else Inr (Some (last xs), butlast xs))"

fun list_run :: "queue_op list \<Rightarrow> addr list \<Rightarrow> (ptr list \<times> addr list) res" where
  "list_run [] xs = Inr ([], xs)"
| "list_run (op # ops) xs =
     bind_res (list_do op xs) (\<lambda>(p, ys). map_sum id (map_prod ((#) p) id) (list_run ops ys))"

text \<open>
  What the caller of an operation has to see to: a new item is not in the queue, and the item to
  remove or to insert behind is.
\<close>

fun op_ok :: "queue_op \<Rightarrow> addr list \<Rightarrow> bool" where
  "op_ok (Q_push e) xs \<longleftrightarrow> e \<notin> set xs"
| "op_ok (Q_unshift e) xs \<longleftrightarrow> e \<notin> set xs"
| "op_ok (Q_insert pos e) xs \<longleftrightarrow> pos \<in> set xs \<and> e \<notin> set xs"
| "op_ok (Q_remove e) xs \<longleftrightarrow> e \<in> set xs"
| "op_ok Q_shift xs \<longleftrightarrow> True"
| "op_ok Q_pop xs \<longleftrightarrow> True"

fun ops_ok :: "queue_op list \<Rightarrow> addr list \<Rightarrow> bool" where
  "ops_ok [] xs \<longleftrightarrow> True"
| "ops_ok (op # ops) xs \<longleftrightarrow> op_ok op xs \<and> (case list_do op xs of Inl f \<Rightarrow> True | Inr (p, ys) \<Rightarrow> ops_ok ops ys)"

lemma insert_behind_split: "pos \<notin> set us \<Longrightarrow> insert_behind pos e (us @ pos # vs) = us @ pos # e # vs"
  by (induction us) auto

lemma queue_do_refines:
  assumes rep: "stailq_rep nx h xs" and ok: "op_ok op xs"
  shows "case list_do op xs of
      Inl f \<Rightarrow> queue_do op (nx, h) = Some (Inl f)
    | Inr (p, ys) \<Rightarrow> \<exists>nx' h'. queue_do op (nx, h) = Some (Inr (p, nx', h')) \<and> stailq_rep nx' h' ys"
proof (cases op)
  case (Q_push e)
  obtain nx' h' where p: "list_push nx h e = (nx', h')" by fastforce
  from stq.rep_push [OF rep _ p] ok p Q_push show ?thesis by simp
next
  case (Q_unshift e)
  obtain nx' h' where p: "list_unshift nx h e = (nx', h')" by fastforce
  from stq.rep_unshift [OF rep _ p] ok p Q_unshift show ?thesis by simp
next
  case (Q_insert pos e)
  with ok rep_distinct [OF rep] obtain us vs where xs: "xs = us @ pos # vs" "pos \<notin> set us" "e \<notin> set xs"
    by (auto elim: split_at_member)
  obtain nx' h' where p: "STAILQ_INSERT_AFTER nx h pos e = (nx', h')" by fastforce
  from rep_insert_after [OF rep [unfolded xs(1)] _ p] xs p Q_insert show ?thesis
    by (simp add: insert_behind_split list_insert_def)
next
  case (Q_remove e)
  with ok rep_distinct [OF rep] obtain us vs where xs: "xs = us @ e # vs" "e \<notin> set us" by (auto elim: split_at_member)
  from rep_remove [OF rep [unfolded xs(1)]] xs Q_remove show ?thesis
    by (auto simp: list_remove_def remove1_append)
next
  case Q_shift
  show ?thesis
  proof (cases xs)
    case Nil
    with rep Q_shift shift_empty [of nx h] show ?thesis by simp
  next
    case (Cons x ys)
    with rep Q_shift rep_shift [of nx h x ys] show ?thesis by auto
  qed
next
  case Q_pop
  show ?thesis
  proof (cases xs rule: rev_cases)
    case Nil
    with rep Q_pop rep_last [OF rep] show ?thesis by (simp add: list_pop_def)
  next
    case (snoc us x)
    with rep_pop [of nx h us x] rep Q_pop show ?thesis by auto
  qed
qed

text \<open>
  (C31) The pointer queue and lists are interchangeable: every program of pushes at both ends,
  insertions, removals, shifts and pops that respects the caller's obligations gives the same items
  on the pointers of a queue as on the represented list, ends (never runs for ever) and leaves a
  queue that represents the resulting list, or fails on both with the same error.
\<close>

theorem queue_programs_equal_lists:
  assumes "stailq_rep nx h xs" and "ops_ok ops xs"
  shows "case list_run ops xs of
      Inl f \<Rightarrow> queue_run ops (nx, h) = Some (Inl f)
    | Inr (ps, ys) \<Rightarrow> \<exists>nx' h'. queue_run ops (nx, h) = Some (Inr (ps, nx', h')) \<and> stailq_rep nx' h' ys"
  using assms
proof (induction ops arbitrary: nx h xs)
  case (Cons op ops)
  note one = queue_do_refines [OF Cons.prems(1), of op]
  show ?case
  proof (cases "list_do op xs")
    case (Inl f)
    with one Cons.prems show ?thesis by simp
  next
    case (Inr r)
    obtain p ys where r: "r = (p, ys)" by fastforce
    with one Cons.prems Inr obtain nx' h' where q: "queue_do op (nx, h) = Some (Inr (p, nx', h'))" "stailq_rep nx' h' ys" by auto
    have ok: "ops_ok ops ys" using Cons.prems(2) Inr r by simp
    from Cons.IH [OF q(2) ok] q(1) Inr r show ?thesis by (cases "list_run ops ys") auto
  qed
qed simp

theorem queue_programs_equal_lists_witness:
  "\<exists>nx' h'. queue_run [Q_push 5, Q_unshift 9, Q_insert 9 7, Q_remove 3, Q_pop, Q_shift] (two_links, two_first) =
     Some (Inr ([None, None, None, None, Some 5, Some 9], nx', h')) \<and> stailq_rep nx' h' [7, 4]"
  using queue_programs_equal_lists [OF two_queues_rep(1), of "[Q_push 5, Q_unshift 9, Q_insert 9 7, Q_remove 3, Q_pop, Q_shift]"]
  by simp

section \<open>Removing items while walking\<close>

text \<open>The loop body that removes the items with property \<open>p\<close>.\<close>

definition remove_if :: "(addr \<Rightarrow> bool) \<Rightarrow> addr \<Rightarrow> links \<times> stailq \<Rightarrow> (links \<times> stailq) res option" where
  "remove_if p v q = (if p v then list_remove (fst q) (snd q) v else Some (Inr q))"

lemma foreach_safe_step:
  assumes "stailq_rep nx h (us @ rest)"
  shows "\<exists>nx' h'. list_foreach_safe (remove_if p) (case rest of [] \<Rightarrow> None | x # _ \<Rightarrow> Some x) (nx, h) = Some (Inr (nx', h')) \<and>
    stailq_rep nx' h' (us @ filter (\<lambda>x. \<not> p x) rest)"
  using assms
proof (induction rest arbitrary: nx h us)
  case Nil
  then show ?case by (subst list_foreach_safe.simps) simp
next
  case (Cons x rest)
  have next_x: "nx x = (case rest of [] \<Rightarrow> None | y # _ \<Rightarrow> Some y)"
    using Cons.prems chain_split [of nx "stqh_first h" us x rest] by (simp add: stailq_rep_def)
  show ?case
  proof (cases "p x")
    case True
    from rep_remove [OF Cons.prems] obtain nx1 h1 where
      r: "STAILQ_REMOVE nx h x = Some (Inr (nx1, h1))" "stailq_rep nx1 h1 (us @ rest)" by blast
    have "remove_if p x (nx, h) = Some (Inr (nx1, h1))" using True r(1) by (simp add: remove_if_def list_remove_def)
    with Cons.IH [OF r(2)] True next_x show ?thesis by (subst list_foreach_safe.simps) (simp add: STAILQ_NEXT_def)
  next
    case False
    then have "remove_if p x (nx, h) = Some (Inr (nx, h))" by (simp add: remove_if_def)
    with Cons.IH [of nx h "us @ [x]"] Cons.prems False next_x show ?thesis
      by (subst list_foreach_safe.simps) (simp add: STAILQ_NEXT_def)
  qed
qed

text \<open>
  \<open>list_foreach_safe\<close> is safe for removal: a loop that removes every item with a property \<open>p\<close>
  from the queue it walks visits every item, ends, and leaves the items without the property, in
  their order.
\<close>

theorem foreach_safe_filters:
  assumes "stailq_rep nx h xs"
  shows "\<exists>nx' h'. list_foreach_safe (remove_if p) (list_first h) (nx, h) = Some (Inr (nx', h')) \<and>
    stailq_rep nx' h' (filter (\<lambda>x. \<not> p x) xs)"
  using foreach_safe_step [of nx h "[]" xs p] assms rep_first [OF assms] by (simp add: list_first_def)

theorem foreach_safe_filters_witness:
  "\<exists>nx' h'. list_foreach_safe (remove_if even) (list_first two_first) (two_links, two_first) = Some (Inr (nx', h')) \<and>
     stailq_rep nx' h' [3]"
  using foreach_safe_filters [OF two_queues_rep(1), of even] by simp

end
