(* ===== verification/Libev_Heap.thy ===== *)
theory Libev_Heap
  imports Prelude
begin

text \<open>
  The timer heap of \<^verbatim>\<open>src/vendor/ev.c\<close> in the configuration the library is built with: the
  4-ary heap with cached expiry times. The array is a function from the C index to its
  entry; the first entry is at index \<open>HEAP0 = 3\<close>. Next to the array the operations update
  the \<open>active\<close> field of the watchers, which holds each watcher's index. Expiry times are
  of any linearly ordered type: no law of arithmetic is used, so the results hold for the
  doubles of the source as long as none is NaN.

  The lemmas show that \<open>upheap\<close> and \<open>downheap\<close> repair a heap that is in order except at one
  index, that they permute the entries, and that the index stored in every watcher is right
  again at the end: the conditions that libev's own \<open>verify_heap\<close> tests.
\<close>

section \<open>The operations\<close>

datatype ('w, 't) anhe = ANHE (anhe_w: 'w) (anhe_at: 't)

type_synonym ('w, 't) heap = "nat \<Rightarrow> ('w, 't) anhe"

definition HEAP0 :: nat where
  "HEAP0 = 3"

definition HPARENT :: "nat \<Rightarrow> nat" where
  "HPARENT k = (k - HEAP0 - 1) div 4 + HEAP0"

text \<open>\<open>heap [k] = he; ev_active (ANHE_w (he)) = k\<close>\<close>

definition heap_place ::
  "('w, 't) heap \<times> ('w \<Rightarrow> nat) \<Rightarrow> nat \<Rightarrow> ('w, 't) anhe \<Rightarrow> ('w, 't) heap \<times> ('w \<Rightarrow> nat)" where
  "heap_place st k he = ((fst st)(k := he), (snd st)(anhe_w he := k))"

text \<open>The search for the least child: the fast path, the slow path and no child at all.\<close>

definition min_child :: "('w, 't :: linorder) heap \<Rightarrow> nat \<Rightarrow> nat \<Rightarrow> nat option" where
  "min_child h E pos =
     (if pos + 4 - 1 < E then
        let m = pos;
            m = (if anhe_at (h (pos + 1)) < anhe_at (h m) then pos + 1 else m);
            m = (if anhe_at (h (pos + 2)) < anhe_at (h m) then pos + 2 else m);
            m = (if anhe_at (h (pos + 3)) < anhe_at (h m) then pos + 3 else m)
        in Some m
      else if pos < E then
        let m = pos;
            m = (if pos + 1 < E \<and> anhe_at (h (pos + 1)) < anhe_at (h m) then pos + 1 else m);
            m = (if pos + 2 < E \<and> anhe_at (h (pos + 2)) < anhe_at (h m) then pos + 2 else m);
            m = (if pos + 3 < E \<and> anhe_at (h (pos + 3)) < anhe_at (h m) then pos + 3 else m)
        in Some m
      else None)"

lemma min_child_range:
  "min_child h E pos = Some m \<Longrightarrow> pos \<le> m \<and> m < E \<and> m \<le> pos + 3"
  by (auto simp: min_child_def Let_def split: if_splits)

lemma min_child_least:
  assumes "min_child h E pos = Some m" and "pos \<le> j" and "j \<le> pos + 3" and "j < E"
  shows "anhe_at (h m) \<le> anhe_at (h j)"
proof -
  from assms(2,3) have "j = pos \<or> j = pos + 1 \<or> j = pos + 2 \<or> j = pos + 3" by arith
  then show ?thesis
    using assms(1,4) by (elim disjE) (auto simp: min_child_def Let_def split: if_splits)
qed

lemma min_child_None: "min_child h E pos = None \<longleftrightarrow> E \<le> pos"
  by (auto simp: min_child_def Let_def)

function downheap_loop ::
  "('w, 't :: linorder) heap \<times> ('w \<Rightarrow> nat) \<Rightarrow> nat \<Rightarrow> nat \<Rightarrow> ('w, 't) anhe
   \<Rightarrow> ('w, 't) heap \<times> ('w \<Rightarrow> nat)" where
  "downheap_loop st N k he =
     (case min_child (fst st) (N + HEAP0) (4 * (k - HEAP0) + HEAP0 + 1) of
        None \<Rightarrow> heap_place st k he
      | Some m \<Rightarrow>
          if anhe_at he \<le> anhe_at (fst st m) then heap_place st k he
          else downheap_loop (heap_place st k (fst st m)) N m he)"
  by pat_completeness auto
termination
proof (relation "measure (\<lambda>(st, N, k, he). N + HEAP0 - k)")
  fix st :: "('w, 't :: linorder) heap \<times> ('w \<Rightarrow> nat)" and N k m :: nat and he :: "('w, 't) anhe"
  assume "min_child (fst st) (N + HEAP0) (4 * (k - HEAP0) + HEAP0 + 1) = Some m"
  from min_child_range [OF this] have "k < m \<and> m < N + HEAP0" by (auto simp: HEAP0_def)
  then show "((heap_place st k (fst st m), N, m, he), (st, N, k, he))
      \<in> measure (\<lambda>(st, N, k, he). N + HEAP0 - k)" by auto
qed simp

declare downheap_loop.simps [simp del]

definition downheap ::
  "('w, 't :: linorder) heap \<times> ('w \<Rightarrow> nat) \<Rightarrow> nat \<Rightarrow> nat \<Rightarrow> ('w, 't) heap \<times> ('w \<Rightarrow> nat)" where
  "downheap st N k = downheap_loop st N k (fst st k)"

lemma HPARENT_le: "HEAP0 \<le> k \<Longrightarrow> HPARENT k \<le> k"
  by (auto simp: HPARENT_def HEAP0_def)

lemma HPARENT_ge: "HEAP0 \<le> HPARENT k"
  by (simp add: HPARENT_def)

lemma HPARENT_less: "HEAP0 < k \<Longrightarrow> HPARENT k < k"
  by (auto simp: HPARENT_def HEAP0_def)

lemma HPARENT_root [simp]: "HPARENT HEAP0 = HEAP0"
  by (simp add: HPARENT_def)

function upheap_loop ::
  "('w, 't :: linorder) heap \<times> ('w \<Rightarrow> nat) \<Rightarrow> nat \<Rightarrow> ('w, 't) anhe
   \<Rightarrow> ('w, 't) heap \<times> ('w \<Rightarrow> nat)" where
  "upheap_loop st k he =
     (let p = HPARENT k
      in if p = k \<or> anhe_at (fst st p) \<le> anhe_at he then heap_place st k he
         else upheap_loop (heap_place st k (fst st p)) p he)"
  by pat_completeness auto
termination
proof (relation "measure (\<lambda>(st, k, he). if k < HEAP0 then Suc HEAP0 else k)")
  fix st :: "('w, 't :: linorder) heap \<times> ('w \<Rightarrow> nat)" and k p :: nat and he :: "('w, 't) anhe"
  assume "p = HPARENT k" and "\<not> (p = k \<or> anhe_at (fst st p) \<le> anhe_at he)"
  then show "((heap_place st k (fst st p), p, he), (st, k, he))
      \<in> measure (\<lambda>(st, k, he). if k < HEAP0 then Suc HEAP0 else k)"
    using HPARENT_less [of k] HPARENT_ge [of k]
    by (cases "k < HEAP0"; cases "k = HEAP0") (auto simp: HPARENT_def HEAP0_def)
qed simp

declare upheap_loop.simps [simp del]

definition upheap ::
  "('w, 't :: linorder) heap \<times> ('w \<Rightarrow> nat) \<Rightarrow> nat \<Rightarrow> ('w, 't) heap \<times> ('w \<Rightarrow> nat)" where
  "upheap st k = upheap_loop st k (fst st k)"

definition adjustheap ::
  "('w, 't :: linorder) heap \<times> ('w \<Rightarrow> nat) \<Rightarrow> nat \<Rightarrow> nat \<Rightarrow> ('w, 't) heap \<times> ('w \<Rightarrow> nat)" where
  "adjustheap st N k =
     (if k > HEAP0 \<and> anhe_at (fst st k) \<le> anhe_at (fst st (HPARENT k)) then upheap st k
      else downheap st N k)"

fun reheap_loop ::
  "('w, 't :: linorder) heap \<times> ('w \<Rightarrow> nat) \<Rightarrow> nat \<Rightarrow> nat \<Rightarrow> ('w, 't) heap \<times> ('w \<Rightarrow> nat)" where
  "reheap_loop st i 0 = st"
| "reheap_loop st i (Suc n) = reheap_loop (upheap st (i + HEAP0)) (Suc i) n"

definition reheap ::
  "('w, 't :: linorder) heap \<times> ('w \<Rightarrow> nat) \<Rightarrow> nat \<Rightarrow> ('w, 't) heap \<times> ('w \<Rightarrow> nat)" where
  "reheap st N = reheap_loop st 0 N"

section \<open>Order, indices and contents\<close>

definition heap_ordered :: "('w, 't :: linorder) heap \<Rightarrow> nat \<Rightarrow> bool" where
  "heap_ordered h N \<longleftrightarrow>
     (\<forall>i\<in>{HEAP0..<N + HEAP0}. i = HEAP0 \<or> anhe_at (h (HPARENT i)) \<le> anhe_at (h i))"

definition heap_indexed :: "('w, 't) heap \<Rightarrow> ('w \<Rightarrow> nat) \<Rightarrow> nat \<Rightarrow> bool" where
  "heap_indexed h act N \<longleftrightarrow> (\<forall>i\<in>{HEAP0..<N + HEAP0}. act (anhe_w (h i)) = i)"

definition heap_entries :: "('w, 't) heap \<Rightarrow> nat \<Rightarrow> ('w, 't) anhe multiset" where
  "heap_entries h N = mset (map h [HEAP0..<N + HEAP0])"

text \<open>In order except that the entry at \<open>k\<close> may be too small for its place.\<close>

definition ordered_up :: "('w, 't :: linorder) heap \<Rightarrow> nat \<Rightarrow> nat \<Rightarrow> bool" where
  "ordered_up h N k \<longleftrightarrow>
     (\<forall>i. HEAP0 < i \<and> i < N + HEAP0 \<longrightarrow>
        (i \<noteq> k \<longrightarrow> anhe_at (h (HPARENT i)) \<le> anhe_at (h i)) \<and>
        (HPARENT i = k \<and> k \<noteq> HEAP0 \<longrightarrow> anhe_at (h (HPARENT k)) \<le> anhe_at (h i)))"

text \<open>In order except that the entry at \<open>k\<close> may be too large for its place.\<close>

definition ordered_down :: "('w, 't :: linorder) heap \<Rightarrow> nat \<Rightarrow> nat \<Rightarrow> bool" where
  "ordered_down h N k \<longleftrightarrow>
     (\<forall>i. HEAP0 < i \<and> i < N + HEAP0 \<longrightarrow>
        (HPARENT i \<noteq> k \<longrightarrow> anhe_at (h (HPARENT i)) \<le> anhe_at (h i)) \<and>
        (HPARENT i = k \<and> k \<noteq> HEAP0 \<longrightarrow> anhe_at (h (HPARENT k)) \<le> anhe_at (h i)))"

text \<open>Every index but \<open>k\<close> is right, and the entry to be placed is not in the array.\<close>

definition indexed_except ::
  "('w, 't) heap \<Rightarrow> ('w \<Rightarrow> nat) \<Rightarrow> nat \<Rightarrow> nat \<Rightarrow> ('w, 't) anhe \<Rightarrow> bool" where
  "indexed_except h act N k he \<longleftrightarrow>
     (\<forall>i\<in>{HEAP0..<N + HEAP0}. i \<noteq> k \<longrightarrow> act (anhe_w (h i)) = i \<and> anhe_w (h i) \<noteq> anhe_w he)"

lemma heap_ordered_iff:
  "heap_ordered h N \<longleftrightarrow>
     (\<forall>i. HEAP0 < i \<and> i < N + HEAP0 \<longrightarrow> anhe_at (h (HPARENT i)) \<le> anhe_at (h i))"
  unfolding heap_ordered_def
  by (metis atLeastLessThan_iff le_neq_implies_less less_imp_le_nat less_irrefl_nat)

lemma child_range:
  "HEAP0 < i \<Longrightarrow> HPARENT i = k \<longleftrightarrow>
     HEAP0 \<le> k \<and> 4 * (k - HEAP0) + HEAP0 + 1 \<le> i \<and> i \<le> 4 * (k - HEAP0) + HEAP0 + 1 + 3"
  by (auto simp: HPARENT_def HEAP0_def)

lemma map_upt_upd:
  "l \<le> a \<Longrightarrow> a < u \<Longrightarrow> map (h(a := x)) [l..<u] = (map h [l..<u])[a - l := x]"
  by (rule nth_equalityI) (auto simp: nth_list_update)

lemma heap_entries_swap:
  assumes "a \<in> {HEAP0..<N + HEAP0}" and "b \<in> {HEAP0..<N + HEAP0}"
  shows "heap_entries (h(a := h b, b := h a)) N = heap_entries h N"
proof -
  let ?xs = "map h [HEAP0..<N + HEAP0]"
  have "map (h(a := h b, b := h a)) [HEAP0..<N + HEAP0]
      = ?xs[a - HEAP0 := ?xs ! (b - HEAP0), b - HEAP0 := ?xs ! (a - HEAP0)]"
    using assms by (auto simp: map_upt_upd)
  also have "mset \<dots> = mset ?xs" using assms by (intro mset_swap) auto
  finally show ?thesis by (simp add: heap_entries_def)
qed

lemma heap_entries_size [simp]: "size (heap_entries h N) = N"
  by (simp add: heap_entries_def)

lemma heap_ordered_root:
  assumes "heap_ordered h N" and "i \<in> {HEAP0..<N + HEAP0}"
  shows "anhe_at (h HEAP0) \<le> anhe_at (h i)"
  using assms(2)
proof (induction i rule: less_induct)
  case (less i)
  show ?case
  proof (cases "i = HEAP0")
    case False
    then have i: "HEAP0 < i" "i < N + HEAP0" using less.prems by auto
    then have "HPARENT i \<in> {HEAP0..<N + HEAP0}"
      using HPARENT_less [of i] HPARENT_ge [of i] by auto
    with less.IH [of "HPARENT i"] HPARENT_less [of i] i
    have "anhe_at (h HEAP0) \<le> anhe_at (h (HPARENT i))" by auto
    also have "\<dots> \<le> anhe_at (h i)" using assms(1) i by (simp add: heap_ordered_iff)
    finally show ?thesis .
  qed simp
qed

lemma heap_indexed_inj:
  assumes "heap_indexed h act N" and "i \<in> {HEAP0..<N + HEAP0}" and "j \<in> {HEAP0..<N + HEAP0}"
    and "anhe_w (h i) = anhe_w (h j)"
  shows "i = j"
  using assms by (metis heap_indexed_def)

section \<open>The loops restore the heap\<close>

lemma place_simps [simp]:
  "fst (heap_place st k he) = (fst st)(k := he)"
  "snd (heap_place st k he) = (snd st)(anhe_w he := k)"
  by (simp_all add: heap_place_def)

lemma indexed_place:
  assumes "indexed_except h act N k he"
  shows "heap_indexed (h(k := he)) (act(anhe_w he := k)) N"
  using assms by (auto simp: indexed_except_def heap_indexed_def)

lemma indexed_move:
  assumes "indexed_except h act N k he" and "k \<in> {HEAP0..<N + HEAP0}" and "m \<in> {HEAP0..<N + HEAP0}"
    and "m \<noteq> k"
  shows "indexed_except (h(k := h m)) (act(anhe_w (h m) := k)) N m he"
  unfolding indexed_except_def
proof (intro ballI impI)
  fix i assume i: "i \<in> {HEAP0..<N + HEAP0}" "i \<noteq> m"
  have m: "act (anhe_w (h m)) = m" "anhe_w (h m) \<noteq> anhe_w he"
    using assms by (auto simp: indexed_except_def)
  show "(act(anhe_w (h m) := k)) (anhe_w ((h(k := h m)) i)) = i \<and> anhe_w ((h(k := h m)) i) \<noteq> anhe_w he"
  proof (cases "i = k")
    case False
    then have "act (anhe_w (h i)) = i \<and> anhe_w (h i) \<noteq> anhe_w he"
      using assms(1) i by (simp add: indexed_except_def)
    with m i False show ?thesis by auto
  qed (use m in simp)
qed

lemma ordered_up_move:
  assumes inv: "ordered_up (h(k := he)) N k" and k: "HEAP0 < k" "k < N + HEAP0"
    and lt: "anhe_at he < anhe_at (h (HPARENT k))"
  shows "ordered_up (h(k := h (HPARENT k), HPARENT k := he)) N (HPARENT k)"
  unfolding ordered_up_def
proof (intro allI impI)
  let ?p = "HPARENT k" and ?H = "h(k := he)" and ?G = "h(k := h (HPARENT k), HPARENT k := he)"
  fix i assume i: "HEAP0 < i \<and> i < N + HEAP0"
  have pk: "?p < k" using k(1) by (rule HPARENT_less)
  have ord: "HEAP0 < j \<Longrightarrow> j < N + HEAP0 \<Longrightarrow> j \<noteq> k \<Longrightarrow> anhe_at (?H (HPARENT j)) \<le> anhe_at (?H j)" for j
    using inv unfolding ordered_up_def by blast
  have kid: "HPARENT i = k \<Longrightarrow> anhe_at (h ?p) \<le> anhe_at (?H i)"
    using inv i k pk unfolding ordered_up_def by fastforce
  have up: "?p \<noteq> HEAP0 \<Longrightarrow> anhe_at (h (HPARENT ?p)) \<le> anhe_at (h ?p)"
    using ord [of ?p] HPARENT_ge [of k] HPARENT_less [of ?p] pk k(2) by fastforce
  have sib: "HPARENT i = ?p \<Longrightarrow> i \<noteq> k \<Longrightarrow> anhe_at (h ?p) \<le> anhe_at (h i)"
    using ord [of i] i pk by auto
  have pi: "HPARENT i < i" using i HPARENT_less by blast
  show "(i \<noteq> ?p \<longrightarrow> anhe_at (?G (HPARENT i)) \<le> anhe_at (?G i)) \<and>
    (HPARENT i = ?p \<and> ?p \<noteq> HEAP0 \<longrightarrow> anhe_at (?G (HPARENT ?p)) \<le> anhe_at (?G i))"
  proof (intro conjI impI)
    assume "i \<noteq> ?p"
    then show "anhe_at (?G (HPARENT i)) \<le> anhe_at (?G i)"
      using lt kid sib ord [of i] i pk pi by (auto simp: not_le dest: less_imp_le order.trans)
  next
    assume c: "HPARENT i = ?p \<and> ?p \<noteq> HEAP0"
    then have "HPARENT ?p < ?p" using HPARENT_less [of ?p] HPARENT_ge [of k] by auto
    then show "anhe_at (?G (HPARENT ?p)) \<le> anhe_at (?G i)"
      using c up sib pk pi by (auto intro: order.trans)
  qed
qed

lemma ordered_up_done:
  assumes "ordered_up (h(k := he)) N k" and "k = HEAP0 \<or> HEAP0 < k \<and> anhe_at (h (HPARENT k)) \<le> anhe_at he"
  shows "heap_ordered (h(k := he)) N"
  unfolding heap_ordered_iff
proof (intro allI impI)
  fix i assume i: "HEAP0 < i \<and> i < N + HEAP0"
  show "anhe_at ((h(k := he)) (HPARENT i)) \<le> anhe_at ((h(k := he)) i)"
  proof (cases "i = k")
    case True
    with assms(2) i HPARENT_less [of k] show ?thesis by auto
  next
    case False
    with assms(1) i show ?thesis unfolding ordered_up_def by blast
  qed
qed

lemma ordered_down_move:
  assumes inv: "ordered_down (h(k := he)) N k" and k: "HEAP0 \<le> k"
    and m: "min_child h (N + HEAP0) (4 * (k - HEAP0) + HEAP0 + 1) = Some m"
    and lt: "anhe_at (h m) < anhe_at he"
  shows "ordered_down (h(k := h m, m := he)) N m"
  unfolding ordered_down_def
proof (intro allI impI)
  let ?H = "h(k := he)" and ?G = "h(k := h m, m := he)"
  fix i assume i: "HEAP0 < i \<and> i < N + HEAP0"
  from min_child_range [OF m] k have km: "k < m" "HEAP0 < m" "m < N + HEAP0" by (auto simp: HEAP0_def)
  have par: "HPARENT m = k" using min_child_range [OF m] km k by (auto simp: child_range)
  have least: "HPARENT i = k \<Longrightarrow> anhe_at (h m) \<le> anhe_at (h i)"
    using min_child_least [OF m, of i] i child_range [of i k] by auto
  have ord: "HPARENT i \<noteq> k \<Longrightarrow> anhe_at (?H (HPARENT i)) \<le> anhe_at (?H i)"
    using inv i unfolding ordered_down_def by blast
  have top: "k \<noteq> HEAP0 \<Longrightarrow> anhe_at (?H (HPARENT k)) \<le> anhe_at (h m)"
    using inv km par unfolding ordered_down_def by fastforce
  have pi: "HPARENT i < i" and pk: "k \<noteq> HEAP0 \<Longrightarrow> HPARENT k < k"
    using i k HPARENT_less by (auto simp: le_less)
  show "(HPARENT i \<noteq> m \<longrightarrow> anhe_at (?G (HPARENT i)) \<le> anhe_at (?G i)) \<and>
    (HPARENT i = m \<and> m \<noteq> HEAP0 \<longrightarrow> anhe_at (?G (HPARENT m)) \<le> anhe_at (?G i))"
  proof (intro conjI impI)
    assume n: "HPARENT i \<noteq> m"
    show "anhe_at (?G (HPARENT i)) \<le> anhe_at (?G i)"
    proof (cases "HPARENT i = k")
      case True
      then show ?thesis using least lt pi km by auto
    next
      case False
      then show ?thesis using n ord top pk i km par by (cases "i = k") auto
    qed
  next
    assume c: "HPARENT i = m \<and> m \<noteq> HEAP0"
    then show "anhe_at (?G (HPARENT m)) \<le> anhe_at (?G i)"
      using ord par km pi by auto
  qed
qed

lemma ordered_down_done:
  assumes inv: "ordered_down (h(k := he)) N k" and k: "HEAP0 \<le> k"
    and m: "case min_child h (N + HEAP0) (4 * (k - HEAP0) + HEAP0 + 1) of
       None \<Rightarrow> True | Some m \<Rightarrow> anhe_at he \<le> anhe_at (h m)"
  shows "heap_ordered (h(k := he)) N"
  unfolding heap_ordered_iff
proof (intro allI impI)
  fix i assume i: "HEAP0 < i \<and> i < N + HEAP0"
  have pi: "HPARENT i < i" using i HPARENT_less by blast
  show "anhe_at ((h(k := he)) (HPARENT i)) \<le> anhe_at ((h(k := he)) i)"
  proof (cases "HPARENT i = k")
    case True
    then have r: "4 * (k - HEAP0) + HEAP0 + 1 \<le> i" "i \<le> 4 * (k - HEAP0) + HEAP0 + 1 + 3"
      using i child_range [of i k] by auto
    show ?thesis
    proof (cases "min_child h (N + HEAP0) (4 * (k - HEAP0) + HEAP0 + 1)")
      case None
      then show ?thesis using min_child_None [of h] r i by fastforce
    next
      case (Some m')
      then have "anhe_at he \<le> anhe_at (h i)"
        using min_child_least [OF Some r] i m by auto
      then show ?thesis using True pi by auto
    qed
  next
    case False
    with inv i show ?thesis unfolding ordered_down_def by blast
  qed
qed

lemma upheap_loop_ordered:
  assumes "k \<in> {HEAP0..<N + HEAP0}" and "ordered_up ((fst st)(k := he)) N k"
  shows "heap_ordered (fst (upheap_loop st k he)) N"
  using assms
proof (induction st k he rule: upheap_loop.induct)
  case (1 st k he)
  show ?case
  proof (cases "HPARENT k = k \<or> anhe_at (fst st (HPARENT k)) \<le> anhe_at he")
    case True
    then have "k = HEAP0 \<or> HEAP0 < k \<and> anhe_at (fst st (HPARENT k)) \<le> anhe_at he"
      using "1.prems"(1) HPARENT_less [of k] by fastforce
    with True "1.prems" show ?thesis
      by (subst upheap_loop.simps) (simp add: ordered_up_done Let_def del: fun_upd_apply)
  next
    case False
    then have k: "HEAP0 < k" using "1.prems"(1) by (cases "k = HEAP0") auto
    from False "1.prems" k have "ordered_up ((fst st)(k := fst st (HPARENT k), HPARENT k := he)) N (HPARENT k)"
      by (intro ordered_up_move) (auto simp del: fun_upd_apply)
    moreover have "HPARENT k \<in> {HEAP0..<N + HEAP0}"
      using "1.prems"(1) HPARENT_le [of k] HPARENT_ge [of k] by auto
    ultimately show ?thesis using False "1.IH" [OF refl] by (subst upheap_loop.simps) (simp add: Let_def del: fun_upd_apply)
  qed
qed

lemma upheap_loop_indexed:
  assumes "k \<in> {HEAP0..<N + HEAP0}" and "indexed_except (fst st) (snd st) N k he"
  shows "heap_indexed (fst (upheap_loop st k he)) (snd (upheap_loop st k he)) N"
  using assms
proof (induction st k he rule: upheap_loop.induct)
  case (1 st k he)
  show ?case
  proof (cases "HPARENT k = k \<or> anhe_at (fst st (HPARENT k)) \<le> anhe_at he")
    case True
    with "1.prems" show ?thesis by (subst (1 2) upheap_loop.simps) (simp add: indexed_place Let_def del: fun_upd_apply)
  next
    case False
    have p: "HPARENT k \<in> {HEAP0..<N + HEAP0}"
      using "1.prems"(1) HPARENT_le [of k] HPARENT_ge [of k] by auto
    with False "1.prems" have "indexed_except ((fst st)(k := fst st (HPARENT k)))
        ((snd st)(anhe_w (fst st (HPARENT k)) := k)) N (HPARENT k) he"
      by (intro indexed_move) (auto simp del: fun_upd_apply)
    with False p "1.IH" [OF refl] show ?thesis by (subst (1 2) upheap_loop.simps) (simp add: Let_def del: fun_upd_apply)
  qed
qed

lemma upheap_loop_entries:
  assumes "k \<in> {HEAP0..<N + HEAP0}"
  shows "heap_entries (fst (upheap_loop st k he)) N = heap_entries ((fst st)(k := he)) N"
  using assms
proof (induction st k he rule: upheap_loop.induct)
  case (1 st k he)
  show ?case
  proof (cases "HPARENT k = k \<or> anhe_at (fst st (HPARENT k)) \<le> anhe_at he")
    case True
    then show ?thesis by (subst upheap_loop.simps) (simp add: Let_def del: fun_upd_apply)
  next
    case False
    have p: "HPARENT k \<in> {HEAP0..<N + HEAP0}"
      using "1.prems"(1) HPARENT_le [of k] HPARENT_ge [of k] by auto
    have "heap_entries ((fst st)(k := fst st (HPARENT k), HPARENT k := he)) N
        = heap_entries ((fst st)(k := he)) N"
      using heap_entries_swap [OF "1.prems" p, of "(fst st)(k := he)"] False
      by (simp add: fun_upd_twist)
    with False p "1.IH" [OF refl] show ?thesis by (subst upheap_loop.simps) (simp add: Let_def del: fun_upd_apply)
  qed
qed

lemma downheap_step_range:
  assumes "k \<in> {HEAP0..<N + HEAP0}"
    and "min_child h (N + HEAP0) (4 * (k - HEAP0) + HEAP0 + 1) = Some m"
  shows "m \<in> {HEAP0..<N + HEAP0}" and "m \<noteq> k"
  using min_child_range [OF assms(2)] assms(1) by (auto simp: HEAP0_def)

lemma downheap_loop_ordered:
  assumes "k \<in> {HEAP0..<N + HEAP0}" and "ordered_down ((fst st)(k := he)) N k"
  shows "heap_ordered (fst (downheap_loop st N k he)) N"
  using assms
proof (induction st N k he rule: downheap_loop.induct)
  case (1 st N k he)
  let ?c = "min_child (fst st) (N + HEAP0) (4 * (k - HEAP0) + HEAP0 + 1)"
  show ?case
  proof (cases "case ?c of None \<Rightarrow> True | Some m \<Rightarrow> anhe_at he \<le> anhe_at (fst st m)")
    case True
    have "heap_ordered ((fst st)(k := he)) N"
      by (rule ordered_down_done) (use True "1.prems" in \<open>auto simp del: fun_upd_apply\<close>)
    with True show ?thesis by (subst downheap_loop.simps) (auto simp del: fun_upd_apply split: option.splits)
  next
    case False
    then obtain m where m: "?c = Some m" "\<not> anhe_at he \<le> anhe_at (fst st m)"
      by (auto split: option.splits)
    have "ordered_down ((fst st)(k := fst st m, m := he)) N m"
      by (rule ordered_down_move) (use m "1.prems" in \<open>auto simp del: fun_upd_apply\<close>)
    with m "1.IH" [OF m] downheap_step_range [OF "1.prems"(1) m(1)] show ?thesis
      by (subst downheap_loop.simps) (simp del: fun_upd_apply)
  qed
qed

lemma downheap_loop_indexed:
  assumes "k \<in> {HEAP0..<N + HEAP0}" and "indexed_except (fst st) (snd st) N k he"
  shows "heap_indexed (fst (downheap_loop st N k he)) (snd (downheap_loop st N k he)) N"
  using assms
proof (induction st N k he rule: downheap_loop.induct)
  case (1 st N k he)
  let ?c = "min_child (fst st) (N + HEAP0) (4 * (k - HEAP0) + HEAP0 + 1)"
  show ?case
  proof (cases "case ?c of None \<Rightarrow> True | Some m \<Rightarrow> anhe_at he \<le> anhe_at (fst st m)")
    case True
    with "1.prems" show ?thesis
      by (subst (1 2) downheap_loop.simps) (auto simp: indexed_place simp del: fun_upd_apply split: option.splits)
  next
    case False
    then obtain m where m: "?c = Some m" "\<not> anhe_at he \<le> anhe_at (fst st m)"
      by (auto split: option.splits)
    note r = downheap_step_range [OF "1.prems"(1) m(1)]
    have "indexed_except ((fst st)(k := fst st m)) ((snd st)(anhe_w (fst st m) := k)) N m he"
      using "1.prems" r by (intro indexed_move) (auto simp del: fun_upd_apply)
    with m r "1.IH" [OF m] show ?thesis by (subst (1 2) downheap_loop.simps) (simp del: fun_upd_apply)
  qed
qed

lemma downheap_loop_entries:
  assumes "k \<in> {HEAP0..<N + HEAP0}"
  shows "heap_entries (fst (downheap_loop st N k he)) N = heap_entries ((fst st)(k := he)) N"
  using assms
proof (induction st N k he rule: downheap_loop.induct)
  case (1 st N k he)
  let ?c = "min_child (fst st) (N + HEAP0) (4 * (k - HEAP0) + HEAP0 + 1)"
  show ?case
  proof (cases "case ?c of None \<Rightarrow> True | Some m \<Rightarrow> anhe_at he \<le> anhe_at (fst st m)")
    case True
    then show ?thesis by (subst downheap_loop.simps) (auto simp del: fun_upd_apply split: option.splits)
  next
    case False
    then obtain m where m: "?c = Some m" "\<not> anhe_at he \<le> anhe_at (fst st m)"
      by (auto split: option.splits)
    note r = downheap_step_range [OF "1.prems"(1) m(1)]
    have "heap_entries ((fst st)(k := fst st m, m := he)) N = heap_entries ((fst st)(k := he)) N"
      using heap_entries_swap [OF "1.prems" r(1), of "(fst st)(k := he)"] r(2)
      by (simp add: fun_upd_twist)
    with m r "1.IH" [OF m] show ?thesis by (subst downheap_loop.simps) (simp del: fun_upd_apply)
  qed
qed

text \<open>The index of a watcher that is not in the array is left alone.\<close>

lemma upheap_loop_frame:
  assumes "k \<in> {HEAP0..<N + HEAP0}" and "w \<noteq> anhe_w he"
    and "\<forall>i\<in>{HEAP0..<N + HEAP0}. i \<noteq> k \<longrightarrow> anhe_w (fst st i) \<noteq> w"
  shows "snd (upheap_loop st k he) w = snd st w"
  using assms
proof (induction st k he rule: upheap_loop.induct)
  case (1 st k he)
  show ?case
  proof (cases "HPARENT k = k \<or> anhe_at (fst st (HPARENT k)) \<le> anhe_at he")
    case True
    with "1.prems" show ?thesis by (subst upheap_loop.simps) (simp add: Let_def)
  next
    case False
    have p: "HPARENT k \<in> {HEAP0..<N + HEAP0}"
      using "1.prems"(1) HPARENT_le [of k] HPARENT_ge [of k] by auto
    with False "1.prems" have "anhe_w (fst st (HPARENT k)) \<noteq> w" by auto
    with False p "1.prems" "1.IH" [OF refl] show ?thesis by (subst upheap_loop.simps) (simp add: Let_def)
  qed
qed

lemma downheap_loop_frame:
  assumes "k \<in> {HEAP0..<N + HEAP0}" and "w \<noteq> anhe_w he"
    and "\<forall>i\<in>{HEAP0..<N + HEAP0}. i \<noteq> k \<longrightarrow> anhe_w (fst st i) \<noteq> w"
  shows "snd (downheap_loop st N k he) w = snd st w"
  using assms
proof (induction st N k he rule: downheap_loop.induct)
  case (1 st N k he)
  let ?c = "min_child (fst st) (N + HEAP0) (4 * (k - HEAP0) + HEAP0 + 1)"
  show ?case
  proof (cases "case ?c of None \<Rightarrow> True | Some m \<Rightarrow> anhe_at he \<le> anhe_at (fst st m)")
    case True
    with "1.prems" show ?thesis by (subst downheap_loop.simps) (auto split: option.splits)
  next
    case False
    then obtain m where m: "?c = Some m" "\<not> anhe_at he \<le> anhe_at (fst st m)"
      by (auto split: option.splits)
    note r = downheap_step_range [OF "1.prems"(1) m(1)]
    with "1.prems" have "anhe_w (fst st m) \<noteq> w" by auto
    with m r "1.prems" "1.IH" [OF m] show ?thesis by (subst downheap_loop.simps) simp
  qed
qed

section \<open>Inserting and deleting\<close>

definition heap_ok :: "('w, 't :: linorder) heap \<Rightarrow> ('w \<Rightarrow> nat) \<Rightarrow> nat \<Rightarrow> bool" where
  "heap_ok h act N \<longleftrightarrow> heap_ordered h N \<and> heap_indexed h act N"

definition heap_watchers :: "('w, 't) heap \<Rightarrow> nat \<Rightarrow> 'w set" where
  "heap_watchers h N = (\<lambda>i. anhe_w (h i)) ` {HEAP0..<N + HEAP0}"

lemma heap_watchers_entries: "heap_watchers h N = anhe_w ` set_mset (heap_entries h N)"
  by (auto simp: heap_watchers_def heap_entries_def)

lemma heap_entries_Suc:
  "heap_entries (h(N + HEAP0 := e)) (Suc N) = add_mset e (heap_entries h N)"
proof -
  have "[HEAP0..<Suc N + HEAP0] = [HEAP0..<N + HEAP0] @ [N + HEAP0]" by simp
  moreover have "map (h(N + HEAP0 := e)) [HEAP0..<N + HEAP0] = map h [HEAP0..<N + HEAP0]" by auto
  ultimately show ?thesis by (simp add: heap_entries_def)
qed

lemma heap_entries_index:
  "i \<in> {HEAP0..<N + HEAP0} \<Longrightarrow> h i \<in># heap_entries h N"
  by (simp add: heap_entries_def)

lemma upheap_insert:
  assumes ok: "heap_ok h act N" and new: "w \<notin> heap_watchers h N"
    and up: "upheap (h(N + HEAP0 := ANHE w t), act) (N + HEAP0) = (h', act')"
  shows "heap_ok h' act' (Suc N)" and "heap_entries h' (Suc N) = add_mset (ANHE w t) (heap_entries h N)"
    and "\<And>v. v \<notin> heap_watchers h N \<Longrightarrow> v \<noteq> w \<Longrightarrow> act' v = act v"
proof -
  let ?k = "N + HEAP0" and ?g = "h(N + HEAP0 := ANHE w t)"
  have k: "?k \<in> {HEAP0..<Suc N + HEAP0}" by simp
  have r: "h' = fst (upheap_loop (?g, act) ?k (ANHE w t))" "act' = snd (upheap_loop (?g, act) ?k (ANHE w t))"
    using up by (simp_all add: upheap_def)
  have "ordered_up (?g(?k := ANHE w t)) (Suc N) ?k"
    unfolding ordered_up_def
  proof (intro allI impI)
    fix i assume i: "HEAP0 < i \<and> i < Suc N + HEAP0"
    then have "HPARENT i < i" using HPARENT_less by blast
    then show "(i \<noteq> ?k \<longrightarrow> anhe_at ((?g(?k := ANHE w t)) (HPARENT i)) \<le> anhe_at ((?g(?k := ANHE w t)) i)) \<and>
      (HPARENT i = ?k \<and> ?k \<noteq> HEAP0 \<longrightarrow>
        anhe_at ((?g(?k := ANHE w t)) (HPARENT ?k)) \<le> anhe_at ((?g(?k := ANHE w t)) i))"
      using i ok by (auto simp: heap_ok_def heap_ordered_iff)
  qed
  then have o': "heap_ordered h' (Suc N)" using upheap_loop_ordered [OF k, of "(?g, act)"] r by simp
  have "indexed_except ?g act (Suc N) ?k (ANHE w t)"
    using ok new by (auto simp: indexed_except_def heap_ok_def heap_indexed_def heap_watchers_def)
  then have "heap_indexed h' act' (Suc N)" using upheap_loop_indexed [OF k, of "(?g, act)"] r by simp
  with o' show "heap_ok h' act' (Suc N)" by (simp add: heap_ok_def)
  show "heap_entries h' (Suc N) = add_mset (ANHE w t) (heap_entries h N)"
    using upheap_loop_entries [OF k, of "(?g, act)"] r heap_entries_Suc [of h N "ANHE w t"] by simp
  fix v assume v: "v \<notin> heap_watchers h N" "v \<noteq> w"
  then have "\<forall>i\<in>{HEAP0..<Suc N + HEAP0}. i \<noteq> ?k \<longrightarrow> anhe_w (fst (?g, act) i) \<noteq> v"
    by (auto simp: heap_watchers_def less_Suc_eq)
  then show "act' v = act v"
    using upheap_loop_frame [OF k, of v "ANHE w t" "(?g, act)"] r v by simp
qed

text \<open>Replacing the entry at \<open>k\<close> of a heap by another leaves it repairable in one direction.\<close>

lemma ordered_replace:
  assumes ok: "heap_ordered h N" and k: "k \<in> {HEAP0..<N + HEAP0}"
  shows "k > HEAP0 \<Longrightarrow> anhe_at he \<le> anhe_at (h (HPARENT k)) \<Longrightarrow> ordered_up (h(k := he)) N k"
    and "k = HEAP0 \<or> anhe_at (h (HPARENT k)) \<le> anhe_at he \<Longrightarrow> ordered_down (h(k := he)) N k"
proof -
  have o: "HEAP0 < i \<Longrightarrow> i < N + HEAP0 \<Longrightarrow> anhe_at (h (HPARENT i)) \<le> anhe_at (h i)" for i
    using ok by (simp add: heap_ordered_iff)
  have pk: "HEAP0 < k \<Longrightarrow> HPARENT k < k" by (rule HPARENT_less)
  have grand: "HEAP0 < i \<Longrightarrow> i < N + HEAP0 \<Longrightarrow> HPARENT i = k \<Longrightarrow> k > HEAP0 \<Longrightarrow>
      anhe_at (h (HPARENT k)) \<le> anhe_at (h i)" for i
    using o [of i] o [of k] k by auto
  show "k > HEAP0 \<Longrightarrow> anhe_at he \<le> anhe_at (h (HPARENT k)) \<Longrightarrow> ordered_up (h(k := he)) N k"
    unfolding ordered_up_def
  proof (intro allI impI conjI)
    fix i assume a: "k > HEAP0" "anhe_at he \<le> anhe_at (h (HPARENT k))" and i: "HEAP0 < i \<and> i < N + HEAP0"
    {
      assume "i \<noteq> k"
      then show "anhe_at ((h(k := he)) (HPARENT i)) \<le> anhe_at ((h(k := he)) i)"
        using o [of i] grand [of i] a i by (auto intro: order.trans)
    }
    assume "HPARENT i = k \<and> k \<noteq> HEAP0"
    then show "anhe_at ((h(k := he)) (HPARENT k)) \<le> anhe_at ((h(k := he)) i)"
      using grand [of i] a i pk HPARENT_less [of i] by auto
  qed
  show "k = HEAP0 \<or> anhe_at (h (HPARENT k)) \<le> anhe_at he \<Longrightarrow> ordered_down (h(k := he)) N k"
    unfolding ordered_down_def
  proof (intro allI impI conjI)
    fix i assume a: "k = HEAP0 \<or> anhe_at (h (HPARENT k)) \<le> anhe_at he" and i: "HEAP0 < i \<and> i < N + HEAP0"
    {
      assume "HPARENT i \<noteq> k"
      then show "anhe_at ((h(k := he)) (HPARENT i)) \<le> anhe_at ((h(k := he)) i)"
        using o [of i] a i by auto
    }
    assume "HPARENT i = k \<and> k \<noteq> HEAP0"
    then show "anhe_at ((h(k := he)) (HPARENT k)) \<le> anhe_at ((h(k := he)) i)"
      using grand [of i] k i pk HPARENT_less [of i] by auto
  qed
qed

lemma adjustheap_replace:
  assumes ord: "heap_ordered h N" and k: "k \<in> {HEAP0..<N + HEAP0}"
    and idx: "indexed_except h act N k he"
    and adj: "adjustheap (h(k := he), act) N k = (h', act')"
  shows "heap_ok h' act' N" and "heap_entries h' N = heap_entries (h(k := he)) N"
    and "\<And>v. v \<noteq> anhe_w he \<Longrightarrow> \<forall>i\<in>{HEAP0..<N + HEAP0}. i \<noteq> k \<longrightarrow> anhe_w (h i) \<noteq> v \<Longrightarrow> act' v = act v"
proof -
  let ?st = "(h(k := he), act)"
  have idx': "indexed_except (fst ?st) (snd ?st) N k he" using idx by (auto simp: indexed_except_def)
  show "heap_ok h' act' N" and "heap_entries h' N = heap_entries (h(k := he)) N"
    and "\<And>v. v \<noteq> anhe_w he \<Longrightarrow> \<forall>i\<in>{HEAP0..<N + HEAP0}. i \<noteq> k \<longrightarrow> anhe_w (h i) \<noteq> v \<Longrightarrow> act' v = act v"
  proof -
    show "heap_ok h' act' N"
    proof (cases "k > HEAP0 \<and> anhe_at he \<le> anhe_at (h (HPARENT k))")
      case True
      then have "HPARENT k \<noteq> k" using HPARENT_less [of k] by simp
      with True adj have r: "(h', act') = upheap_loop ?st k he" by (simp add: adjustheap_def upheap_def)
      have "heap_ordered (fst (upheap_loop ?st k he)) N"
        using upheap_loop_ordered [OF k, of ?st he] ordered_replace(1) [OF ord k, of he] True by simp
      with r upheap_loop_indexed [OF k idx'] show ?thesis by (metis heap_ok_def fst_conv snd_conv)
    next
      case False
      then have c: "k = HEAP0 \<or> anhe_at (h (HPARENT k)) \<le> anhe_at he" using k by auto
      have "k > HEAP0 \<Longrightarrow> HPARENT k \<noteq> k" using HPARENT_less [of k] by simp
      with False adj have r: "(h', act') = downheap_loop ?st N k he"
        by (auto simp: adjustheap_def downheap_def split: if_splits)
      have "heap_ordered (fst (downheap_loop ?st N k he)) N"
        using downheap_loop_ordered [OF k, of ?st he] ordered_replace(2) [OF ord k c] by simp
      with r downheap_loop_indexed [OF k idx'] show ?thesis by (metis heap_ok_def fst_conv snd_conv)
    qed
    have r: "(h', act') = upheap_loop ?st k he \<or> (h', act') = downheap_loop ?st N k he"
      using adj by (auto simp: adjustheap_def upheap_def downheap_def split: if_splits)
    then show "heap_entries h' N = heap_entries (h(k := he)) N"
      using upheap_loop_entries [OF k, of ?st he] downheap_loop_entries [OF k, of ?st he]
      by (auto simp del: fun_upd_apply dest: arg_cong [where f = fst])
    fix v assume "v \<noteq> anhe_w he" and "\<forall>i\<in>{HEAP0..<N + HEAP0}. i \<noteq> k \<longrightarrow> anhe_w (h i) \<noteq> v"
    then show "act' v = act v"
      using r upheap_loop_frame [OF k, of v he ?st] downheap_loop_frame [OF k, of v he ?st]
      by (auto dest: arg_cong [where f = snd])
  qed
qed

lemma heap_entries_upd:
  assumes "k \<in> {HEAP0..<N + HEAP0}"
  shows "heap_entries (h(k := e)) N = add_mset e (heap_entries h N - {#h k#})"
proof -
  have l: "k - HEAP0 < length (map h [HEAP0..<N + HEAP0])" using assms by auto
  have n: "map h [HEAP0..<N + HEAP0] ! (k - HEAP0) = h k" using assms l by auto
  from mset_update [OF l, of e] assms show ?thesis
    unfolding heap_entries_def n by (simp add: map_upt_upd del: fun_upd_apply)
qed

lemma heap_entries_last: "heap_entries h (Suc N) = add_mset (h (N + HEAP0)) (heap_entries h N)"
  using heap_entries_Suc [of h N "h (N + HEAP0)"] by simp

lemma heap_ok_less: "heap_ok h act N \<Longrightarrow> M \<le> N \<Longrightarrow> heap_ok h act M"
  by (auto simp: heap_ok_def heap_ordered_def heap_indexed_def)

lemma heap_delete:
  assumes ok: "heap_ok h act (Suc N)" and k: "k \<in> {HEAP0..<N + HEAP0}"
    and adj: "adjustheap (h(k := h (N + HEAP0)), act) N k = (h', act')"
  shows "heap_ok h' act' N" and "heap_entries h' N = heap_entries h (Suc N) - {#h k#}"
    and "\<And>v. v \<notin> heap_watchers h (Suc N) - {anhe_w (h k)} \<Longrightarrow> act' v = act v"
proof -
  let ?he = "h (N + HEAP0)"
  have ok': "heap_ordered h N" "heap_indexed h act (Suc N)"
    using ok heap_ok_less [of h act "Suc N" N] by (auto simp: heap_ok_def)
  have last: "N + HEAP0 \<in> {HEAP0..<Suc N + HEAP0}" by simp
  have "indexed_except h act N k ?he"
    unfolding indexed_except_def
  proof (intro ballI impI)
    fix i assume "i \<in> {HEAP0..<N + HEAP0}"
    then have "i \<in> {HEAP0..<Suc N + HEAP0}" "i \<noteq> N + HEAP0" by auto
    with heap_indexed_inj [OF ok'(2) _ last, of i] ok'(2)
    show "act (anhe_w (h i)) = i \<and> anhe_w (h i) \<noteq> anhe_w ?he" by (auto simp: heap_indexed_def)
  qed
  note adjustheap_replace [OF ok'(1) k this adj]
  note a = this
  show "heap_ok h' act' N" by (rule a(1))
  have "h k \<in># heap_entries h N" using k by (rule heap_entries_index)
  then show "heap_entries h' N = heap_entries h (Suc N) - {#h k#}"
    using a(2) heap_entries_upd [OF k, of h ?he] heap_entries_last [of h N] by simp
  fix v assume v: "v \<notin> heap_watchers h (Suc N) - {anhe_w (h k)}"
  have i: "anhe_w (h i) = v \<Longrightarrow> i \<in> {HEAP0..<Suc N + HEAP0} \<Longrightarrow> i = k" for i
    using v heap_indexed_inj [OF ok'(2), of i k] k by (auto simp: heap_watchers_def)
  then have "v \<noteq> anhe_w ?he" using last k by force
  moreover have "\<forall>i\<in>{HEAP0..<N + HEAP0}. i \<noteq> k \<longrightarrow> anhe_w (h i) \<noteq> v"
    using i by fastforce
  ultimately show "act' v = act v" by (rule a(3))
qed

section \<open>Rebuilding\<close>

lemma reheap_loop_ok:
  assumes "heap_ordered (fst st) i" and "heap_indexed (fst st) (snd st) N" and "i + n \<le> N"
  shows "heap_ordered (fst (reheap_loop st i n)) (i + n) \<and>
    heap_indexed (fst (reheap_loop st i n)) (snd (reheap_loop st i n)) N \<and>
    heap_entries (fst (reheap_loop st i n)) N = heap_entries (fst st) N"
  using assms
proof (induction n arbitrary: i st)
  case (Suc n)
  let ?k = "i + HEAP0" and ?st = "upheap st (i + HEAP0)"
  have k: "?k \<in> {HEAP0..<Suc i + HEAP0}" "?k \<in> {HEAP0..<N + HEAP0}" using Suc.prems(3) by auto
  have same: "(fst st)(?k := fst st ?k) = fst st" by simp
  have "ordered_up (fst st) (Suc i) ?k"
    unfolding ordered_up_def
  proof (intro allI impI)
    fix j assume j: "HEAP0 < j \<and> j < Suc i + HEAP0"
    then have "HPARENT j < j" using HPARENT_less by blast
    with j show "(j \<noteq> ?k \<longrightarrow> anhe_at (fst st (HPARENT j)) \<le> anhe_at (fst st j)) \<and>
      (HPARENT j = ?k \<and> ?k \<noteq> HEAP0 \<longrightarrow> anhe_at (fst st (HPARENT ?k)) \<le> anhe_at (fst st j))"
      using Suc.prems(1) by (auto simp: heap_ordered_iff)
  qed
  then have "heap_ordered (fst ?st) (Suc i)"
    using upheap_loop_ordered [OF k(1), of st "fst st ?k"] same by (simp add: upheap_def)
  moreover have "indexed_except (fst st) (snd st) N ?k (fst st ?k)"
    using Suc.prems(2) heap_indexed_inj [OF Suc.prems(2) _ k(2)]
    by (auto simp: indexed_except_def heap_indexed_def)
  then have "heap_indexed (fst ?st) (snd ?st) N"
    using upheap_loop_indexed [OF k(2)] by (simp add: upheap_def)
  moreover have "heap_entries (fst ?st) N = heap_entries (fst st) N"
    using upheap_loop_entries [OF k(2), of st "fst st ?k"] same by (simp add: upheap_def)
  ultimately show ?case using Suc.IH [of ?st "Suc i"] Suc.prems(3) by simp
qed simp

text \<open>
  \<open>reheap\<close> turns an array in any order into a heap of the same entries, with the index of
  every watcher right: the root is then a timer that expires first.
\<close>

theorem reheap_correct:
  assumes "heap_indexed h act N" and "reheap (h, act) N = (h', act')"
  shows "heap_ok h' act' N \<and> heap_entries h' N = heap_entries h N \<and>
    (\<forall>i\<in>{HEAP0..<N + HEAP0}. anhe_at (h' HEAP0) \<le> anhe_at (h' i))"
proof -
  have "heap_ordered h 0" by (simp add: heap_ordered_def)
  then have "heap_ordered h' N" "heap_indexed h' act' N" "heap_entries h' N = heap_entries h N"
    using reheap_loop_ok [of "(h, act)" 0 N N] assms by (auto simp: reheap_def)
  then show ?thesis using heap_ordered_root [of h' N] by (auto simp: heap_ok_def)
qed

definition ex_heap :: "(char, int) heap" where
  "ex_heap = (\<lambda>_. ANHE CHR ''x'' 0)(3 := ANHE CHR ''a'' 9, 4 := ANHE CHR ''b'' 4, 5 := ANHE CHR ''c'' 7)"

definition ex_active :: "char \<Rightarrow> nat" where
  "ex_active = (\<lambda>_. 0)(CHR ''a'' := 3, CHR ''b'' := 4, CHR ''c'' := 5)"

lemma range3: "{HEAP0..<3 + HEAP0} = {3, 4, 5}"
  by (auto simp: HEAP0_def)

lemma ex_heap_indexed: "heap_indexed ex_heap ex_active 3"
  unfolding heap_indexed_def range3 by (simp add: ex_heap_def ex_active_def)

theorem reheap_correct_witness:
  "heap_ok (fst (reheap (ex_heap, ex_active) 3)) (snd (reheap (ex_heap, ex_active) 3)) 3"
  using reheap_correct [OF ex_heap_indexed, of "fst (reheap (ex_heap, ex_active) 3)"
      "snd (reheap (ex_heap, ex_active) 3)"] by simp

end
