(* ===== verification/Libev_Loop.thy ===== *)
theory Libev_Loop
  imports Libev_Heap
begin

text \<open>
  The part of \<^verbatim>\<open>src/vendor/ev.c\<close> that the coroutine library relies on: watchers, the lists
  of watchers of a file descriptor, the pending queues, the timer heap, and the operations
  that start and stop watchers and turn kernel events and expired timers into pending
  callbacks. A watcher is named by a value of the type \<open>'w\<close> (its address); its fields are in
  the map \<open>ws\<close> of the loop that watches it. Callbacks are values of the type \<open>'c\<close>: the
  client gives them meaning. Times are of any linearly ordered type with an addition and a
  subtraction of which nothing is assumed.

  \<open>loop_ok\<close> is the invariant of a loop: what libev's own \<open>ev_verify\<close> asserts, and that a
  watcher is active exactly when its list or the heap holds it. Every operation keeps it,
  no assertion of the operations fails under it, and a watcher that has been stopped is in
  no pending queue.
\<close>

section \<open>Data\<close>

type_synonym events = u32
type_synonym u8 = "8 word"

definition EV_READ :: events where "EV_READ = 1"
definition EV_WRITE :: events where "EV_WRITE = 2"
definition EV_IOFDSET :: events where "EV_IOFDSET = 128"
definition EV_TIMER :: events where "EV_TIMER = 256"
definition EV_ERROR :: events where "EV_ERROR = 2147483648"
definition EV_ANFD_REIFY :: u8 where "EV_ANFD_REIFY = 1"
definition EV_MINPRI :: int where "EV_MINPRI = -2"
definition EV_MAXPRI :: int where "EV_MAXPRI = 2"
definition NUMPRI :: nat where "NUMPRI = 5"

lemmas ev_consts = EV_READ_def EV_WRITE_def EV_IOFDSET_def EV_TIMER_def EV_ERROR_def EV_ANFD_REIFY_def

record ('c, 't) watcher =
  active :: nat
  pending :: nat
  priority :: int
  cb :: 'c
  w_fd :: int
  w_events :: events
  w_at :: 't
  w_repeat :: 't

record ('w, 'c, 't) ev_loop =
  ws :: "'w \<Rightarrow> ('c, 't) watcher"
  anfd_head :: "nat \<Rightarrow> 'w list"
  anfd_events :: "nat \<Rightarrow> u8"
  anfd_reify :: "nat \<Rightarrow> u8"
  anfdmax :: nat
  fdchanges :: "nat list"
  pendings :: "nat \<Rightarrow> ('w option \<times> events) list"
  timers :: "('w, 't) heap"
  timercnt :: nat
  rfeeds :: "'w list"
  mn_now :: 't
  activecnt :: int

abbreviation upd_w ::
  "'w \<Rightarrow> (('c, 't) watcher \<Rightarrow> ('c, 't) watcher) \<Rightarrow> ('w, 'c, 't) ev_loop \<Rightarrow> ('w, 'c, 't) ev_loop" where
  "upd_w w f l \<equiv> l\<lparr>ws := (ws l)(w := f (ws l w))\<rparr>"

definition ABSPRI :: "('c, 't) watcher \<Rightarrow> nat" where
  "ABSPRI x = nat (priority x - EV_MINPRI)"

section \<open>Arrays\<close>

text \<open>The doubling loop of \<open>array_nextsize\<close>, entered with a positive size.\<close>

function double_until :: "nat \<Rightarrow> nat \<Rightarrow> nat" where
  "double_until cnt ncur =
     (if ncur = 0 then 0
      else let n = 2 * ncur in if cnt > n then double_until cnt n else n)"
  by pat_completeness auto
termination
  by (relation "measure (\<lambda>(cnt, ncur). cnt - ncur)") auto

declare double_until.simps [simp del]

definition array_nextsize :: "nat \<Rightarrow> nat \<Rightarrow> nat \<Rightarrow> nat" where
  "array_nextsize elem cur cnt =
     (let ncur = double_until cnt (cur + 1)
      in if elem * ncur > 4096 - 8 * 4 then
           let n = ncur * elem;
               n = ((n + elem + (4096 - 1) + 8 * 4) div 4096) * 4096;
               n = n - 8 * 4
           in n div elem
         else ncur)"

text \<open>
  \<open>array_needsize (ANFD, anfds, anfdmax, cnt, array_init_zero)\<close>: grow the table of file
  descriptors to at least \<open>cnt\<close> slots and zero the new ones. A slot has 16 bytes.
\<close>

definition anfds_needsize :: "nat \<Rightarrow> ('w, 'c, 't) ev_loop \<Rightarrow> ('w, 'c, 't) ev_loop" where
  "anfds_needsize cnt l =
     (if cnt > anfdmax l then
        let ncur = array_nextsize 16 (anfdmax l) cnt;
            fresh = (\<lambda>i. anfdmax l \<le> i \<and> i < ncur)
        in l\<lparr>anfd_head := (\<lambda>i. if fresh i then [] else anfd_head l i),
             anfd_events := (\<lambda>i. if fresh i then 0 else anfd_events l i),
             anfd_reify := (\<lambda>i. if fresh i then 0 else anfd_reify l i),
             anfdmax := ncur\<rparr>
      else l)"

section \<open>Pending events\<close>

definition ev_feed_event :: "'w \<Rightarrow> events \<Rightarrow> ('w, 'c, 't) ev_loop \<Rightarrow> ('w, 'c, 't) ev_loop" where
  "ev_feed_event w revents l =
     (let pri = ABSPRI (ws l w); ps = pendings l pri
      in if pending (ws l w) \<noteq> 0 then
           let i = pending (ws l w) - 1
           in l\<lparr>pendings := (pendings l)(pri := ps[i := (fst (ps ! i), snd (ps ! i) OR revents)])\<rparr>
         else
           (upd_w w (\<lambda>x. x\<lparr>pending := length ps + 1\<rparr>) l)
             \<lparr>pendings := (pendings l)(pri := ps @ [(Some w, revents)])\<rparr>)"

definition feed_reverse :: "'w \<Rightarrow> ('w, 'c, 't) ev_loop \<Rightarrow> ('w, 'c, 't) ev_loop" where
  "feed_reverse w l = l\<lparr>rfeeds := rfeeds l @ [w]\<rparr>"

text \<open>\<open>feed_reverse_done\<close> feeds the collected watchers from the last to the first.\<close>

fun feed_list :: "'w list \<Rightarrow> events \<Rightarrow> ('w, 'c, 't) ev_loop \<Rightarrow> ('w, 'c, 't) ev_loop" where
  "feed_list [] revents l = l"
| "feed_list (w # vs) revents l = feed_list vs revents (ev_feed_event w revents l)"

definition feed_reverse_done :: "events \<Rightarrow> ('w, 'c, 't) ev_loop \<Rightarrow> ('w, 'c, 't) ev_loop" where
  "feed_reverse_done revents l = feed_list (rev (rfeeds l)) revents (l\<lparr>rfeeds := []\<rparr>)"

text \<open>Every watcher of the descriptor that asked for one of the events is fed.\<close>

fun feed_matching :: "'w list \<Rightarrow> events \<Rightarrow> ('w, 'c, 't) ev_loop \<Rightarrow> ('w, 'c, 't) ev_loop" where
  "feed_matching [] revents l = l"
| "feed_matching (w # vs) revents l =
     (let ev = w_events (ws l w) AND revents
      in feed_matching vs revents (if ev \<noteq> 0 then ev_feed_event w ev l else l))"

definition fd_event_nocheck :: "nat \<Rightarrow> events \<Rightarrow> ('w, 'c, 't) ev_loop \<Rightarrow> ('w, 'c, 't) ev_loop" where
  "fd_event_nocheck fd revents l = feed_matching (anfd_head l fd) revents l"

definition fd_event :: "nat \<Rightarrow> events \<Rightarrow> ('w, 'c, 't) ev_loop \<Rightarrow> ('w, 'c, 't) ev_loop" where
  "fd_event fd revents l = (if anfd_reify l fd = 0 then fd_event_nocheck fd revents l else l)"

definition fd_change :: "nat \<Rightarrow> u8 \<Rightarrow> ('w, 'c, 't) ev_loop \<Rightarrow> ('w, 'c, 't) ev_loop" where
  "fd_change fd flags l =
     (let reify = anfd_reify l fd;
          l1 = l\<lparr>anfd_reify := (anfd_reify l)(fd := reify OR flags)\<rparr>
      in if reify = 0 then l1\<lparr>fdchanges := fdchanges l1 @ [fd]\<rparr> else l1)"

section \<open>Starting and stopping watchers\<close>

definition wlist_add :: "'w list \<Rightarrow> 'w \<Rightarrow> 'w list" where
  "wlist_add head elem = elem # head"

fun wlist_del :: "'w list \<Rightarrow> 'w \<Rightarrow> 'w list" where
  "wlist_del [] elem = []"
| "wlist_del (w # rest) elem = (if w = elem then rest else w # wlist_del rest elem)"

text \<open>The pending entry of a stopped watcher is redirected to the dummy \<open>pending_w\<close>.\<close>

definition clear_pending :: "'w \<Rightarrow> ('w, 'c, 't) ev_loop \<Rightarrow> ('w, 'c, 't) ev_loop" where
  "clear_pending w l =
     (if pending (ws l w) \<noteq> 0 then
        let pri = ABSPRI (ws l w); ps = pendings l pri; i = pending (ws l w) - 1
        in (upd_w w (\<lambda>x. x\<lparr>pending := 0\<rparr>) l)
             \<lparr>pendings := (pendings l)(pri := ps[i := (None, snd (ps ! i))])\<rparr>
      else l)"

definition pri_adjust :: "('c, 't) watcher \<Rightarrow> ('c, 't) watcher" where
  "pri_adjust x =
     (let pri = priority x;
          pri = (if pri < EV_MINPRI then EV_MINPRI else pri);
          pri = (if pri > EV_MAXPRI then EV_MAXPRI else pri)
      in x\<lparr>priority := pri\<rparr>)"

definition ev_start :: "'w \<Rightarrow> nat \<Rightarrow> ('w, 'c, 't) ev_loop \<Rightarrow> ('w, 'c, 't) ev_loop" where
  "ev_start w act l =
     (upd_w w (\<lambda>x. (pri_adjust x)\<lparr>active := act\<rparr>) l)\<lparr>activecnt := activecnt l + 1\<rparr>"

definition ev_stop :: "'w \<Rightarrow> ('w, 'c, 't) ev_loop \<Rightarrow> ('w, 'c, 't) ev_loop" where
  "ev_stop w l = (upd_w w (\<lambda>x. x\<lparr>active := 0\<rparr>) l)\<lparr>activecnt := activecnt l - 1\<rparr>"

definition ev_init :: "'w \<Rightarrow> 'c \<Rightarrow> ('w, 'c, 't) ev_loop \<Rightarrow> ('w, 'c, 't) ev_loop" where
  "ev_init w f l = upd_w w (\<lambda>x. x\<lparr>active := 0, pending := 0, priority := 0, cb := f\<rparr>) l"

definition ev_io_init :: "'w \<Rightarrow> 'c \<Rightarrow> int \<Rightarrow> events \<Rightarrow> ('w, 'c, 't) ev_loop \<Rightarrow> ('w, 'c, 't) ev_loop" where
  "ev_io_init w f fd evs l =
     upd_w w (\<lambda>x. x\<lparr>w_fd := fd, w_events := evs OR EV_IOFDSET\<rparr>) (ev_init w f l)"

definition ev_timer_init :: "'w \<Rightarrow> 'c \<Rightarrow> 't \<Rightarrow> 't \<Rightarrow> ('w, 'c, 't) ev_loop \<Rightarrow> ('w, 'c, 't) ev_loop" where
  "ev_timer_init w f after rep l =
     upd_w w (\<lambda>x. x\<lparr>w_at := after, w_repeat := rep\<rparr>) (ev_init w f l)"

definition ev_io_start :: "'w \<Rightarrow> ('w, 'c, 't) ev_loop \<Rightarrow> ('w, 'c, 't) ev_loop res" where
  "ev_io_start w l =
     (let fd = w_fd (ws l w)
      in if active (ws l w) \<noteq> 0 then Inr l
         else bind_res (assert_c (fd \<ge> 0)) (\<lambda>_.
           bind_res (assert_c (w_events (ws l w) AND NOT (EV_IOFDSET OR EV_READ OR EV_WRITE) = 0)) (\<lambda>_.
           let l1 = ev_start w 1 l;
               l2 = anfds_needsize (nat fd + 1) l1;
               l3 = l2\<lparr>anfd_head := (anfd_head l2)(nat fd := wlist_add (anfd_head l2 (nat fd)) w)\<rparr>;
               l4 = fd_change (nat fd) (ucast (w_events (ws l3 w) AND EV_IOFDSET) OR EV_ANFD_REIFY) l3
           in Inr (upd_w w (\<lambda>x. x\<lparr>w_events := w_events x AND NOT EV_IOFDSET\<rparr>) l4))))"

definition ev_io_stop :: "'w \<Rightarrow> ('w, 'c, 't) ev_loop \<Rightarrow> ('w, 'c, 't) ev_loop res" where
  "ev_io_stop w l =
     (let l0 = clear_pending w l; fd = w_fd (ws l0 w)
      in if active (ws l0 w) = 0 then Inr l0
         else bind_res (assert_c (fd \<ge> 0 \<and> nat fd < anfdmax l0)) (\<lambda>_.
           let l1 = l0\<lparr>anfd_head := (anfd_head l0)(nat fd := wlist_del (anfd_head l0 (nat fd)) w)\<rparr>;
               l2 = ev_stop w l1
           in Inr (fd_change (nat fd) EV_ANFD_REIFY l2)))"

text \<open>The heap operations work on the array and the \<open>active\<close> fields of the watchers.\<close>

definition on_heap ::
  "(('w, 't) heap \<times> ('w \<Rightarrow> nat) \<Rightarrow> ('w, 't) heap \<times> ('w \<Rightarrow> nat))
   \<Rightarrow> ('w, 'c, 't) ev_loop \<Rightarrow> ('w, 'c, 't) ev_loop" where
  "on_heap f l =
     (case f (timers l, \<lambda>w. active (ws l w)) of
        (h, act) \<Rightarrow> l\<lparr>timers := h, ws := (\<lambda>w. (ws l w)\<lparr>active := act w\<rparr>)\<rparr>)"

definition ev_timer_start ::
  "'w \<Rightarrow> ('w, 'c, 't :: {linorder, plus, minus, zero}) ev_loop \<Rightarrow> ('w, 'c, 't) ev_loop res" where
  "ev_timer_start w l =
     (if active (ws l w) \<noteq> 0 then Inr l
      else
        let l0 = upd_w w (\<lambda>x. x\<lparr>w_at := w_at x + mn_now l\<rparr>) l
        in bind_res (assert_c (w_repeat (ws l0 w) \<ge> 0)) (\<lambda>_.
          let l1 = l0\<lparr>timercnt := timercnt l0 + 1\<rparr>;
              l2 = ev_start w (timercnt l1 + HEAP0 - 1) l1;
              k = active (ws l2 w);
              l3 = l2\<lparr>timers := (timers l2)(k := ANHE w (w_at (ws l2 w)))\<rparr>
          in Inr (on_heap (\<lambda>st. upheap st k) l3)))"

definition ev_timer_stop ::
  "'w \<Rightarrow> ('w, 'c, 't :: {linorder, plus, minus, zero}) ev_loop \<Rightarrow> ('w, 'c, 't) ev_loop res" where
  "ev_timer_stop w l =
     (let l0 = clear_pending w l; act = active (ws l0 w)
      in if act = 0 then Inr l0
         else bind_res (assert_c (anhe_w (timers l0 act) = w)) (\<lambda>_.
           let l1 = l0\<lparr>timercnt := timercnt l0 - 1\<rparr>;
               l2 = (if act < timercnt l1 + HEAP0 then
                       on_heap (\<lambda>st. adjustheap st (timercnt l1) act)
                         (l1\<lparr>timers := (timers l1)(act := timers l1 (timercnt l1 + HEAP0))\<rparr>)
                     else l1);
               l3 = upd_w w (\<lambda>x. x\<lparr>w_at := w_at x - mn_now l2\<rparr>) l2
           in Inr (ev_stop w l3)))"

section \<open>Events into callbacks\<close>

text \<open>
  The loop of \<open>fd_kill\<close>: every watcher of the descriptor is stopped and then fed an error.
  \<open>None\<close> is a run that never ends.
\<close>

partial_function (option) fd_kill ::
  "nat \<Rightarrow> ('w, 'c, 't) ev_loop \<Rightarrow> ('w, 'c, 't) ev_loop res option" where
  "fd_kill fd l =
     (case anfd_head l fd of
        [] \<Rightarrow> Some (Inr l)
      | w # _ \<Rightarrow>
          (case ev_io_stop w l of
             Inl e \<Rightarrow> Some (Inl e)
           | Inr l' \<Rightarrow> fd_kill fd (ev_feed_event w (EV_ERROR OR EV_READ OR EV_WRITE) l')))"

text \<open>
  \<open>epoll_modify\<close>, the \<open>backend_modify\<close> of the loops the library makes: \<open>accept fd\<close> tells whether
  one of its \<open>epoll_ctl\<close> calls for the descriptor succeeds (or fails with \<open>EPERM\<close>, which counts
  as always ready). The fields \<open>emask\<close> and \<open>egen\<close>, which only avoid system calls and filter stale
  events, are not kept.
\<close>

definition epoll_modify :: "(nat \<Rightarrow> bool) \<Rightarrow> nat \<Rightarrow> u8 \<Rightarrow> ('w, 'c, 't) ev_loop \<Rightarrow> ('w, 'c, 't) ev_loop res option" where
  "epoll_modify accept fd nev l = (if nev = 0 \<or> accept fd then Some (Inr l) else fd_kill fd l)"

text \<open>
  \<open>fd_reify\<close>: one iteration of its loop, and the loop over the descriptors that have changed. A
  descriptor that is killed in an iteration is appended to the list the loop walks.
\<close>

definition fd_reify_one :: "(nat \<Rightarrow> bool) \<Rightarrow> nat \<Rightarrow> ('w, 'c, 't) ev_loop \<Rightarrow> ('w, 'c, 't) ev_loop res option" where
  "fd_reify_one accept fd l =
     (let o_events = anfd_events l fd;
          o_reify = anfd_reify l fd;
          events = fold (\<lambda>w e. e OR ucast (w_events (ws l w))) (anfd_head l fd) 0;
          l1 = l\<lparr>anfd_reify := (anfd_reify l)(fd := 0), anfd_events := (anfd_events l)(fd := events)\<rparr>;
          o_reify1 = (if o_events \<noteq> events then ucast EV_IOFDSET else o_reify)
      in if o_reify1 AND ucast EV_IOFDSET \<noteq> 0 then epoll_modify accept fd events l1 else Some (Inr l1))"

partial_function (option) fd_reify_loop ::
  "(nat \<Rightarrow> bool) \<Rightarrow> nat \<Rightarrow> ('w, 'c, 't) ev_loop \<Rightarrow> ('w, 'c, 't) ev_loop res option" where
  "fd_reify_loop accept i l =
     (if i < length (fdchanges l) then
        (case fd_reify_one accept (fdchanges l ! i) l of
           None \<Rightarrow> None
         | Some (Inl f) \<Rightarrow> Some (Inl f)
         | Some (Inr l') \<Rightarrow> fd_reify_loop accept (Suc i) l')
      else Some (Inr (l\<lparr>fdchanges := []\<rparr>)))"

definition fd_reify :: "(nat \<Rightarrow> bool) \<Rightarrow> ('w, 'c, 't) ev_loop \<Rightarrow> ('w, 'c, 't) ev_loop res option" where
  "fd_reify accept l = fd_reify_loop accept 0 l"

definition timer_expired :: "('w, 'c, 't :: linorder) ev_loop \<Rightarrow> bool" where
  "timer_expired l \<longleftrightarrow> timercnt l \<noteq> 0 \<and> anhe_at (timers l HEAP0) < mn_now l"

text \<open>The body of the loop of \<open>timers_reify\<close>: reschedule or stop the root, and collect it.\<close>

definition timers_reify_one ::
  "('w, 'c, 't :: {linorder, plus, minus, zero}) ev_loop \<Rightarrow> ('w, 'c, 't) ev_loop res" where
  "timers_reify_one l =
     (let w = anhe_w (timers l HEAP0)
      in bind_res
           (if w_repeat (ws l w) \<noteq> 0 then
              let at1 = w_at (ws l w) + w_repeat (ws l w);
                  at2 = (if at1 < mn_now l then mn_now l else at1);
                  l1 = upd_w w (\<lambda>x. x\<lparr>w_at := at2\<rparr>) l
              in bind_res (assert_c (w_repeat (ws l w) > 0)) (\<lambda>_.
                   Inr (on_heap (\<lambda>st. downheap st (timercnt l1) HEAP0)
                     (l1\<lparr>timers := (timers l1)(HEAP0 := ANHE w at2)\<rparr>)))
            else ev_timer_stop w l)
           (\<lambda>l2. Inr (feed_reverse w l2)))"

partial_function (option) timers_reify_loop ::
  "('w, 'c, 't :: {linorder, plus, minus, zero}) ev_loop \<Rightarrow> ('w, 'c, 't) ev_loop res option" where
  "timers_reify_loop l =
     (case timers_reify_one l of
        Inl e \<Rightarrow> Some (Inl e)
      | Inr l' \<Rightarrow> if timer_expired l' then timers_reify_loop l' else Some (Inr l'))"

definition timers_reify ::
  "('w, 'c, 't :: {linorder, plus, minus, zero}) ev_loop \<Rightarrow> ('w, 'c, 't) ev_loop res option" where
  "timers_reify l =
     (if timer_expired l then map_option (map_sum id (feed_reverse_done EV_TIMER)) (timers_reify_loop l)
      else Some (Inr l))"

text \<open>
  One iteration of the inner loop of \<open>ev_invoke_pending\<close>, up to the call of the callback:
  take the last entry of a non-empty pending queue and clear the watcher's \<open>pending\<close>. The
  dummy \<open>pending_w\<close> has the callback \<open>pendingcb\<close>, which does nothing.
\<close>

definition pending_pop ::
  "nat \<Rightarrow> ('w, 'c, 't) ev_loop \<Rightarrow> (('w option \<times> events) \<times> ('w, 'c, 't) ev_loop) option" where
  "pending_pop pri l =
     (let ps = pendings l pri
      in if ps = [] then None
         else
           let p = last ps; l1 = l\<lparr>pendings := (pendings l)(pri := butlast ps)\<rparr>
           in Some (p, (case fst p of None \<Rightarrow> l1 | Some w \<Rightarrow> upd_w w (\<lambda>x. x\<lparr>pending := 0\<rparr>) l1)))"

text \<open>The queue the next iteration of \<open>ev_invoke_pending\<close> works on: the highest non-empty one.\<close>

definition next_priority :: "('w, 'c, 't) ev_loop \<Rightarrow> nat option" where
  "next_priority l = find (\<lambda>pri. pendings l pri \<noteq> []) (rev [0..<NUMPRI])"

definition ev_pending_count :: "('w, 'c, 't) ev_loop \<Rightarrow> nat" where
  "ev_pending_count l = sum_list (map (\<lambda>pri. length (pendings l pri)) [0..<NUMPRI])"

section \<open>The invariant of a loop\<close>

text \<open>
  The type of a watcher is known statically in C; the predicate \<open>tm\<close> tells which names are
  \<open>ev_timer\<close>s, the others are \<open>ev_io\<close>s.
\<close>

definition pend_ok :: "('w, 'c, 't) ev_loop \<Rightarrow> bool" where
  "pend_ok l \<longleftrightarrow>
     (\<forall>w. pending (ws l w) \<noteq> 0 \<longrightarrow>
        pending (ws l w) \<le> length (pendings l (ABSPRI (ws l w))) \<and>
        fst (pendings l (ABSPRI (ws l w)) ! (pending (ws l w) - 1)) = Some w) \<and>
     (\<forall>pri i w. i < length (pendings l pri) \<and> fst (pendings l pri ! i) = Some w \<longrightarrow>
        pending (ws l w) = i + 1 \<and> ABSPRI (ws l w) = pri)"

definition io_ok :: "('w \<Rightarrow> bool) \<Rightarrow> ('w, 'c, 't) ev_loop \<Rightarrow> bool" where
  "io_ok tm l \<longleftrightarrow>
     (\<forall>fd. distinct (anfd_head l fd)) \<and>
     (\<forall>fd w. w \<in> set (anfd_head l fd) \<longleftrightarrow> \<not> tm w \<and> active (ws l w) = 1 \<and> w_fd (ws l w) = int fd) \<and>
     (\<forall>w. \<not> tm w \<and> active (ws l w) \<noteq> 0 \<longrightarrow>
        active (ws l w) = 1 \<and> 0 \<le> w_fd (ws l w) \<and> nat (w_fd (ws l w)) < anfdmax l)"

definition tm_ok :: "('w \<Rightarrow> bool) \<Rightarrow> ('w, 'c, 't :: linorder) ev_loop \<Rightarrow> bool" where
  "tm_ok tm l \<longleftrightarrow>
     heap_ok (timers l) (\<lambda>w. active (ws l w)) (timercnt l) \<and>
     (\<forall>i\<in>{HEAP0..<timercnt l + HEAP0}.
        tm (anhe_w (timers l i)) \<and> anhe_at (timers l i) = w_at (ws l (anhe_w (timers l i)))) \<and>
     (\<forall>w. tm w \<and> active (ws l w) \<noteq> 0 \<longrightarrow> w \<in> heap_watchers (timers l) (timercnt l))"

definition loop_ok :: "('w \<Rightarrow> bool) \<Rightarrow> ('w, 'c, 't :: linorder) ev_loop \<Rightarrow> bool" where
  "loop_ok tm l \<longleftrightarrow> pend_ok l \<and> io_ok tm l \<and> tm_ok tm l"

definition watching :: "('w, 'c, 't) ev_loop \<Rightarrow> 'w set" where
  "watching l = {w. active (ws l w) \<noteq> 0}"

definition pending_set :: "('w, 'c, 't) ev_loop \<Rightarrow> 'w set" where
  "pending_set l = {w. pending (ws l w) \<noteq> 0}"

subsection \<open>Which fields the parts of the invariant depend on\<close>

lemma pend_ok_cong:
  "pendings l' = pendings l \<Longrightarrow> (\<And>w. pending (ws l' w) = pending (ws l w)) \<Longrightarrow>
   (\<And>w. ABSPRI (ws l' w) = ABSPRI (ws l w)) \<Longrightarrow> pend_ok l' = pend_ok l"
  by (simp add: pend_ok_def)

lemma io_ok_cong:
  "anfd_head l' = anfd_head l \<Longrightarrow> anfdmax l' = anfdmax l \<Longrightarrow>
   (\<And>w. \<not> tm w \<Longrightarrow> active (ws l' w) = active (ws l w) \<and> w_fd (ws l' w) = w_fd (ws l w)) \<Longrightarrow>
   io_ok tm l' = io_ok tm l"
  by (auto simp: io_ok_def)

lemma io_ok_transfer:
  "io_ok tm l \<Longrightarrow> anfd_head l' = anfd_head l \<Longrightarrow> anfdmax l' = anfdmax l \<Longrightarrow>
   (\<And>w. \<not> tm w \<Longrightarrow> active (ws l' w) = active (ws l w)) \<Longrightarrow>
   (\<And>w. \<not> tm w \<Longrightarrow> w_fd (ws l' w) = w_fd (ws l w)) \<Longrightarrow> io_ok tm l'"
  using io_ok_cong [of l' l tm] by simp

lemma tm_ok_cong:
  "timers l' = timers l \<Longrightarrow> timercnt l' = timercnt l \<Longrightarrow>
   (\<And>w. active (ws l' w) = active (ws l w)) \<Longrightarrow> (\<And>w. tm w \<Longrightarrow> w_at (ws l' w) = w_at (ws l w)) \<Longrightarrow>
   tm_ok tm l' = tm_ok tm l"
  by (auto simp: tm_ok_def)

lemma tm_ok_active_io:
  assumes "timers l' = timers l" "timercnt l' = timercnt l"
    and "\<And>w. tm w \<Longrightarrow> active (ws l' w) = active (ws l w) \<and> w_at (ws l' w) = w_at (ws l w)"
  shows "tm_ok tm l \<Longrightarrow> tm_ok tm l'"
  using assms by (auto simp: tm_ok_def heap_ok_def heap_indexed_def)

subsection \<open>Pending queues\<close>

lemma pend_ok_inD:
  "pend_ok l \<Longrightarrow> i < length (pendings l pri) \<Longrightarrow> fst (pendings l pri ! i) = Some w \<Longrightarrow>
   pending (ws l w) = i + 1 \<and> ABSPRI (ws l w) = pri"
  unfolding pend_ok_def by blast

lemma pend_ok_slot:
  "pend_ok l \<Longrightarrow> pending (ws l w) \<noteq> 0 \<Longrightarrow>
   pending (ws l w) \<le> length (pendings l (ABSPRI (ws l w))) \<and>
   fst (pendings l (ABSPRI (ws l w)) ! (pending (ws l w) - 1)) = Some w"
  unfolding pend_ok_def by blast

lemma ABSPRI_upd [simp]:
  "ABSPRI (x\<lparr>pending := n\<rparr>) = ABSPRI x" "ABSPRI (x\<lparr>active := n\<rparr>) = ABSPRI x"
  "ABSPRI (x\<lparr>w_at := t\<rparr>) = ABSPRI x" "ABSPRI (x\<lparr>w_events := e\<rparr>) = ABSPRI x"
  by (simp_all add: ABSPRI_def)

lemma feed_pend_ok:
  assumes "pend_ok l"
  shows "pend_ok (ev_feed_event w revents l)"
proof (cases "pending (ws l w) = 0")
  case True
  let ?n = "length (pendings l (ABSPRI (ws l w)))"
  have notin: "i < length (pendings l pri) \<Longrightarrow> fst (pendings l pri ! i) \<noteq> Some w" for i pri
    using assms True pend_ok_inD by fastforce
  show ?thesis
    unfolding pend_ok_def
  proof (intro conjI allI impI)
    fix v assume "pending (ws (ev_feed_event w revents l) v) \<noteq> 0"
    then show "pending (ws (ev_feed_event w revents l) v)
        \<le> length (pendings (ev_feed_event w revents l) (ABSPRI (ws (ev_feed_event w revents l) v)))"
      and "fst (pendings (ev_feed_event w revents l) (ABSPRI (ws (ev_feed_event w revents l) v)) !
          (pending (ws (ev_feed_event w revents l) v) - 1)) = Some v"
      using assms True pend_ok_slot [of l v]
      by (auto simp: ev_feed_event_def Let_def nth_append)
  next
    fix pri i v
    assume a: "i < length (pendings (ev_feed_event w revents l) pri) \<and>
      fst (pendings (ev_feed_event w revents l) pri ! i) = Some v"
    then show "pending (ws (ev_feed_event w revents l) v) = i + 1"
      and "ABSPRI (ws (ev_feed_event w revents l) v) = pri"
      using assms True notin pend_ok_inD [of l i pri v]
      by (auto simp: ev_feed_event_def Let_def nth_append split: if_splits)
  qed
next
  case False
  then have "pending (ws l w) - 1 < length (pendings l (ABSPRI (ws l w)))"
    using assms pend_ok_slot [of l w] by auto
  then have "length (pendings (ev_feed_event w revents l) pri) = length (pendings l pri)"
    and "fst (pendings (ev_feed_event w revents l) pri ! i) = fst (pendings l pri ! i)"
    and "ws (ev_feed_event w revents l) = ws l" for pri i
    using False by (auto simp: ev_feed_event_def Let_def nth_list_update)
  with assms show ?thesis by (simp add: pend_ok_def)
qed

lemma feed_frame:
  "active (ws (ev_feed_event w e l) v) = active (ws l v)"
  "w_fd (ws (ev_feed_event w e l) v) = w_fd (ws l v)"
  "w_at (ws (ev_feed_event w e l) v) = w_at (ws l v)"
  "cb (ws (ev_feed_event w e l) v) = cb (ws l v)"
  "w_repeat (ws (ev_feed_event w e l) v) = w_repeat (ws l v)"
  "priority (ws (ev_feed_event w e l) v) = priority (ws l v)"
  "w_events (ws (ev_feed_event w e l) v) = w_events (ws l v)"
  "anfd_head (ev_feed_event w e l) = anfd_head l"
  "anfdmax (ev_feed_event w e l) = anfdmax l"
  "anfd_reify (ev_feed_event w e l) = anfd_reify l"
  "timers (ev_feed_event w e l) = timers l"
  "timercnt (ev_feed_event w e l) = timercnt l"
  "mn_now (ev_feed_event w e l) = mn_now l"
  "pending (ws (ev_feed_event w e l) v) =
     (if v = w \<and> pending (ws l w) = 0 then length (pendings l (ABSPRI (ws l w))) + 1 else pending (ws l v))"
  by (auto simp: ev_feed_event_def Let_def)

lemma feed_ok: "loop_ok tm l \<Longrightarrow> loop_ok tm (ev_feed_event w e l)"
  using feed_pend_ok [of l w e]
    io_ok_cong [of "ev_feed_event w e l" l tm] tm_ok_cong [of "ev_feed_event w e l" l tm]
  by (simp add: loop_ok_def feed_frame)

lemma feed_sets:
  "watching (ev_feed_event w e l) = watching l"
  "pending_set (ev_feed_event w e l) = insert w (pending_set l)"
  by (auto simp: watching_def pending_set_def feed_frame)

lemma clear_pending_frame:
  "active (ws (clear_pending w l) v) = active (ws l v)"
  "w_fd (ws (clear_pending w l) v) = w_fd (ws l v)"
  "w_at (ws (clear_pending w l) v) = w_at (ws l v)"
  "w_repeat (ws (clear_pending w l) v) = w_repeat (ws l v)"
  "cb (ws (clear_pending w l) v) = cb (ws l v)"
  "priority (ws (clear_pending w l) v) = priority (ws l v)"
  "w_events (ws (clear_pending w l) v) = w_events (ws l v)"
  "anfd_head (clear_pending w l) = anfd_head l"
  "anfdmax (clear_pending w l) = anfdmax l"
  "timers (clear_pending w l) = timers l"
  "timercnt (clear_pending w l) = timercnt l"
  "mn_now (clear_pending w l) = mn_now l"
  "rfeeds (clear_pending w l) = rfeeds l"
  "pending (ws (clear_pending w l) v) = (if v = w then 0 else pending (ws l v))"
  by (auto simp: clear_pending_def Let_def)

lemma clear_pending_pend_ok:
  assumes "pend_ok l"
  shows "pend_ok (clear_pending w l)"
proof (cases "pending (ws l w) = 0")
  case False
  note slot = pend_ok_slot [OF assms False]
  then have slot': "pending (ws l w) - 1 < length (pendings l (ABSPRI (ws l w)))"
    using False by auto
  have other: "pending (ws l v) \<noteq> 0 \<Longrightarrow> v \<noteq> w \<Longrightarrow> ABSPRI (ws l v) = ABSPRI (ws l w) \<Longrightarrow>
      pending (ws l v) - 1 \<noteq> pending (ws l w) - 1" for v
    using slot pend_ok_slot [OF assms, of v] by auto
  have mine: "i < length (pendings l pri) \<Longrightarrow> fst (pendings l pri ! i) = Some w \<Longrightarrow>
      pri = ABSPRI (ws l w) \<and> i = pending (ws l w) - 1" for i pri
    using pend_ok_inD [OF assms] by fastforce
  show ?thesis
    unfolding pend_ok_def
  proof (intro conjI allI impI)
    fix v assume "pending (ws (clear_pending w l) v) \<noteq> 0"
    then show "pending (ws (clear_pending w l) v)
        \<le> length (pendings (clear_pending w l) (ABSPRI (ws (clear_pending w l) v)))"
      and "fst (pendings (clear_pending w l) (ABSPRI (ws (clear_pending w l) v)) !
          (pending (ws (clear_pending w l) v) - 1)) = Some v"
      using False other [of v] pend_ok_slot [OF assms, of v]
      by (auto simp: clear_pending_def Let_def nth_list_update split: if_splits)
  next
    fix pri i v
    assume "i < length (pendings (clear_pending w l) pri) \<and>
      fst (pendings (clear_pending w l) pri ! i) = Some v"
    then show "pending (ws (clear_pending w l) v) = i + 1"
      and "ABSPRI (ws (clear_pending w l) v) = pri"
      using False slot' mine [of i pri] pend_ok_inD [OF assms, of i pri v]
      by (auto simp: clear_pending_def Let_def nth_list_update split: if_splits)
  qed
qed (use assms in \<open>simp add: clear_pending_def\<close>)

lemma clear_pending_ok: "loop_ok tm l \<Longrightarrow> loop_ok tm (clear_pending w l)"
  using clear_pending_pend_ok [of l w]
    io_ok_cong [of "clear_pending w l" l tm] tm_ok_cong [of "clear_pending w l" l tm]
  by (simp add: loop_ok_def clear_pending_frame)

lemma clear_pending_sets:
  "watching (clear_pending w l) = watching l"
  "pending_set (clear_pending w l) = pending_set l - {w}"
  by (auto simp: watching_def pending_set_def clear_pending_frame)

lemma pop_pend_ok:
  assumes ok: "pend_ok l" and pop: "pending_pop pri l = Some ((wo, e), l')"
  shows "pend_ok l'" and "\<And>w. wo = Some w \<Longrightarrow> w \<in> pending_set l"
    and "pending_set l' = pending_set l - (case wo of None \<Rightarrow> {} | Some w \<Rightarrow> {w})"
proof -
  let ?ps = "pendings l pri"
  have ne: "?ps \<noteq> []" and last: "last ?ps = (wo, e)"
    using pop by (auto simp: pending_pop_def Let_def split: if_splits)
  have nth: "?ps ! (length ?ps - 1) = (wo, e)" using ne last by (simp add: last_conv_nth)
  have lt: "length ?ps - 1 < length ?ps" using ne by (cases ?ps) auto
  have mem: "wo = Some w \<Longrightarrow> pending (ws l w) = length ?ps \<and> ABSPRI (ws l w) = pri" for w
    using pend_ok_inD [OF ok lt, of w] nth lt by auto
  show "wo = Some w \<Longrightarrow> w \<in> pending_set l" for w
    using mem [of w] ne by (auto simp: pending_set_def)
  have l': "pendings l' = (pendings l)(pri := butlast ?ps)"
    "ws l' = (case wo of None \<Rightarrow> ws l | Some w \<Rightarrow> (ws l)(w := (ws l w)\<lparr>pending := 0\<rparr>))"
    using pop ne last by (auto simp: pending_pop_def Let_def split: option.splits)
  then show "pending_set l' = pending_set l - (case wo of None \<Rightarrow> {} | Some w \<Rightarrow> {w})"
    by (auto simp: pending_set_def split: option.splits)
  show "pend_ok l'"
    unfolding pend_ok_def
  proof (intro conjI allI impI)
    fix v assume v: "pending (ws l' v) \<noteq> 0"
    then have pv: "pending (ws l v) \<noteq> 0" "wo \<noteq> Some v" "ws l' v = ws l v"
      using l'(2) by (auto split: option.splits if_splits)
    note slot = pend_ok_slot [OF ok pv(1)]
    have "ABSPRI (ws l v) = pri \<Longrightarrow> pending (ws l v) < length ?ps"
      using slot nth pv(2) by (cases "pending (ws l v) = length ?ps") auto
    then show "pending (ws l' v) \<le> length (pendings l' (ABSPRI (ws l' v)))"
      and "fst (pendings l' (ABSPRI (ws l' v)) ! (pending (ws l' v) - 1)) = Some v"
      using slot pv l'(1) by (auto simp: nth_butlast)
  next
    fix p i v assume a: "i < length (pendings l' p) \<and> fst (pendings l' p ! i) = Some v"
    then have i: "i < length (pendings l p)" "fst (pendings l p ! i) = Some v"
      and short: "p = pri \<Longrightarrow> i < length ?ps - 1"
      using l'(1) by (auto simp: nth_butlast split: if_splits)
    note inl = pend_ok_inD [OF ok i]
    have "wo \<noteq> Some v" using inl mem [of v] short lt by auto
    then have "ws l' v = ws l v" using l'(2) by (auto split: option.splits)
    with inl show "pending (ws l' v) = i + 1" and "ABSPRI (ws l' v) = p" by simp_all
  qed
qed

lemma pop_frame:
  assumes "pending_pop pri l = Some (p, l')"
  shows "active (ws l' v) = active (ws l v)" "w_fd (ws l' v) = w_fd (ws l v)"
    "w_at (ws l' v) = w_at (ws l v)" "cb (ws l' v) = cb (ws l v)" "w_repeat (ws l' v) = w_repeat (ws l v)"
    "priority (ws l' v) = priority (ws l v)"
    "anfd_head l' = anfd_head l" "anfdmax l' = anfdmax l" "timers l' = timers l" "timercnt l' = timercnt l"
    "mn_now l' = mn_now l"
  using assms by (auto simp: pending_pop_def Let_def split: if_splits option.splits)

lemma pop_ok:
  assumes "loop_ok tm l" and "pending_pop pri l = Some (p, l')"
  shows "loop_ok tm l'"
proof -
  obtain wo e where p: "p = (wo, e)" by fastforce
  have "pend_ok l'" using assms pop_pend_ok(1) p by (auto simp: loop_ok_def)
  with assms(1) pop_frame [OF assms(2)] io_ok_cong [of l' l tm] tm_ok_cong [of l' l tm]
  show ?thesis by (simp add: loop_ok_def)
qed

subsection \<open>Array sizes\<close>

lemma double_until_ge: "0 < n \<Longrightarrow> cnt \<le> double_until cnt n \<and> n < double_until cnt n"
proof (induction cnt n rule: double_until.induct)
  case (1 cnt n)
  show ?case
  proof (cases "cnt > 2 * n")
    case True
    with 1 show ?thesis by (subst (1 2) double_until.simps) auto
  next
    case False
    with 1 show ?thesis by (subst (1 2) double_until.simps) auto
  qed
qed

lemma round_up_ge:
  fixes n elem :: nat
  assumes "0 < elem"
  shows "n < (((n * elem + elem + 4095 + 32) div 4096) * 4096 - 32) div elem"
proof -
  let ?x = "n * elem + elem + 4095 + 32"
  have "?x div 4096 * 4096 + ?x mod 4096 = ?x" by (rule div_mult_mod_eq)
  moreover have "?x mod 4096 < 4096" by simp
  ultimately have "(n + 1) * elem \<le> ?x div 4096 * 4096 - 32" by (simp add: algebra_simps)
  then have "(n + 1) * elem div elem \<le> (?x div 4096 * 4096 - 32) div elem" by (rule div_le_mono)
  then show ?thesis using assms by simp
qed

lemma array_nextsize_ge:
  assumes "0 < elem"
  shows "cnt \<le> array_nextsize elem cur cnt \<and> cur < array_nextsize elem cur cnt"
proof -
  let ?n = "double_until cnt (cur + 1)"
  have n: "cnt \<le> ?n" "cur < ?n" using double_until_ge [of "cur + 1" cnt] by auto
  show ?thesis
    using n round_up_ge [OF assms, of ?n] by (auto simp: array_nextsize_def Let_def)
qed

lemma needsize_frame [simp]:
  "ws (anfds_needsize n l) = ws l" "pendings (anfds_needsize n l) = pendings l"
  "timers (anfds_needsize n l) = timers l" "timercnt (anfds_needsize n l) = timercnt l"
  "mn_now (anfds_needsize n l) = mn_now l" "activecnt (anfds_needsize n l) = activecnt l"
  "rfeeds (anfds_needsize n l) = rfeeds l"
  by (simp_all add: anfds_needsize_def Let_def)

lemma needsize_max: "n \<le> anfdmax (anfds_needsize n l)" "anfdmax l \<le> anfdmax (anfds_needsize n l)"
  using array_nextsize_ge [of 16 n "anfdmax l"] by (auto simp: anfds_needsize_def Let_def)

lemma needsize_head: "(\<And>fd. anfdmax l \<le> fd \<Longrightarrow> anfd_head l fd = []) \<Longrightarrow>
   anfd_head (anfds_needsize n l) = anfd_head l"
  by (auto simp: anfds_needsize_def Let_def)

lemma io_ok_head_beyond:
  assumes "io_ok tm l" and "anfdmax l \<le> fd"
  shows "anfd_head l fd = []"
proof (rule ccontr)
  assume "anfd_head l fd \<noteq> []"
  then obtain w where "w \<in> set (anfd_head l fd)" by fastforce
  with assms have "\<not> tm w \<and> active (ws l w) = 1 \<and> w_fd (ws l w) = int fd" by (simp add: io_ok_def)
  with assms show False unfolding io_ok_def by fastforce
qed

subsection \<open>Watchers of descriptors\<close>

lemma fd_change_frame [simp]:
  "ws (fd_change fd f l) = ws l" "pendings (fd_change fd f l) = pendings l"
  "timers (fd_change fd f l) = timers l" "timercnt (fd_change fd f l) = timercnt l"
  "anfd_head (fd_change fd f l) = anfd_head l" "anfdmax (fd_change fd f l) = anfdmax l"
  "mn_now (fd_change fd f l) = mn_now l" "rfeeds (fd_change fd f l) = rfeeds l"
  by (simp_all add: fd_change_def Let_def)

lemma pri_adjust_id: "EV_MINPRI \<le> priority x \<Longrightarrow> priority x \<le> EV_MAXPRI \<Longrightarrow> pri_adjust x = x"
  by (simp add: pri_adjust_def Let_def)

definition io_startable :: "'w \<Rightarrow> ('w, 'c, 't) ev_loop \<Rightarrow> bool" where
  "io_startable w l \<longleftrightarrow>
     active (ws l w) = 0 \<and> 0 \<le> w_fd (ws l w) \<and>
     w_events (ws l w) AND NOT (EV_IOFDSET OR EV_READ OR EV_WRITE) = 0 \<and>
     EV_MINPRI \<le> priority (ws l w) \<and> priority (ws l w) \<le> EV_MAXPRI"

lemma ev_io_start_eq:
  assumes "io_startable w l" and io: "io_ok tm l"
  obtains l' where "ev_io_start w l = Inr l'"
    and "ws l' = (ws l)(w := (ws l w)\<lparr>active := 1, w_events := w_events (ws l w) AND NOT EV_IOFDSET\<rparr>)"
    and "anfd_head l' = (anfd_head l)(nat (w_fd (ws l w)) := w # anfd_head l (nat (w_fd (ws l w))))"
    and "nat (w_fd (ws l w)) < anfdmax l'" and "anfdmax l \<le> anfdmax l'"
    and "pendings l' = pendings l" and "timers l' = timers l" and "timercnt l' = timercnt l"
    and "mn_now l' = mn_now l" and "rfeeds l' = rfeeds l"
proof -
  let ?fd = "nat (w_fd (ws l w))"
  let ?l1 = "ev_start w 1 l" and ?l2 = "anfds_needsize (?fd + 1) (ev_start w 1 l)"
  have hd2: "anfd_head ?l2 = anfd_head l"
    using needsize_head [of ?l1 "?fd + 1"] io_ok_head_beyond [OF io] by (simp add: ev_start_def)
  have mx: "?fd < anfdmax ?l2" "anfdmax l \<le> anfdmax ?l2"
    using needsize_max(1) [of "?fd + 1" ?l1] needsize_max(2) [of ?l1 "?fd + 1"] by (auto simp: ev_start_def)
  have ws1: "ws ?l1 w = (ws l w)\<lparr>active := 1\<rparr>"
    using assms(1) by (simp add: ev_start_def io_startable_def pri_adjust_id)
  let ?l3 = "?l2\<lparr>anfd_head := (anfd_head ?l2)(?fd := w # anfd_head ?l2 ?fd)\<rparr>"
  let ?l4 = "fd_change ?fd (ucast (w_events (ws ?l3 w) AND EV_IOFDSET) OR EV_ANFD_REIFY) ?l3"
  let ?l' = "upd_w w (\<lambda>x. x\<lparr>w_events := w_events x AND NOT EV_IOFDSET\<rparr>) ?l4"
  show thesis
    by (rule that [of ?l'])
      (use assms(1) hd2 mx ws1 in \<open>simp_all add: ev_io_start_def Let_def io_startable_def wlist_add_def
          ev_start_def pri_adjust_id\<close>)
qed

text \<open>The callback and the repeat value of every watcher are the same.\<close>

definition same_conf :: "('w, 'c, 't) ev_loop \<Rightarrow> ('w, 'c, 't) ev_loop \<Rightarrow> bool" where
  "same_conf l l' \<longleftrightarrow> (\<forall>v. cb (ws l' v) = cb (ws l v) \<and> w_repeat (ws l' v) = w_repeat (ws l v))"

lemma ev_io_start_ok:
  assumes ok: "loop_ok tm l" and w: "\<not> tm w" "io_startable w l"
  shows "\<exists>l'. ev_io_start w l = Inr l' \<and> loop_ok tm l' \<and> watching l' = insert w (watching l)
    \<and> pending_set l' = pending_set l \<and> same_conf l l'"
proof -
  from ok have io: "io_ok tm l" by (simp add: loop_ok_def)
  from ev_io_start_eq [OF w(2) io] obtain l' where l': "ev_io_start w l = Inr l'"
    and wsl: "ws l' = (ws l)(w := (ws l w)\<lparr>active := 1, w_events := w_events (ws l w) AND NOT EV_IOFDSET\<rparr>)"
    and hd: "anfd_head l' = (anfd_head l)(nat (w_fd (ws l w)) := w # anfd_head l (nat (w_fd (ws l w))))"
    and mx: "nat (w_fd (ws l w)) < anfdmax l'" "anfdmax l \<le> anfdmax l'"
    and rest: "pendings l' = pendings l" "timers l' = timers l" "timercnt l' = timercnt l" by blast
  have in0: "active (ws l w) = 0" "0 \<le> w_fd (ws l w)" using w(2) by (auto simp: io_startable_def)
  have "pend_ok l'" using ok pend_ok_cong [of l' l] rest wsl by (simp add: loop_ok_def)
  moreover have "tm_ok tm l'"
    by (rule tm_ok_active_io [of l' l]) (use ok rest wsl w(1) in \<open>auto simp: loop_ok_def\<close>)
  moreover have "io_ok tm l'"
    using io in0 hd mx wsl w(1) unfolding io_ok_def by auto
  ultimately show ?thesis using l' wsl in0 by (auto simp: loop_ok_def watching_def pending_set_def same_conf_def)
qed

lemma set_wlist_del: "distinct xs \<Longrightarrow> set (wlist_del xs w) = set xs - {w}"
  by (induction xs) auto

lemma distinct_wlist_del: "distinct xs \<Longrightarrow> distinct (wlist_del xs w)"
  by (induction xs) (auto simp: set_wlist_del)

lemma ev_io_stop_ok:
  assumes ok: "loop_ok tm l" and w: "\<not> tm w"
  shows "\<exists>l'. ev_io_stop w l = Inr l' \<and> loop_ok tm l' \<and> watching l' = watching l - {w}
    \<and> pending_set l' = pending_set l - {w} \<and> same_conf l l'"
proof -
  let ?l0 = "clear_pending w l"
  have ok0: "loop_ok tm ?l0" using ok by (rule clear_pending_ok)
  show ?thesis
  proof (cases "active (ws ?l0 w) = 0")
    case True
    then show ?thesis using ok0
      by (auto simp: ev_io_stop_def Let_def clear_pending_sets clear_pending_frame watching_def same_conf_def)
  next
    case False
    then have act: "active (ws ?l0 w) = 1" "0 \<le> w_fd (ws ?l0 w)" "nat (w_fd (ws ?l0 w)) < anfdmax ?l0"
      using ok0 w by (auto simp: loop_ok_def io_ok_def)
    let ?fd = "nat (w_fd (ws ?l0 w))"
    let ?l1 = "?l0\<lparr>anfd_head := (anfd_head ?l0)(?fd := wlist_del (anfd_head ?l0 ?fd) w)\<rparr>"
    let ?l' = "fd_change ?fd EV_ANFD_REIFY (ev_stop w ?l1)"
    have stop: "ev_io_stop w l = Inr ?l'" using False act by (simp add: ev_io_stop_def Let_def)
    have wsl: "ws ?l' = (ws ?l0)(w := (ws ?l0 w)\<lparr>active := 0\<rparr>)" by (simp add: ev_stop_def)
    have "pend_ok ?l'"
      using ok0 pend_ok_cong [of ?l' ?l0] by (simp add: loop_ok_def ev_stop_def)
    moreover have "tm_ok tm ?l'"
      by (rule tm_ok_active_io [of ?l' ?l0]) (use ok0 w in \<open>auto simp: loop_ok_def ev_stop_def\<close>)
    moreover have "io_ok tm ?l'"
      using ok0 act w unfolding loop_ok_def io_ok_def
      by (auto simp: ev_stop_def set_wlist_del distinct_wlist_del)
    ultimately show ?thesis
      using stop wsl by (auto simp: loop_ok_def watching_def pending_set_def clear_pending_frame same_conf_def)
  qed
qed

subsection \<open>Timers\<close>

lemma tm_ok_heap_active:
  assumes "tm_ok tm l" and "w \<in> heap_watchers (timers l) (timercnt l)"
  shows "tm w" "active (ws l w) \<noteq> 0"
  using assms by (auto simp: tm_ok_def heap_ok_def heap_indexed_def heap_watchers_def HEAP0_def)

definition timer_startable :: "'w \<Rightarrow> ('w, 'c, 't :: {linorder, zero}) ev_loop \<Rightarrow> bool" where
  "timer_startable w l \<longleftrightarrow>
     active (ws l w) = 0 \<and> 0 \<le> w_repeat (ws l w) \<and>
     EV_MINPRI \<le> priority (ws l w) \<and> priority (ws l w) \<le> EV_MAXPRI"

lemma tm_ok_from_heap:
  assumes "heap_ok (timers l) (\<lambda>w. active (ws l w)) (timercnt l)"
    and "\<And>e. e \<in># heap_entries (timers l) (timercnt l) \<Longrightarrow> tm (anhe_w e) \<and> anhe_at e = w_at (ws l (anhe_w e))"
    and "\<And>w. tm w \<Longrightarrow> active (ws l w) \<noteq> 0 \<Longrightarrow> w \<in> heap_watchers (timers l) (timercnt l)"
  shows "tm_ok tm l"
  unfolding tm_ok_def by (intro conjI ballI allI impI) (use assms heap_entries_index in blast)+

lemma tm_ok_entries:
  assumes "tm_ok tm l" and "e \<in># heap_entries (timers l) (timercnt l)"
  shows "tm (anhe_w e)" "anhe_at e = w_at (ws l (anhe_w e))" "active (ws l (anhe_w e)) \<noteq> 0"
  using assms by (auto simp: tm_ok_def heap_entries_def heap_ok_def heap_indexed_def HEAP0_def)

lemma on_heap_frame:
  "pending (ws (on_heap f l) v) = pending (ws l v)" "priority (ws (on_heap f l) v) = priority (ws l v)"
  "w_fd (ws (on_heap f l) v) = w_fd (ws l v)" "w_at (ws (on_heap f l) v) = w_at (ws l v)"
  "cb (ws (on_heap f l) v) = cb (ws l v)" "w_repeat (ws (on_heap f l) v) = w_repeat (ws l v)"
  "pendings (on_heap f l) = pendings l" "anfd_head (on_heap f l) = anfd_head l"
  "anfdmax (on_heap f l) = anfdmax l" "timercnt (on_heap f l) = timercnt l" "mn_now (on_heap f l) = mn_now l"
  "rfeeds (on_heap f l) = rfeeds l" "activecnt (on_heap f l) = activecnt l"
  "timers (on_heap f l) = fst (f (timers l, \<lambda>w. active (ws l w)))"
  "active (ws (on_heap f l) v) = snd (f (timers l, \<lambda>w. active (ws l w))) v"
  by (auto simp: on_heap_def split: prod.splits)

lemma ABSPRI_cong: "priority x = priority y \<Longrightarrow> ABSPRI x = ABSPRI y"
  by (simp add: ABSPRI_def)

text \<open>What putting a timer into the heap does to the back indices of the others.\<close>

lemma timer_put_in:
  assumes tmok: "tm_ok tm l" and s: "active (ws l w) = 0" and a0: "\<And>v. v \<noteq> w \<Longrightarrow> act0 v = active (ws l v)"
    and up: "upheap ((timers l)(timercnt l + HEAP0 := ANHE w t), act0) (timercnt l + HEAP0) = (h, act)"
  shows "heap_ok h act (Suc (timercnt l))"
    and "heap_entries h (Suc (timercnt l)) = add_mset (ANHE w t) (heap_entries (timers l) (timercnt l))"
    and "v \<in> heap_watchers h (Suc (timercnt l)) \<longleftrightarrow> v = w \<or> v \<in> heap_watchers (timers l) (timercnt l)"
    and "act v \<noteq> 0 \<longleftrightarrow> v = w \<or> active (ws l v) \<noteq> 0"
    and "v \<noteq> w \<Longrightarrow> \<not> tm v \<Longrightarrow> act v = active (ws l v)"
proof -
  let ?N = "timercnt l"
  have new: "w \<notin> heap_watchers (timers l) ?N" using tm_ok_heap_active(2) [OF tmok, of w] s by blast
  then have "act0 (anhe_w (timers l i)) = active (ws l (anhe_w (timers l i)))" if "i \<in> {HEAP0..<?N + HEAP0}" for i
    using that by (intro a0) (auto simp: heap_watchers_def)
  with tmok have hok: "heap_ok (timers l) act0 ?N" by (simp add: tm_ok_def heap_ok_def heap_indexed_def)
  note ins = upheap_insert [OF hok new up]
  show h: "heap_ok h act (Suc ?N)" by (rule ins(1))
  show ent: "heap_entries h (Suc ?N) = add_mset (ANHE w t) (heap_entries (timers l) ?N)" by (rule ins(2))
  show inheap: "v \<in> heap_watchers h (Suc ?N) \<longleftrightarrow> v = w \<or> v \<in> heap_watchers (timers l) ?N" for v
    using ent by (auto simp: heap_watchers_entries)
  show "act v \<noteq> 0 \<longleftrightarrow> v = w \<or> active (ws l v) \<noteq> 0" for v
  proof (cases "v = w \<or> v \<in> heap_watchers (timers l) ?N")
    case True
    then have "v \<in> heap_watchers h (Suc ?N)" using inheap [of v] by simp
    then have "act v \<noteq> 0" using h by (auto simp: heap_ok_def heap_indexed_def heap_watchers_def HEAP0_def)
    with True tm_ok_heap_active [OF tmok, of v] show ?thesis by blast
  next
    case False
    then show ?thesis using ins(3) [of v] a0 by auto
  qed
  assume v: "v \<noteq> w" "\<not> tm v"
  then have "v \<notin> heap_watchers (timers l) ?N" using tm_ok_heap_active [OF tmok, of v] by blast
  then show "act v = active (ws l v)" using ins(3) [of v] v(1) a0 by simp
qed

lemma ev_timer_start_ok:
  fixes l :: "('w, 'c, 't :: {linorder, plus, minus, zero}) ev_loop"
  assumes ok: "loop_ok tm l" and w: "tm w" "timer_startable w l"
  shows "\<exists>l'. ev_timer_start w l = Inr l' \<and> loop_ok tm l' \<and> watching l' = insert w (watching l)
    \<and> pending_set l' = pending_set l \<and> same_conf l l'
    \<and> heap_entries (timers l') (timercnt l') =
        add_mset (ANHE w (w_at (ws l w) + mn_now l)) (heap_entries (timers l) (timercnt l))"
proof -
  let ?N = "timercnt l" and ?at = "w_at (ws l w) + mn_now l"
  let ?l3 = "(ev_start w (timercnt l + HEAP0)
      ((upd_w w (\<lambda>x. x\<lparr>w_at := ?at\<rparr>) l)\<lparr>timercnt := timercnt l + 1\<rparr>))\<lparr>timers := (timers l)(?N + HEAP0 := ANHE w ?at)\<rparr>"
  let ?l' = "on_heap (\<lambda>st. upheap st (?N + HEAP0)) ?l3"
  have s: "active (ws l w) = 0" "pri_adjust (ws l w\<lparr>w_at := ?at\<rparr>) = ws l w\<lparr>w_at := ?at\<rparr>"
    using w(2) by (auto simp: timer_startable_def pri_adjust_id)
  have start: "ev_timer_start w l = Inr ?l'"
    using w(2) s by (simp add: ev_timer_start_def timer_startable_def Let_def ev_start_def)
  have ws3: "ws ?l3 = (ws l)(w := (ws l w)\<lparr>w_at := ?at, active := ?N + HEAP0\<rparr>)"
    using s by (simp add: ev_start_def)
  have tmok: "tm_ok tm l" using ok by (simp add: loop_ok_def)
  obtain h act where up: "upheap ((timers l)(?N + HEAP0 := ANHE w ?at), \<lambda>v. active (ws ?l3 v)) (?N + HEAP0) = (h, act)"
    by fastforce
  have a0: "v \<noteq> w \<Longrightarrow> active (ws ?l3 v) = active (ws l v)" for v unfolding ws3 by simp
  note put = timer_put_in [OF tmok s(1) a0 up]
  have l': "timers ?l' = h" "\<And>v. active (ws ?l' v) = act v" "timercnt ?l' = Suc ?N"
    using up by (simp_all add: on_heap_frame ev_start_def)
  have "tm_ok tm ?l'"
  proof (rule tm_ok_from_heap)
    show "heap_ok (timers ?l') (\<lambda>w. active (ws ?l' w)) (timercnt ?l')" using put(1) l' by simp
    fix v assume "tm v" "active (ws ?l' v) \<noteq> 0"
    then show "v \<in> heap_watchers (timers ?l') (timercnt ?l')"
      using put(3,4) [of v] l' tmok by (auto simp: tm_ok_def)
  next
    fix e assume "e \<in># heap_entries (timers ?l') (timercnt ?l')"
    then have "e = ANHE w ?at \<or> e \<in># heap_entries (timers l) ?N" using put(2) l' by auto
    then show "tm (anhe_w e) \<and> anhe_at e = w_at (ws ?l' (anhe_w e))"
      using w(1) ws3 tm_ok_entries [OF tmok, of e] s by (auto simp: on_heap_frame)
  qed
  moreover have "io_ok tm ?l'"
  proof (rule io_ok_transfer [of tm l])
    fix v assume v: "\<not> tm v"
    with w(1) have "v \<noteq> w" by auto
    with v show "active (ws ?l' v) = active (ws l v)" "w_fd (ws ?l' v) = w_fd (ws l v)"
      using l'(2) put(5) ws3 by (simp_all only: on_heap_frame) (auto simp: ev_start_def)
  qed (use ok in \<open>simp_all add: loop_ok_def on_heap_frame ev_start_def\<close>)
  moreover have "pend_ok ?l'"
    using ok pend_ok_cong [of ?l' l] s
    by (auto simp: loop_ok_def on_heap_frame ev_start_def ABSPRI_def)
  moreover have "watching ?l' = insert w (watching l)"
    using put(4) l' by (auto simp: watching_def)
  moreover have "pending_set ?l' = pending_set l" "same_conf l ?l'"
    using ws3 by (auto simp: pending_set_def on_heap_frame same_conf_def)
  ultimately show ?thesis using start put(2) l' by (auto simp: loop_ok_def)
qed

lemma remove1_filter:
  "distinct (map f xs) \<Longrightarrow> x \<in> set xs \<Longrightarrow> remove1 x xs = filter (\<lambda>e. f e \<noteq> f x) xs"
proof (induction xs)
  case (Cons y ys)
  show ?case
  proof (cases "x = y")
    case True
    then have "\<forall>e\<in>set ys. f e \<noteq> f x" using Cons.prems(1) by (auto simp: image_iff)
    then have "filter (\<lambda>e. f e \<noteq> f x) ys = ys" by (simp add: filter_id_conv)
    with True show ?thesis by simp
  next
    case False
    with Cons show ?thesis by auto
  qed
qed simp

lemma heap_entries_filter:
  assumes "heap_indexed h act N" and "k \<in> {HEAP0..<N + HEAP0}"
  shows "heap_entries h N - {#h k#} = filter_mset (\<lambda>e. anhe_w e \<noteq> anhe_w (h k)) (heap_entries h N)"
proof -
  let ?xs = "map h [HEAP0..<N + HEAP0]"
  have "distinct (map anhe_w ?xs)"
    using heap_indexed_inj [OF assms(1)] by (auto simp: distinct_map inj_on_def)
  then have "remove1 (h k) ?xs = filter (\<lambda>e. anhe_w e \<noteq> anhe_w (h k)) ?xs"
    using assms(2) by (intro remove1_filter) auto
  then have "mset (remove1 (h k) ?xs) = mset (filter (\<lambda>e. anhe_w e \<noteq> anhe_w (h k)) ?xs)" by simp
  then show ?thesis by (simp only: heap_entries_def mset_remove1 mset_filter)
qed

text \<open>What the array part of \<open>ev_timer_stop\<close> does to the heap.\<close>

lemma heap_take_out:
  assumes ok: "heap_ok h act (Suc M)" and k: "k \<in> {HEAP0..<Suc M + HEAP0}"
    and r: "(h', act') = (if k < M + HEAP0 then adjustheap (h(k := h (M + HEAP0)), act) M k else (h, act))"
  shows "heap_ok h' act' M"
    and "heap_entries h' M = filter_mset (\<lambda>e. anhe_w e \<noteq> anhe_w (h k)) (heap_entries h (Suc M))"
    and "\<And>v. v \<notin> heap_watchers h (Suc M) - {anhe_w (h k)} \<Longrightarrow> act' v = act v"
proof -
  have f: "heap_entries h (Suc M) - {#h k#} =
      filter_mset (\<lambda>e. anhe_w e \<noteq> anhe_w (h k)) (heap_entries h (Suc M))"
    using ok k by (intro heap_entries_filter) (auto simp: heap_ok_def)
  have *: "heap_ok h' act' M \<and> heap_entries h' M = heap_entries h (Suc M) - {#h k#} \<and>
    (\<forall>v. v \<notin> heap_watchers h (Suc M) - {anhe_w (h k)} \<longrightarrow> act' v = act v)"
  proof (cases "k < M + HEAP0")
    case True
    then have k1: "k \<in> {HEAP0..<M + HEAP0}" using k by auto
    have "adjustheap (h(k := h (M + HEAP0)), act) M k = (h', act')" using r True by simp
    from heap_delete [OF ok k1 this] show ?thesis by simp
  next
    case False
    then have "k = M + HEAP0" using k by auto
    with r False ok heap_ok_less [of h act "Suc M" M] show ?thesis by (simp add: heap_entries_last)
  qed
  then show "heap_ok h' act' M" by blast
  from * f show "heap_entries h' M = filter_mset (\<lambda>e. anhe_w e \<noteq> anhe_w (h k)) (heap_entries h (Suc M))"
    by simp
  show "\<And>v. v \<notin> heap_watchers h (Suc M) - {anhe_w (h k)} \<Longrightarrow> act' v = act v" using * by blast
qed

lemma ev_timer_stop_inactive:
  fixes l :: "('w, 'c, 't :: {linorder, plus, minus, zero}) ev_loop"
  assumes ok: "loop_ok tm l" and z: "active (ws (clear_pending w l) w) = 0"
  shows "ev_timer_stop w l = Inr (clear_pending w l)" and "w \<notin> watching l"
    and "filter_mset (\<lambda>e. anhe_w e \<noteq> w) (heap_entries (timers l) (timercnt l)) = heap_entries (timers l) (timercnt l)"
proof -
  have tm0: "tm_ok tm (clear_pending w l)" using clear_pending_ok [OF ok] by (simp add: loop_ok_def)
  have "\<forall>e\<in>#heap_entries (timers l) (timercnt l). anhe_w e \<noteq> w"
  proof
    fix e assume "e \<in># heap_entries (timers l) (timercnt l)"
    then have "active (ws (clear_pending w l) (anhe_w e)) \<noteq> 0"
      using tm_ok_entries(3) [OF tm0, of e] by (simp add: clear_pending_frame)
    with z show "anhe_w e \<noteq> w" by auto
  qed
  then show "filter_mset (\<lambda>e. anhe_w e \<noteq> w) (heap_entries (timers l) (timercnt l)) = heap_entries (timers l) (timercnt l)"
    by (simp add: filter_mset_eq_conv)
  show "ev_timer_stop w l = Inr (clear_pending w l)" using z by (simp add: ev_timer_stop_def Let_def)
  show "w \<notin> watching l" using z by (simp add: watching_def clear_pending_frame)
qed

text \<open>The end of \<open>ev_timer_stop\<close>, when the timer has been taken out of the heap of \<open>l0\<close>, which gave \<open>l2\<close>.\<close>

lemma timer_taken_out:
  fixes l0 l2 :: "('w, 'c, 't :: {linorder, plus, minus, zero}) ev_loop"
  assumes ok0: "loop_ok tm l0" and w: "tm w" "pending (ws l0 w) = 0" and cnt: "timercnt l0 = Suc M" "timercnt l2 = M"
    and heap: "heap_ok (timers l2) (\<lambda>v. active (ws l2 v)) M"
    and ent: "heap_entries (timers l2) M = filter_mset (\<lambda>e. anhe_w e \<noteq> w) (heap_entries (timers l0) (Suc M))"
    and out: "\<And>v. v \<notin> heap_watchers (timers l0) (Suc M) \<Longrightarrow> active (ws l2 v) = active (ws l0 v)"
    and keep: "\<And>v. pending (ws l2 v) = pending (ws l0 v)" "\<And>v. priority (ws l2 v) = priority (ws l0 v)"
      "\<And>v. w_fd (ws l2 v) = w_fd (ws l0 v)" "\<And>v. w_at (ws l2 v) = w_at (ws l0 v)" "pendings l2 = pendings l0"
      "anfd_head l2 = anfd_head l0" "anfdmax l2 = anfdmax l0"
    and l': "l' = ev_stop w (upd_w w (\<lambda>x. x\<lparr>w_at := w_at x - mn_now l2\<rparr>) l2)"
  shows "loop_ok tm l'" and "watching l' = watching l0 - {w}" and "pending_set l' = pending_set l0"
    and "heap_entries (timers l') (timercnt l') = filter_mset (\<lambda>e. anhe_w e \<noteq> w) (heap_entries (timers l0) (Suc M))"
proof -
  have tm0: "tm_ok tm l0" using ok0 by (simp add: loop_ok_def)
  show ent': "heap_entries (timers l') (timercnt l') = filter_mset (\<lambda>e. anhe_w e \<noteq> w) (heap_entries (timers l0) (Suc M))"
    using ent cnt by (simp add: l' ev_stop_def)
  have inh: "v \<in> heap_watchers (timers l2) M \<longleftrightarrow> v \<noteq> w \<and> v \<in> heap_watchers (timers l0) (Suc M)" for v
    using ent by (auto simp: heap_watchers_entries)
  have act_iff: "active (ws l2 v) \<noteq> 0 \<longleftrightarrow> active (ws l0 v) \<noteq> 0" if "v \<noteq> w" for v
  proof (cases "v \<in> heap_watchers (timers l0) (Suc M)")
    case True
    then have "v \<in> heap_watchers (timers l2) M" using that inh by simp
    then have "active (ws l2 v) \<noteq> 0"
      using heap by (auto simp: heap_ok_def heap_indexed_def heap_watchers_def HEAP0_def)
    with True tm_ok_heap_active(2) [OF tm0, of v] cnt show ?thesis by simp
  qed (use out in auto)
  have io_act: "active (ws l2 v) = active (ws l0 v)" if "\<not> tm v" for v
    using out [of v] tm_ok_heap_active(1) [OF tm0, of v] cnt that by auto
  have "tm_ok tm l'"
  proof (rule tm_ok_from_heap)
    have "w \<notin> heap_watchers (timers l2) M" using inh by simp
    then show "heap_ok (timers l') (\<lambda>w. active (ws l' w)) (timercnt l')"
      using heap cnt by (auto simp: l' ev_stop_def heap_ok_def heap_indexed_def heap_watchers_def)
    fix v assume "tm v" "active (ws l' v) \<noteq> 0"
    then show "v \<in> heap_watchers (timers l') (timercnt l')"
      using tm0 cnt inh [of v] act_iff [of v] by (auto simp: l' ev_stop_def tm_ok_def split: if_splits)
  next
    fix e assume "e \<in># heap_entries (timers l') (timercnt l')"
    then have "e \<in># heap_entries (timers l0) (Suc M)" "anhe_w e \<noteq> w" using ent' by auto
    then show "tm (anhe_w e) \<and> anhe_at e = w_at (ws l' (anhe_w e))"
      using tm_ok_entries [OF tm0, of e] cnt keep(4) by (simp add: l' ev_stop_def)
  qed
  moreover have "io_ok tm l'"
    by (rule io_ok_transfer [of tm l0]) (use ok0 keep w io_act in \<open>auto simp: loop_ok_def l' ev_stop_def\<close>)
  moreover have "pend_ok l'" using ok0 pend_ok_cong [of l' l0] keep by (auto simp: loop_ok_def l' ev_stop_def ABSPRI_def)
  ultimately show "loop_ok tm l'" by (simp add: loop_ok_def)
  show "watching l' = watching l0 - {w}" using act_iff by (auto simp: watching_def l' ev_stop_def split: if_splits)
  show "pending_set l' = pending_set l0" using keep(1) by (auto simp: pending_set_def l' ev_stop_def)
qed

lemma ev_timer_stop_ok:
  fixes l :: "('w, 'c, 't :: {linorder, plus, minus, zero}) ev_loop"
  assumes ok: "loop_ok tm l" and w: "tm w"
  shows "\<exists>l'. ev_timer_stop w l = Inr l' \<and> loop_ok tm l' \<and> watching l' = watching l - {w}
    \<and> pending_set l' = pending_set l - {w} \<and> same_conf l l'
    \<and> mn_now l' = mn_now l \<and> rfeeds l' = rfeeds l
    \<and> heap_entries (timers l') (timercnt l') =
        filter_mset (\<lambda>e. anhe_w e \<noteq> w) (heap_entries (timers l) (timercnt l))"
proof -
  let ?l0 = "clear_pending w l"
  have ok0: "loop_ok tm ?l0" using ok by (rule clear_pending_ok)
  show ?thesis
  proof (cases "active (ws ?l0 w) = 0")
    case True
    with ev_timer_stop_inactive [OF ok True] ok0 show ?thesis
      by (auto simp: clear_pending_sets clear_pending_frame same_conf_def)
  next
    case False
    have tm0: "tm_ok tm ?l0" using ok0 by (simp add: loop_ok_def)
    then have "w \<in> heap_watchers (timers ?l0) (timercnt ?l0)" using w False by (simp add: tm_ok_def)
    then have k: "active (ws ?l0 w) \<in> {HEAP0..<timercnt ?l0 + HEAP0}" "anhe_w (timers ?l0 (active (ws ?l0 w))) = w"
      using tm0 by (auto simp: tm_ok_def heap_ok_def heap_indexed_def heap_watchers_def)
    then obtain M where M: "timercnt ?l0 = Suc M" by (cases "timercnt ?l0") auto
    let ?k = "active (ws ?l0 w)" and ?h = "timers ?l0" and ?act = "\<lambda>v. active (ws ?l0 v)"
    let ?l1 = "?l0\<lparr>timercnt := M\<rparr>"
    define l2 where "l2 = (if ?k < M + HEAP0 then on_heap (\<lambda>st. adjustheap st M ?k)
        (?l1\<lparr>timers := ?h(?k := ?h (M + HEAP0))\<rparr>) else ?l1)"
    define l' where "l' = ev_stop w (upd_w w (\<lambda>x. x\<lparr>w_at := w_at x - mn_now l2\<rparr>) l2)"
    have stop: "ev_timer_stop w l = Inr l'" using False k M by (simp add: ev_timer_stop_def Let_def l'_def l2_def)
    obtain h' act' where r: "(h', act') =
        (if ?k < M + HEAP0 then adjustheap (?h(?k := ?h (M + HEAP0)), ?act) M ?k else (?h, ?act))"
      by (metis surj_pair)
    have l2: "timers l2 = h'" "\<And>v. active (ws l2 v) = act' v" "timercnt l2 = M"
      using r by (auto simp: l2_def on_heap_frame split: if_splits dest: arg_cong [where f = fst] arg_cong [where f = snd])
    have keep: "pending (ws l2 v) = pending (ws ?l0 v)" "priority (ws l2 v) = priority (ws ?l0 v)"
      "w_fd (ws l2 v) = w_fd (ws ?l0 v)" "w_at (ws l2 v) = w_at (ws ?l0 v)" "cb (ws l2 v) = cb (ws ?l0 v)"
      "w_repeat (ws l2 v) = w_repeat (ws ?l0 v)" "pendings l2 = pendings ?l0"
      "anfd_head l2 = anfd_head ?l0" "anfdmax l2 = anfdmax ?l0" "mn_now l2 = mn_now ?l0" "rfeeds l2 = rfeeds ?l0" for v
      by (simp_all add: l2_def on_heap_frame)
    have hok: "heap_ok ?h ?act (Suc M)" using tm0 M by (simp add: tm_ok_def)
    have k': "?k \<in> {HEAP0..<Suc M + HEAP0}" using k M by simp
    note del = heap_take_out [OF hok k' r, unfolded k(2)]
    have p0: "pending (ws ?l0 w) = 0" by (simp add: clear_pending_frame)
    note out = timer_taken_out [OF ok0 w p0 M l2(3) _ _ _ keep(1-4,7-9) l'_def]
    have "loop_ok tm l'" "watching l' = watching ?l0 - {w}" "pending_set l' = pending_set ?l0"
      "heap_entries (timers l') (timercnt l') = filter_mset (\<lambda>e. anhe_w e \<noteq> w) (heap_entries ?h (Suc M))"
      by (rule out; use del l2 in simp)+
    then show ?thesis using stop M keep
      by (auto simp: l'_def ev_stop_def clear_pending_sets clear_pending_frame same_conf_def watching_def)
  qed
qed

subsection \<open>Initialising watchers\<close>

lemma ev_io_init_ok:
  assumes "loop_ok tm l" and "\<not> tm w" and "w \<notin> watching l" and "w \<notin> pending_set l"
  shows "loop_ok tm (ev_io_init w f fd evs l)" "watching (ev_io_init w f fd evs l) = watching l"
    "pending_set (ev_io_init w f fd evs l) = pending_set l"
    "\<And>v. cb (ws (ev_io_init w f fd evs l) v) = (if v = w then f else cb (ws l v))"
    "\<And>v. w_repeat (ws (ev_io_init w f fd evs l) v) = w_repeat (ws l v)"
proof -
  let ?l = "ev_io_init w f fd evs l"
  have w0: "active (ws l w) = 0" "pending (ws l w) = 0"
    using assms(3,4) by (auto simp: watching_def pending_set_def)
  have "pend_ok ?l"
    using assms(1) w0 unfolding loop_ok_def pend_ok_def
    by (auto simp: ev_io_init_def ev_init_def)
  moreover have "io_ok tm ?l"
    using assms(1,2) w0 unfolding loop_ok_def io_ok_def by (auto simp: ev_io_init_def ev_init_def)
  moreover have "tm_ok tm ?l"
    by (rule tm_ok_active_io [of ?l l])
      (use assms(1,2) in \<open>auto simp: loop_ok_def ev_io_init_def ev_init_def\<close>)
  ultimately show "loop_ok tm ?l" by (simp add: loop_ok_def)
qed (use assms(3,4) in \<open>auto simp: watching_def pending_set_def ev_io_init_def ev_init_def\<close>)

lemma ev_timer_init_ok:
  assumes "loop_ok tm l" and "tm w" and "w \<notin> watching l" and "w \<notin> pending_set l"
  shows "loop_ok tm (ev_timer_init w f after rep l)" "watching (ev_timer_init w f after rep l) = watching l"
    "pending_set (ev_timer_init w f after rep l) = pending_set l"
    "\<And>v. cb (ws (ev_timer_init w f after rep l) v) = (if v = w then f else cb (ws l v))"
    "\<And>v. w_repeat (ws (ev_timer_init w f after rep l) v) = (if v = w then rep else w_repeat (ws l v))"
proof -
  let ?l = "ev_timer_init w f after rep l"
  have w0: "active (ws l w) = 0" "pending (ws l w) = 0"
    using assms(3,4) by (auto simp: watching_def pending_set_def)
  have tmok: "tm_ok tm l" using assms(1) by (simp add: loop_ok_def)
  have notin: "w \<notin> heap_watchers (timers l) (timercnt l)"
    using tm_ok_heap_active(2) [OF tmok, of w] w0 by blast
  have same: "timers ?l = timers l" "timercnt ?l = timercnt l" "\<And>v. active (ws ?l v) = active (ws l v)"
    "\<And>v. v \<noteq> w \<Longrightarrow> ws ?l v = ws l v" "anfd_head ?l = anfd_head l" "anfdmax ?l = anfdmax l"
    "\<And>v. w_fd (ws ?l v) = w_fd (ws l v)"
    using w0 by (auto simp: ev_timer_init_def ev_init_def)
  have "pend_ok ?l"
    using assms(1) w0 unfolding loop_ok_def pend_ok_def
    by (auto simp: ev_timer_init_def ev_init_def)
  moreover have "io_ok tm ?l"
    by (rule io_ok_transfer [of tm l]) (use assms(1,2) same in \<open>auto simp: loop_ok_def\<close>)
  moreover have "tm_ok tm ?l"
  proof (rule tm_ok_from_heap)
    show "heap_ok (timers ?l) (\<lambda>w. active (ws ?l w)) (timercnt ?l)" using tmok same by (simp add: tm_ok_def)
    fix e assume "e \<in># heap_entries (timers ?l) (timercnt ?l)"
    then have e: "e \<in># heap_entries (timers l) (timercnt l)" using same by simp
    then have "anhe_w e \<noteq> w" using notin by (auto simp: heap_watchers_entries)
    then show "tm (anhe_w e) \<and> anhe_at e = w_at (ws ?l (anhe_w e))"
      using tm_ok_entries [OF tmok e] same by simp
  next
    fix v assume "tm v" "active (ws ?l v) \<noteq> 0"
    then show "v \<in> heap_watchers (timers ?l) (timercnt ?l)" using tmok same by (simp add: tm_ok_def)
  qed
  ultimately show "loop_ok tm ?l" by (simp add: loop_ok_def)
qed (use assms(3,4) in \<open>auto simp: watching_def pending_set_def ev_timer_init_def ev_init_def\<close>)

subsection \<open>Feeding events\<close>

lemma feed_list_ok:
  "loop_ok tm l \<Longrightarrow> loop_ok tm (feed_list vs e l) \<and> watching (feed_list vs e l) = watching l \<and>
   pending_set (feed_list vs e l) = pending_set l \<union> set vs \<and>
   (\<forall>v. cb (ws (feed_list vs e l) v) = cb (ws l v) \<and> w_repeat (ws (feed_list vs e l) v) = w_repeat (ws l v))
   \<and> mn_now (feed_list vs e l) = mn_now l"
proof (induction vs arbitrary: l)
  case (Cons v vs)
  from feed_ok [OF Cons.prems, of v e] Cons.IH [of "ev_feed_event v e l"]
  show ?case by (auto simp: feed_sets feed_frame)
qed simp

lemma feed_matching_ok:
  "loop_ok tm l \<Longrightarrow> loop_ok tm (feed_matching vs e l) \<and> watching (feed_matching vs e l) = watching l \<and>
   pending_set (feed_matching vs e l) = pending_set l \<union> {v \<in> set vs. w_events (ws l v) AND e \<noteq> 0} \<and>
   (\<forall>v. cb (ws (feed_matching vs e l) v) = cb (ws l v) \<and>
      w_repeat (ws (feed_matching vs e l) v) = w_repeat (ws l v))
   \<and> mn_now (feed_matching vs e l) = mn_now l"
proof (induction vs arbitrary: l)
  case (Cons v vs)
  let ?l = "if w_events (ws l v) AND e \<noteq> 0 then ev_feed_event v (w_events (ws l v) AND e) l else l"
  have "loop_ok tm ?l" using Cons.prems feed_ok by auto
  from Cons.IH [OF this] show ?case by (auto simp: Let_def feed_sets feed_frame)
qed simp

text \<open>An event of the kernel makes pending exactly the watchers of that descriptor that want it.\<close>

lemma fd_event_ok:
  assumes "loop_ok tm l"
  shows "loop_ok tm (fd_event fd e l)" "watching (fd_event fd e l) = watching l"
    "pending_set (fd_event fd e l) = pending_set l \<union>
       (if anfd_reify l fd = 0 then
          {w. \<not> tm w \<and> w \<in> watching l \<and> w_fd (ws l w) = int fd \<and> w_events (ws l w) AND e \<noteq> 0}
        else {})"
    "\<And>v. cb (ws (fd_event fd e l) v) = cb (ws l v)"
proof -
  have "set (anfd_head l fd) = {w. \<not> tm w \<and> w \<in> watching l \<and> w_fd (ws l w) = int fd}"
    using assms unfolding loop_ok_def io_ok_def watching_def by auto
  with feed_matching_ok [OF assms, of "anfd_head l fd" e] assms
  show "loop_ok tm (fd_event fd e l)" "watching (fd_event fd e l) = watching l"
    "pending_set (fd_event fd e l) = pending_set l \<union>
       (if anfd_reify l fd = 0 then
          {w. \<not> tm w \<and> w \<in> watching l \<and> w_fd (ws l w) = int fd \<and> w_events (ws l w) AND e \<noteq> 0}
        else {})"
    "\<And>v. cb (ws (fd_event fd e l) v) = cb (ws l v)"
    by (auto simp: fd_event_def fd_event_nocheck_def)
qed

subsection \<open>Expired timers\<close>

lemma rfeeds_frame:
  "rfeeds (ev_feed_event w e l) = rfeeds l"
  "rfeeds (feed_list vs e l) = rfeeds l"
  "rfeeds (feed_matching vs e l) = rfeeds l"
  "ev_io_stop w l = Inr l' \<Longrightarrow> rfeeds l' = rfeeds l"
  "pending_pop pri l = Some (p, l') \<Longrightarrow> rfeeds l' = rfeeds l"
proof -
  show f: "rfeeds (ev_feed_event w e l) = rfeeds l" for w e l by (simp add: ev_feed_event_def Let_def)
  show "rfeeds (feed_list vs e l) = rfeeds l" by (induction vs arbitrary: l) (simp_all add: f)
  show "rfeeds (feed_matching vs e l) = rfeeds l"
    by (induction vs arbitrary: l) (simp_all add: f Let_def)
  show "ev_io_stop w l = Inr l' \<Longrightarrow> rfeeds l' = rfeeds l"
    by (auto simp: ev_io_stop_def Let_def ev_stop_def clear_pending_frame bind_res_Inr_iff split: if_splits)
  show "pending_pop pri l = Some (p, l') \<Longrightarrow> rfeeds l' = rfeeds l"
    by (auto simp: pending_pop_def Let_def split: if_splits option.splits)
qed

definition expired :: "('w, 'c, 't :: linorder) ev_loop \<Rightarrow> 'w set" where
  "expired l = anhe_w ` {e. e \<in># heap_entries (timers l) (timercnt l) \<and> anhe_at e < mn_now l}"

definition oneshot :: "('w, 'c, 't :: {linorder, zero}) ev_loop \<Rightarrow> bool" where
  "oneshot l \<longleftrightarrow> (\<forall>w\<in>heap_watchers (timers l) (timercnt l). w_repeat (ws l w) = 0)"

lemma expired_watching:
  assumes "loop_ok tm l"
  shows "expired l = {w. tm w \<and> w \<in> watching l \<and> w_at (ws l w) < mn_now l}"
proof -
  have tmok: "tm_ok tm l" using assms by (simp add: loop_ok_def)
  have "w \<in> expired l \<longleftrightarrow> w \<in> heap_watchers (timers l) (timercnt l) \<and> w_at (ws l w) < mn_now l" for w
  proof
    assume "w \<in> expired l"
    then obtain e where "e \<in># heap_entries (timers l) (timercnt l)" "anhe_at e < mn_now l" "w = anhe_w e"
      by (auto simp: expired_def)
    with tm_ok_entries(2) [OF tmok, of e]
    show "w \<in> heap_watchers (timers l) (timercnt l) \<and> w_at (ws l w) < mn_now l"
      by (simp add: heap_watchers_entries)
  next
    assume a: "w \<in> heap_watchers (timers l) (timercnt l) \<and> w_at (ws l w) < mn_now l"
    then obtain e where e: "e \<in># heap_entries (timers l) (timercnt l)" "w = anhe_w e"
      by (auto simp: heap_watchers_entries)
    with a tm_ok_entries(2) [OF tmok, of e] show "w \<in> expired l" by (simp add: expired_def)
  qed
  moreover have "w \<in> heap_watchers (timers l) (timercnt l) \<longleftrightarrow> tm w \<and> w \<in> watching l" for w
    using tmok tm_ok_heap_active [OF tmok, of w] unfolding tm_ok_def watching_def by blast
  ultimately show ?thesis by blast
qed

lemma not_expired:
  assumes "tm_ok tm l" and "\<not> timer_expired l"
  shows "expired l = {}"
proof -
  have "mn_now l \<le> anhe_at (timers l i)" if "i \<in> {HEAP0..<timercnt l + HEAP0}" for i
  proof -
    have "timercnt l \<noteq> 0" using that by auto
    with assms(2) have "mn_now l \<le> anhe_at (timers l HEAP0)" by (auto simp: timer_expired_def)
    also have "\<dots> \<le> anhe_at (timers l i)"
      using assms(1) heap_ordered_root [of "timers l" "timercnt l" i] that
      unfolding tm_ok_def heap_ok_def by blast
    finally show ?thesis .
  qed
  then show ?thesis by (force simp: expired_def heap_entries_def)
qed

lemma timers_reify_one_ok:
  fixes l :: "('w, 'c, 't :: {linorder, plus, minus, zero}) ev_loop"
  assumes ok: "loop_ok tm l" and one: "oneshot l" and ex: "timer_expired l"
  shows "\<exists>l' w. timers_reify_one l = Inr l' \<and> loop_ok tm l' \<and> oneshot l' \<and> w \<in> expired l \<and>
    watching l' = watching l - {w} \<and> pending_set l' = pending_set l - {w} \<and>
    rfeeds l' = rfeeds l @ [w] \<and> expired l' = expired l - {w} \<and> timercnt l' < timercnt l \<and>
    same_conf l l'"
proof -
  let ?w = "anhe_w (timers l HEAP0)"
  have root: "HEAP0 \<in> {HEAP0..<timercnt l + HEAP0}" "anhe_at (timers l HEAP0) < mn_now l"
    using ex by (auto simp: timer_expired_def)
  have e: "timers l HEAP0 \<in># heap_entries (timers l) (timercnt l)" using root(1) by (rule heap_entries_index)
  have tmok: "tm_ok tm l" using ok by (simp add: loop_ok_def)
  have inh: "?w \<in> heap_watchers (timers l) (timercnt l)" using e by (auto simp: heap_watchers_entries)
  from ev_timer_stop_ok [OF ok tm_ok_entries(1) [OF tmok e]] obtain l1
    where l1: "ev_timer_stop ?w l = Inr l1" "loop_ok tm l1" "watching l1 = watching l - {?w}"
      "pending_set l1 = pending_set l - {?w}" "same_conf l l1"
      "mn_now l1 = mn_now l" "rfeeds l1 = rfeeds l"
      "heap_entries (timers l1) (timercnt l1) =
        filter_mset (\<lambda>e. anhe_w e \<noteq> ?w) (heap_entries (timers l) (timercnt l))" by blast
  let ?l' = "feed_reverse ?w l1"
  have "timers_reify_one l = Inr ?l'"
    using one inh l1(1) by (simp add: timers_reify_one_def Let_def oneshot_def)
  moreover have "loop_ok tm ?l'"
    using l1(2) pend_ok_cong [of ?l' l1] io_ok_cong [of ?l' l1 tm] tm_ok_cong [of ?l' l1 tm]
    by (simp add: loop_ok_def feed_reverse_def)
  moreover have "oneshot ?l'"
    using one l1(5,8) by (auto simp: oneshot_def feed_reverse_def heap_watchers_entries same_conf_def)
  moreover have "?w \<in> expired l" using e root(2) by (auto simp: expired_def)
  moreover have "watching ?l' = watching l - {?w}" "pending_set ?l' = pending_set l - {?w}"
    using l1(3,4) by (auto simp: watching_def pending_set_def feed_reverse_def)
  moreover have "rfeeds ?l' = rfeeds l @ [?w]" using l1(7) by (simp add: feed_reverse_def)
  moreover have "expired ?l' = expired l - {?w}"
    using l1(6,8) by (auto simp: expired_def feed_reverse_def)
  moreover have "timercnt ?l' < timercnt l"
  proof -
    let ?M = "heap_entries (timers l) (timercnt l)"
    have "timers l HEAP0 \<notin># filter_mset (\<lambda>e. anhe_w e \<noteq> ?w) ?M" by simp
    with e have "filter_mset (\<lambda>e. anhe_w e \<noteq> ?w) ?M \<noteq> ?M" by metis
    then have "filter_mset (\<lambda>e. anhe_w e \<noteq> ?w) ?M \<subset># ?M"
      using multiset_filter_subset [of "\<lambda>e. anhe_w e \<noteq> ?w" ?M] by (simp add: subset_mset.less_le)
    from mset_subset_size [OF this] have "timercnt l1 < timercnt l"
      using l1(8) [symmetric] by simp
    then show ?thesis by (simp add: feed_reverse_def)
  qed
  moreover have "same_conf l ?l'" using l1(5) by (simp add: feed_reverse_def same_conf_def)
  ultimately show ?thesis by blast
qed

lemma timers_reify_loop_ok:
  fixes l :: "('w, 'c, 't :: {linorder, plus, minus, zero}) ev_loop"
  assumes "loop_ok tm l" and "oneshot l" and "timer_expired l"
  shows "\<exists>l'. timers_reify_loop l = Some (Inr l') \<and> loop_ok tm l' \<and> oneshot l' \<and>
    watching l' = watching l - expired l \<and> pending_set l' = pending_set l - expired l \<and>
    set (rfeeds l') = set (rfeeds l) \<union> expired l \<and> expired l' = {} \<and>
    same_conf l l'"
  using assms
proof (induction "timercnt l" arbitrary: l rule: less_induct)
  case less
  from timers_reify_one_ok [OF less.prems] obtain l1 w
    where l1: "timers_reify_one l = Inr l1" "loop_ok tm l1" "oneshot l1" "w \<in> expired l"
      "watching l1 = watching l - {w}" "pending_set l1 = pending_set l - {w}" "rfeeds l1 = rfeeds l @ [w]"
      "expired l1 = expired l - {w}" "timercnt l1 < timercnt l" "same_conf l l1" by blast
  show ?case
  proof (cases "timer_expired l1")
    case True
    from less.hyps [OF l1(9,2,3) True] obtain l' where "timers_reify_loop l1 = Some (Inr l')"
      "loop_ok tm l'" "oneshot l'" "watching l' = watching l1 - expired l1"
      "pending_set l' = pending_set l1 - expired l1"
      "set (rfeeds l') = set (rfeeds l1) \<union> expired l1" "expired l' = {}"
      "same_conf l1 l'" by blast
    with l1 True show ?thesis by (subst timers_reify_loop.simps) (auto simp: same_conf_def)
  next
    case False
    then have "expired l1 = {}" using l1(2) not_expired by (auto simp: loop_ok_def)
    with l1 False show ?thesis by (subst timers_reify_loop.simps) (auto simp: same_conf_def)
  qed
qed

lemma rfeeds_clear:
  "loop_ok tm l \<Longrightarrow> loop_ok tm (l\<lparr>rfeeds := xs\<rparr>)"
  "watching (l\<lparr>rfeeds := xs\<rparr>) = watching l" "pending_set (l\<lparr>rfeeds := xs\<rparr>) = pending_set l"
  using pend_ok_cong [of "l\<lparr>rfeeds := xs\<rparr>" l] io_ok_cong [of "l\<lparr>rfeeds := xs\<rparr>" l tm]
    tm_ok_cong [of "l\<lparr>rfeeds := xs\<rparr>" l tm]
  by (simp_all add: loop_ok_def watching_def pending_set_def)

lemma timers_reify_ok:
  fixes l :: "('w, 'c, 't :: {linorder, plus, minus, zero}) ev_loop"
  assumes "loop_ok tm l" and "oneshot l" and "rfeeds l = []"
  shows "\<exists>l'. timers_reify l = Some (Inr l') \<and> loop_ok tm l' \<and>
    watching l' = watching l - expired l \<and> pending_set l' = pending_set l \<union> expired l \<and>
    same_conf l l' \<and> rfeeds l' = []"
proof (cases "timer_expired l")
  case True
  from timers_reify_loop_ok [OF assms(1,2) True] obtain l1 where l1: "timers_reify_loop l = Some (Inr l1)"
    "loop_ok tm l1" "watching l1 = watching l - expired l" "pending_set l1 = pending_set l - expired l"
    "set (rfeeds l1) = expired l" "same_conf l l1" using assms(3) by auto
  note f = feed_list_ok [OF rfeeds_clear(1) [OF l1(2), of "[]"], of "rev (rfeeds l1)" EV_TIMER]
  with l1 True show ?thesis
    by (auto simp: timers_reify_def feed_reverse_done_def rfeeds_clear same_conf_def rfeeds_frame)
next
  case False
  then have "expired l = {}" using assms(1) not_expired by (auto simp: loop_ok_def)
  with False assms(1,3) show ?thesis by (simp add: timers_reify_def same_conf_def)
qed

subsection \<open>Broken descriptors\<close>

lemma fd_kill_ok:
  assumes "loop_ok tm l"
  shows "\<exists>l'. fd_kill fd l = Some (Inr l') \<and> loop_ok tm l' \<and>
    watching l' = watching l - set (anfd_head l fd) \<and> pending_set l' = pending_set l \<union> set (anfd_head l fd) \<and>
    same_conf l l' \<and> rfeeds l' = rfeeds l"
  using assms
proof (induction "length (anfd_head l fd)" arbitrary: l)
  case 0
  then show ?case by (subst fd_kill.simps) (simp add: same_conf_def)
next
  case (Suc n)
  then obtain w rest where hd: "anfd_head l fd = w # rest" by (cases "anfd_head l fd") auto
  have io: "io_ok tm l" using Suc.prems by (simp add: loop_ok_def)
  have w: "\<not> tm w" "active (ws l w) = 1" "w_fd (ws l w) = int fd" "w \<notin> set rest"
    using io hd unfolding io_ok_def by (metis list.set_intros(1) distinct.simps(2))+
  from ev_io_stop_ok [OF Suc.prems w(1)] obtain l1 where l1: "ev_io_stop w l = Inr l1" "loop_ok tm l1"
    "watching l1 = watching l - {w}" "pending_set l1 = pending_set l - {w}"
    "same_conf l l1" by blast
  let ?l2 = "ev_feed_event w (EV_ERROR OR EV_READ OR EV_WRITE) l1"
  have hd2: "anfd_head ?l2 fd = rest"
    using l1(1) w hd by (auto simp: ev_io_stop_def Let_def clear_pending_frame ev_stop_def feed_frame
        bind_res_Inr_iff split: if_splits)
  from Suc.hyps(1) [of ?l2] Suc.hyps(2) hd hd2 feed_ok [OF l1(2)]
  obtain l' where l': "fd_kill fd ?l2 = Some (Inr l')" "loop_ok tm l'"
    "watching l' = watching ?l2 - set rest" "pending_set l' = pending_set ?l2 \<union> set rest"
    "same_conf ?l2 l'" "rfeeds l' = rfeeds ?l2" by auto
  show ?case
    using l' hd l1 rfeeds_frame(4) [OF l1(1)]
    by (subst fd_kill.simps) (auto simp: feed_sets feed_frame same_conf_def rfeeds_frame)
qed

subsection \<open>What a callback is told\<close>

text \<open>
  The events of a pending entry: a timer is told \<open>EV_TIMER\<close>; a watcher of a descriptor is told
  an error, or some of the events it asked for.
\<close>

definition ev_valid :: "('w \<Rightarrow> bool) \<Rightarrow> events \<Rightarrow> 'w \<Rightarrow> events \<Rightarrow> bool" where
  "ev_valid tm m w e \<longleftrightarrow> (if tm w then e = EV_TIMER else e AND EV_ERROR \<noteq> 0 \<or> e \<noteq> 0 \<and> e AND m = e)"

definition ev_ok :: "('w \<Rightarrow> bool) \<Rightarrow> ('w, 'c, 't) ev_loop \<Rightarrow> bool" where
  "ev_ok tm l \<longleftrightarrow>
     (\<forall>pri w e. (Some w, e) \<in> set (pendings l pri) \<longrightarrow> ev_valid tm (w_events (ws l w)) w e)"

lemma word_or_zero: "(a :: 'a :: len word) OR b = 0 \<longleftrightarrow> a = 0 \<and> b = 0"
  by (metis or_eq_0_iff)

lemma ev_valid_or:
  assumes "ev_valid tm m w a" and "ev_valid tm m w b"
  shows "ev_valid tm m w (a OR b)"
  using assms
  by (auto simp: ev_valid_def bit.conj_disj_distrib2 word_or_zero split: if_splits)

lemma feed_ev_ok:
  assumes "ev_ok tm l" and "pend_ok l" and "ev_valid tm (w_events (ws l w)) w e"
  shows "ev_ok tm (ev_feed_event w e l)"
proof (cases "pending (ws l w) = 0")
  case True
  with assms(1,3) show ?thesis
    by (auto simp: ev_ok_def ev_feed_event_def Let_def split: if_splits)
next
  case False
  let ?pri = "ABSPRI (ws l w)" and ?i = "pending (ws l w) - 1"
  note slot = pend_ok_slot [OF assms(2) False]
  have i: "?i < length (pendings l ?pri)" using slot False by auto
  have "(Some w, snd (pendings l ?pri ! ?i)) \<in> set (pendings l ?pri)"
    using slot i by (metis nth_mem prod.collapse)
  then have "ev_valid tm (w_events (ws l w)) w (snd (pendings l ?pri ! ?i))"
    using assms(1) by (simp add: ev_ok_def)
  from ev_valid_or [OF this assms(3)] have v:
    "ev_valid tm (w_events (ws l w)) w (snd (pendings l ?pri ! ?i) OR e)" .
  have sub: "set ((pendings l ?pri)[?i := (fst (pendings l ?pri ! ?i), snd (pendings l ?pri ! ?i) OR e)])
      \<subseteq> insert (Some w, snd (pendings l ?pri ! ?i) OR e) (set (pendings l ?pri))"
    using set_update_subset_insert [of "pendings l ?pri" ?i] slot by metis
  show ?thesis
    unfolding ev_ok_def
  proof (intro allI impI)
    fix pri v d assume "(Some v, d) \<in> set (pendings (ev_feed_event w e l) pri)"
    then have "(v = w \<and> d = snd (pendings l ?pri ! ?i) OR e) \<or> (Some v, d) \<in> set (pendings l pri)"
      using sub False by (auto simp: ev_feed_event_def Let_def split: if_splits)
    then show "ev_valid tm (w_events (ws (ev_feed_event w e l) v)) v d"
      using v assms(1) by (auto simp: feed_frame ev_ok_def)
  qed
qed

lemma clear_pending_ev_ok:
  assumes "ev_ok tm l"
  shows "ev_ok tm (clear_pending w l)"
proof -
  have "(Some v, d) \<in> set (pendings (clear_pending w l) pri) \<Longrightarrow> (Some v, d) \<in> set (pendings l pri)" for v d pri
    using set_update_subset_insert [of "pendings l (ABSPRI (ws l w))" "pending (ws l w) - 1"]
    by (auto simp: clear_pending_def Let_def split: if_splits)
  with assms show ?thesis unfolding ev_ok_def clear_pending_frame by blast
qed

text \<open>An operation that keeps the queues and the event masks of the pending watchers.\<close>

lemma ev_ok_transfer:
  assumes "ev_ok tm l" and "pend_ok l" and "\<And>pri. set (pendings l' pri) \<subseteq> set (pendings l pri)"
    and "\<And>w. w \<in> pending_set l \<Longrightarrow> w_events (ws l' w) = w_events (ws l w)"
  shows "ev_ok tm l'"
  unfolding ev_ok_def
proof (intro allI impI)
  fix pri w e assume "(Some w, e) \<in> set (pendings l' pri)"
  then have m: "(Some w, e) \<in> set (pendings l pri)" using assms(3) by blast
  then obtain i where "i < length (pendings l pri)" "pendings l pri ! i = (Some w, e)"
    by (auto simp: in_set_conv_nth)
  then have "pending (ws l w) \<noteq> 0" using pend_ok_inD [OF assms(2), of i pri w] by simp
  then show "ev_valid tm (w_events (ws l' w)) w e"
    using assms(1,4) m by (simp add: ev_ok_def pending_set_def)
qed

lemma feed_list_ev_ok:
  "ev_ok tm l \<Longrightarrow> loop_ok tm l \<Longrightarrow> \<forall>v\<in>set vs. tm v \<Longrightarrow> ev_ok tm (feed_list vs EV_TIMER l)"
proof (induction vs arbitrary: l)
  case (Cons v vs)
  then have "ev_ok tm (ev_feed_event v EV_TIMER l)"
    by (intro feed_ev_ok) (auto simp: loop_ok_def ev_valid_def)
  with Cons.IH [OF _ feed_ok [OF Cons.prems(2)]] Cons.prems(3) show ?case by simp
qed simp

lemma feed_matching_ev_ok:
  "ev_ok tm l \<Longrightarrow> loop_ok tm l \<Longrightarrow> \<forall>v\<in>set vs. \<not> tm v \<Longrightarrow> ev_ok tm (feed_matching vs e l)"
proof (induction vs arbitrary: l)
  case (Cons v vs)
  let ?ev = "w_events (ws l v) AND e"
  have "?ev \<noteq> 0 \<Longrightarrow> ev_ok tm (ev_feed_event v ?ev l)"
    using Cons.prems by (intro feed_ev_ok) (auto simp: loop_ok_def ev_valid_def ac_simps)
  with Cons feed_ok [of tm l v ?ev] show ?case by (simp add: Let_def)
qed simp

lemma pop_ev_ok:
  assumes "ev_ok tm l" and "pending_pop pri l = Some ((wo, e), l')"
  shows "ev_ok tm l'" and "\<And>w. wo = Some w \<Longrightarrow> ev_valid tm (w_events (ws l w)) w e"
proof -
  have ne: "pendings l pri \<noteq> []" and last: "last (pendings l pri) = (wo, e)"
    and l': "pendings l' = (pendings l)(pri := butlast (pendings l pri))"
    "\<And>v. w_events (ws l' v) = w_events (ws l v)"
    using assms(2) by (auto simp: pending_pop_def Let_def split: if_splits option.splits)
  have "set (pendings l' p) \<subseteq> set (pendings l p)" for p
    using l'(1) by (auto dest: in_set_butlastD)
  then show "ev_ok tm l'" using assms(1) unfolding ev_ok_def l'(2) by blast
  show "\<And>w. wo = Some w \<Longrightarrow> ev_valid tm (w_events (ws l w)) w e"
    using assms(1) last_in_set [OF ne] last by (auto simp: ev_ok_def)
qed

lemma op_events_frame:
  "ev_io_start w l = Inr l' \<Longrightarrow> pendings l' = pendings l"
  "ev_io_start w l = Inr l' \<Longrightarrow> v \<noteq> w \<Longrightarrow> w_events (ws l' v) = w_events (ws l v)"
  "ev_io_stop w l = Inr l' \<Longrightarrow> pendings l' = pendings (clear_pending w l)"
  "ev_io_stop w l = Inr l' \<Longrightarrow> w_events (ws l' v) = w_events (ws l v)"
  by (auto simp: ev_io_start_def ev_io_stop_def Let_def ev_start_def ev_stop_def bind_res_Inr_iff
      clear_pending_frame split: if_splits)

lemma on_heap_events [simp]: "w_events (ws (on_heap f l) v) = w_events (ws l v)"
  by (auto simp: on_heap_def split: prod.splits)

lemma pri_adjust_events [simp]: "w_events (pri_adjust x) = w_events x"
  by (simp add: pri_adjust_def Let_def)

lemma timer_events_frame:
  "ev_timer_start w l = Inr l' \<Longrightarrow> pendings l' = pendings l"
  "ev_timer_start w l = Inr l' \<Longrightarrow> w_events (ws l' v) = w_events (ws l v)"
  "ev_timer_stop w l = Inr l' \<Longrightarrow> pendings l' = pendings (clear_pending w l)"
  "ev_timer_stop w l = Inr l' \<Longrightarrow> w_events (ws l' v) = w_events (ws l v)"
  by (auto simp: ev_timer_start_def ev_timer_stop_def Let_def ev_start_def ev_stop_def bind_res_Inr_iff
      clear_pending_frame on_heap_frame split: if_splits)

lemma op_ev_ok:
  assumes "ev_ok tm l" and "loop_ok tm l"
  shows "ev_io_start w l = Inr l' \<Longrightarrow> w \<notin> pending_set l \<Longrightarrow> ev_ok tm l'"
    and "ev_io_stop w l = Inr l' \<Longrightarrow> ev_ok tm l'"
    and "ev_timer_start w l = Inr l' \<Longrightarrow> ev_ok tm l'"
    and "ev_timer_stop w l = Inr l' \<Longrightarrow> ev_ok tm l'"
proof -
  have p: "pend_ok l" using assms(2) by (simp add: loop_ok_def)
  note c = clear_pending_ev_ok [OF assms(1), of w] and d = clear_pending_pend_ok [OF p, of w]
  show "ev_io_start w l = Inr l' \<Longrightarrow> w \<notin> pending_set l \<Longrightarrow> ev_ok tm l'"
    by (rule ev_ok_transfer [OF assms(1) p]) (simp add: op_events_frame(1), metis op_events_frame(2))
  show "ev_io_stop w l = Inr l' \<Longrightarrow> ev_ok tm l'"
    by (rule ev_ok_transfer [OF c d]) (auto simp: op_events_frame clear_pending_frame)
  show "ev_timer_start w l = Inr l' \<Longrightarrow> ev_ok tm l'"
    by (rule ev_ok_transfer [OF assms(1) p]) (auto simp: timer_events_frame)
  show "ev_timer_stop w l = Inr l' \<Longrightarrow> ev_ok tm l'"
    by (rule ev_ok_transfer [OF c d]) (auto simp: timer_events_frame clear_pending_frame)
qed

lemma init_ev_ok:
  assumes "ev_ok tm l" and "loop_ok tm l" and "w \<notin> pending_set l"
  shows "ev_ok tm (ev_io_init w f fd evs l)" "ev_ok tm (ev_timer_init w f after rep l)"
  by (rule ev_ok_transfer [OF assms(1)];
      use assms(2,3) in \<open>auto simp: ev_io_init_def ev_timer_init_def ev_init_def loop_ok_def\<close>)+

lemma timers_reify_one_ev_ok:
  assumes "loop_ok tm l" and "oneshot l" and "timer_expired l" and "ev_ok tm l"
    and "timers_reify_one l = Inr l'"
  shows "ev_ok tm l'"
proof -
  let ?w = "anhe_w (timers l HEAP0)"
  have "HEAP0 \<in> {HEAP0..<timercnt l + HEAP0}" using assms(3) by (simp add: timer_expired_def)
  then have "w_repeat (ws l ?w) = 0" using assms(2) by (auto simp: oneshot_def heap_watchers_def)
  then obtain l1 where "ev_timer_stop ?w l = Inr l1" and l': "l' = feed_reverse ?w l1"
    using assms(5) by (auto simp: timers_reify_one_def Let_def bind_res_Inr_iff)
  with op_ev_ok(4) [OF assms(4,1)] have "ev_ok tm l1" by blast
  then show ?thesis by (simp add: l' ev_ok_def feed_reverse_def)
qed

lemma timers_reify_loop_ev_ok:
  fixes l :: "('w, 'c, 't :: {linorder, plus, minus, zero}) ev_loop"
  assumes "loop_ok tm l" and "oneshot l" and "timer_expired l" and "ev_ok tm l"
    and "timers_reify_loop l = Some (Inr l')"
  shows "ev_ok tm l'"
  using assms
proof (induction "timercnt l" arbitrary: l rule: less_induct)
  case less
  from timers_reify_one_ok [OF less.prems(1-3)] obtain l1
    where l1: "timers_reify_one l = Inr l1" "loop_ok tm l1" "oneshot l1" "timercnt l1 < timercnt l" by blast
  have e: "ev_ok tm l1" using timers_reify_one_ev_ok [OF less.prems(1-4) l1(1)] .
  have "timers_reify_loop l = (if timer_expired l1 then timers_reify_loop l1 else Some (Inr l1))"
    using l1(1) by (subst timers_reify_loop.simps) simp
  with less.prems(5) less.hyps [OF l1(4,2,3) _ e] e show ?case by (auto split: if_splits)
qed

lemma timers_reify_ev_ok:
  fixes l :: "('w, 'c, 't :: {linorder, plus, minus, zero}) ev_loop"
  assumes "loop_ok tm l" and "oneshot l" and "rfeeds l = []" and "ev_ok tm l"
    and "timers_reify l = Some (Inr l')"
  shows "ev_ok tm l'"
proof (cases "timer_expired l")
  case True
  from timers_reify_loop_ok [OF assms(1,2) True] obtain l1 where l1: "timers_reify_loop l = Some (Inr l1)"
    "loop_ok tm l1" "set (rfeeds l1) = expired l" using assms(3) by auto
  have e: "ev_ok tm (l1\<lparr>rfeeds := []\<rparr>)"
    using timers_reify_loop_ev_ok [OF assms(1,2) True assms(4) l1(1)] by (simp add: ev_ok_def)
  have "\<forall>v\<in>set (rev (rfeeds l1)). tm v" using l1(3) expired_watching [OF assms(1)] by auto
  from feed_list_ev_ok [OF e rfeeds_clear(1) [OF l1(2)] this] show ?thesis
    using assms(5) True l1(1) by (auto simp: timers_reify_def feed_reverse_done_def)
next
  case False
  with assms show ?thesis by (simp add: timers_reify_def)
qed

lemma fd_kill_ev_ok:
  fixes l :: "('w, 'c, 't :: {linorder, plus, minus, zero}) ev_loop"
  assumes "loop_ok tm l" and "ev_ok tm l" and "fd_kill fd l = Some (Inr l')"
  shows "ev_ok tm l'"
  using assms
proof (induction "length (anfd_head l fd)" arbitrary: l)
  case 0
  then have "fd_kill fd l = Some (Inr l)" by (subst fd_kill.simps) simp
  with 0 show ?case by simp
next
  case (Suc n)
  then obtain w rest where hd: "anfd_head l fd = w # rest" by (cases "anfd_head l fd") auto
  have io: "io_ok tm l" using Suc.prems by (simp add: loop_ok_def)
  have w: "\<not> tm w" "active (ws l w) = 1" "w_fd (ws l w) = int fd"
    using io hd unfolding io_ok_def by (metis list.set_intros(1))+
  from ev_io_stop_ok [OF Suc.prems(1) w(1)] obtain l1 where l1: "ev_io_stop w l = Inr l1" "loop_ok tm l1"
    by blast
  let ?e = "EV_ERROR OR EV_READ OR EV_WRITE" and ?l2 = "ev_feed_event w (EV_ERROR OR EV_READ OR EV_WRITE) l1"
  have "ev_ok tm l1" using op_ev_ok(2) [OF Suc.prems(2,1) l1(1)] .
  moreover have "ev_valid tm (w_events (ws l1 w)) w ?e" using w(1) by (simp add: ev_valid_def ev_consts)
  ultimately have e2: "ev_ok tm ?l2" using feed_ev_ok l1(2) by (auto simp: loop_ok_def)
  have hd2: "anfd_head ?l2 fd = rest"
    using l1(1) w hd by (auto simp: ev_io_stop_def Let_def clear_pending_frame ev_stop_def feed_frame
        bind_res_Inr_iff split: if_splits)
  have "fd_kill fd l = fd_kill fd ?l2" using hd l1(1) by (subst fd_kill.simps) simp
  with Suc.hyps(1) [OF _ feed_ok [OF l1(2)] e2] Suc.hyps(2) Suc.prems(3) hd hd2 show ?case by simp
qed

section \<open>The steps of a loop, and the interface of its watchers\<close>

text \<open>
  The invariant between callbacks: on top of \<open>loop_ok\<close> and \<open>ev_ok\<close>, every running timer is one-shot (the
  library never sets a repeat value) and no timer is half-way through \<open>timers_reify\<close>.
\<close>

definition loop_inv :: "('w \<Rightarrow> bool) \<Rightarrow> ('w, 'c, 't :: {linorder, plus, minus, zero}) ev_loop \<Rightarrow> bool" where
  "loop_inv tm l \<longleftrightarrow> loop_ok tm l \<and> ev_ok tm l \<and> (\<forall>w\<in>watching l. tm w \<longrightarrow> w_repeat (ws l w) = 0) \<and> rfeeds l = []"

lemma loop_inv_oneshot: "loop_inv tm l \<Longrightarrow> oneshot l"
proof -
  assume inv: "loop_inv tm l"
  then have tmok: "tm_ok tm l" by (simp add: loop_inv_def loop_ok_def)
  show ?thesis
    unfolding oneshot_def
  proof
    fix w assume "w \<in> heap_watchers (timers l) (timercnt l)"
    from tm_ok_heap_active [OF tmok this] inv show "w_repeat (ws l w) = 0"
      unfolding loop_inv_def watching_def by blast
  qed
qed

text \<open>
  What a loop does on its own: an event of the kernel, the clock moving on, expired timers,
  a descriptor the kernel rejects, taking the next callback out of a pending queue, and the
  bookkeeping of the descriptors whose events the kernel has to be told (of which, with
  \<open>fd_kill\<close>, \<open>fd_reify\<close> consists).
\<close>

inductive loop_step ::
  "('w, 'c, 't :: {linorder, plus, minus, zero}) ev_loop \<Rightarrow> ('w, 'c, 't) ev_loop \<Rightarrow> bool" where
  ls_event: "loop_step l (fd_event fd e l)"
| ls_clock: "mn_now l \<le> t \<Longrightarrow> loop_step l (l\<lparr>mn_now := t\<rparr>)"
| ls_timers: "timers_reify l = Some (Inr l') \<Longrightarrow> loop_step l l'"
| ls_kill: "fd_kill fd l = Some (Inr l') \<Longrightarrow> loop_step l l'"
| ls_pop: "pending_pop pri l = Some (p, l') \<Longrightarrow> loop_step l l'"
| ls_fds: "loop_step l (l\<lparr>anfd_reify := r, anfd_events := ev, fdchanges := c\<rparr>)"

lemma timers_reify_inv:
  assumes "loop_inv tm l"
  shows "\<exists>l'. timers_reify l = Some (Inr l') \<and> loop_inv tm l' \<and> same_conf l l' \<and>
    watching l' = watching l - expired l \<and> pending_set l' = pending_set l \<union> expired l"
proof -
  have ok: "loop_ok tm l" "oneshot l" "rfeeds l = []"
    using assms loop_inv_oneshot by (auto simp: loop_inv_def)
  from timers_reify_ok [OF this] obtain l' where l': "timers_reify l = Some (Inr l')" "loop_ok tm l'"
    "watching l' = watching l - expired l" "pending_set l' = pending_set l \<union> expired l" "same_conf l l'" "rfeeds l' = []"
    by blast
  with l' assms timers_reify_ev_ok [OF ok _ l'(1)] show ?thesis by (auto simp: loop_inv_def same_conf_def)
qed

lemma loop_step_inv:
  assumes "loop_step l l'" and "loop_inv tm l"
  shows "loop_inv tm l' \<and> watching l' \<subseteq> watching l \<and> pending_set l' \<subseteq> pending_set l \<union> watching l"
  using assms
proof (induction rule: loop_step.induct)
  case (ls_event l fd e)
  then have ok: "loop_ok tm l" by (simp add: loop_inv_def)
  have "w_repeat (ws (fd_event fd e l) v) = w_repeat (ws l v)" "rfeeds (fd_event fd e l) = rfeeds l" for v
    using feed_matching_ok [OF ok, of "anfd_head l fd" e]
    by (auto simp: fd_event_def fd_event_nocheck_def rfeeds_frame)
  moreover have "ev_ok tm (fd_event fd e l)"
    using feed_matching_ev_ok [OF _ ok, of "anfd_head l fd" e] ls_event ok
    by (auto simp: fd_event_def fd_event_nocheck_def loop_inv_def loop_ok_def io_ok_def)
  ultimately show ?case using ls_event fd_event_ok [OF ok, of fd e] by (auto simp: loop_inv_def)
next
  case (ls_clock l t)
  have "loop_ok tm (l\<lparr>mn_now := t\<rparr>) = loop_ok tm l"
    using pend_ok_cong [of "l\<lparr>mn_now := t\<rparr>" l] io_ok_cong [of "l\<lparr>mn_now := t\<rparr>" l tm]
      tm_ok_cong [of "l\<lparr>mn_now := t\<rparr>" l tm] by (simp add: loop_ok_def)
  with ls_clock show ?case by (auto simp: loop_inv_def watching_def pending_set_def ev_ok_def)
next
  case (ls_timers l l')
  have "expired l \<subseteq> watching l"
    using ls_timers.prems expired_watching [of tm l] by (auto simp: loop_inv_def)
  with timers_reify_inv [OF ls_timers.prems] ls_timers.hyps show ?case by auto
next
  case (ls_kill fd l l')
  then have ok: "loop_ok tm l" by (simp add: loop_inv_def)
  have "set (anfd_head l fd) \<subseteq> watching l" using ok by (auto simp: loop_ok_def io_ok_def watching_def)
  with fd_kill_ok [OF ok, of fd] ls_kill fd_kill_ev_ok [OF ok _ ls_kill.hyps] show ?case
    by (auto simp: loop_inv_def same_conf_def)
next
  case (ls_pop pri l p l')
  then have ok: "loop_ok tm l" by (simp add: loop_inv_def)
  obtain wo e where p: "p = (wo, e)" by fastforce
  have "watching l' = watching l" using pop_frame(1) [OF ls_pop.hyps] by (simp add: watching_def)
  moreover have "pending_set l' \<subseteq> pending_set l"
    using ok pop_pend_ok(3) [of l pri wo e l'] ls_pop.hyps p by (auto simp: loop_ok_def split: option.splits)
  moreover have "ev_ok tm l'"
    using pop_ev_ok(1) [of tm l pri wo e l'] ls_pop p by (simp add: loop_inv_def)
  ultimately show ?case
    using pop_ok [OF ok ls_pop.hyps] ls_pop pop_frame(5) [OF ls_pop.hyps] rfeeds_frame(5) [OF ls_pop.hyps]
    by (auto simp: loop_inv_def)
next
  case (ls_fds l c ev r)
  let ?l = "l\<lparr>anfd_reify := r, anfd_events := ev, fdchanges := c\<rparr>"
  have "loop_ok tm ?l = loop_ok tm l"
    using pend_ok_cong [of ?l l] io_ok_cong [of ?l l tm] tm_ok_cong [of ?l l tm] by (simp add: loop_ok_def)
  with ls_fds show ?case by (auto simp: loop_inv_def watching_def pending_set_def ev_ok_def)
qed

end
