(* ===== verification/Libev_Watchers.thy ===== *)
theory Libev_Watchers
  imports Libev_Loop
begin

text \<open>
  The contract of a loop as its client sees it: which watchers it watches, which callbacks
  are pending, and what starting, stopping and running it do to these two sets. The locale
  \<open>watcher_loop\<close> states the contract and is interpreted on the operations of
  \<open>Libev_Loop\<close>; the lemmas that follow combine the initialisation and the start of a
  watcher, the way the handlers of the coroutine library use them.
\<close>

section \<open>The interface of a loop\<close>

locale watcher_loop =
  fixes inv :: "'l \<Rightarrow> bool"
    and watch :: "'l \<Rightarrow> 'w set"
    and pend :: "'l \<Rightarrow> 'w set"
    and step :: "'l \<Rightarrow> 'l \<Rightarrow> bool"
    and stop :: "'w \<Rightarrow> 'l \<Rightarrow> 'l res"
  assumes step_inv: "inv l \<Longrightarrow> step l l' \<Longrightarrow> inv l'"
    and step_watch: "inv l \<Longrightarrow> step l l' \<Longrightarrow> watch l' \<subseteq> watch l"
    and step_pend: "inv l \<Longrightarrow> step l l' \<Longrightarrow> pend l' \<subseteq> pend l \<union> watch l"
    and stop_inv: "inv l \<Longrightarrow> \<exists>l'. stop w l = Inr l' \<and> inv l' \<and> watch l' = watch l - {w} \<and> pend l' = pend l - {w}"
begin

lemma steps_inv: "step\<^sup>*\<^sup>* l l' \<Longrightarrow> inv l \<Longrightarrow> inv l'"
  by (induction rule: rtranclp_induct) (auto intro: step_inv)

text \<open>A watcher that is neither watched nor pending stays so, whatever the loop does.\<close>

lemma silent:
  assumes "step\<^sup>*\<^sup>* l l'" and "inv l" and "w \<notin> watch l" and "w \<notin> pend l"
  shows "w \<notin> watch l' \<and> w \<notin> pend l'"
  using assms
proof (induction rule: rtranclp_induct)
  case (step y z)
  from steps_inv [OF step.hyps(1) step.prems(1)] have "inv y" .
  with step step_watch [of y z] step_pend [of y z] show ?case by auto
qed simp

lemma stopped_silent:
  assumes "inv l"
  shows "\<exists>l1. stop w l = Inr l1 \<and> inv l1 \<and> (\<forall>l2. step\<^sup>*\<^sup>* l1 l2 \<longrightarrow> w \<notin> watch l2 \<and> w \<notin> pend l2)"
proof -
  from stop_inv [OF assms, of w] obtain l1 where "stop w l = Inr l1" "inv l1"
    "watch l1 = watch l - {w}" "pend l1 = pend l - {w}" by blast
  with silent [of l1 _ w] show ?thesis by blast
qed

end

text \<open>The stop operation of a watcher, by its type.\<close>

definition ev_any_stop ::
  "('w \<Rightarrow> bool) \<Rightarrow> 'w \<Rightarrow> ('w, 'c, 't :: {linorder, plus, minus, zero}) ev_loop \<Rightarrow> ('w, 'c, 't) ev_loop res" where
  "ev_any_stop tm w l = (if tm w then ev_timer_stop w l else ev_io_stop w l)"

definition same_masks :: "('w, 'c, 't) ev_loop \<Rightarrow> ('w, 'c, 't) ev_loop \<Rightarrow> bool" where
  "same_masks l l' \<longleftrightarrow> (\<forall>v. w_events (ws l' v) = w_events (ws l v))"

lemma any_stop_inv:
  assumes "loop_inv tm l"
  shows "\<exists>l'. ev_any_stop tm w l = Inr l' \<and> loop_inv tm l' \<and> watching l' = watching l - {w}
    \<and> pending_set l' = pending_set l - {w} \<and> same_conf l l' \<and> same_masks l l'"
proof (cases "tm w")
  case True
  have ok: "loop_ok tm l" using assms by (simp add: loop_inv_def)
  from ev_timer_stop_ok [OF ok True] obtain l' where l': "ev_timer_stop w l = Inr l'" "loop_ok tm l'"
    "watching l' = watching l - {w}" "pending_set l' = pending_set l - {w}" "same_conf l l'" "rfeeds l' = rfeeds l"
    by blast
  with assms True timer_events_frame(4) [OF l'(1)] op_ev_ok(4) [of tm l w l'] show ?thesis
    by (auto simp: loop_inv_def ev_any_stop_def same_conf_def same_masks_def)
next
  case False
  have ok: "loop_ok tm l" using assms by (simp add: loop_inv_def)
  from ev_io_stop_ok [OF ok False] obtain l' where l': "ev_io_stop w l = Inr l'" "loop_ok tm l'"
    "watching l' = watching l - {w}" "pending_set l' = pending_set l - {w}" "same_conf l l'"
    by blast
  with assms False op_events_frame(4) [OF l'(1)] op_ev_ok(2) [of tm l w l'] rfeeds_frame(4) [OF l'(1)]
  show ?thesis by (auto simp: loop_inv_def ev_any_stop_def same_conf_def same_masks_def)
qed

interpretation evl: watcher_loop "loop_inv tm" watching pending_set loop_step "ev_any_stop tm" for tm
proof
  fix l l' :: "('a, 'b, 'c) ev_loop" and w
  assume inv: "loop_inv tm l"
  show "\<exists>l'. ev_any_stop tm w l = Inr l' \<and> loop_inv tm l' \<and> watching l' = watching l - {w}
    \<and> pending_set l' = pending_set l - {w}" using any_stop_inv [OF inv, of w] by blast
  assume "loop_step l l'"
  from loop_step_inv [OF this inv] show "loop_inv tm l'" "watching l' \<subseteq> watching l"
    "pending_set l' \<subseteq> pending_set l \<union> watching l" by blast+
qed

section \<open>Starting and stopping, as the handlers do\<close>

lemma stop_io_inv:
  assumes "loop_inv tm l" and "\<not> tm w"
  shows "\<exists>l'. ev_io_stop w l = Inr l' \<and> loop_inv tm l' \<and> watching l' = watching l - {w}
    \<and> pending_set l' = pending_set l - {w} \<and> same_conf l l' \<and> same_masks l l'"
  using any_stop_inv [OF assms(1), of w] assms(2) by (simp add: ev_any_stop_def)

lemma stop_timer_inv:
  assumes "loop_inv tm l" and "tm w"
  shows "\<exists>l'. ev_timer_stop w l = Inr l' \<and> loop_inv tm l' \<and> watching l' = watching l - {w}
    \<and> pending_set l' = pending_set l - {w} \<and> same_conf l l' \<and> same_masks l l'"
  using any_stop_inv [OF assms(1), of w] assms(2) by (simp add: ev_any_stop_def)

text \<open>The event masks the library asks for.\<close>

definition io_mask :: "events \<Rightarrow> bool" where
  "io_mask evs \<longleftrightarrow> evs = EV_READ \<or> evs = EV_WRITE \<or> evs = EV_READ OR EV_WRITE"

lemma io_mask_start:
  assumes "io_mask evs"
  shows "(evs OR EV_IOFDSET) AND NOT (EV_IOFDSET OR EV_READ OR EV_WRITE) = 0"
    and "(evs OR EV_IOFDSET) AND NOT EV_IOFDSET = evs"
  using assms by (auto simp: io_mask_def ev_consts)

lemma start_io_inv:
  assumes inv: "loop_inv tm l" and w: "\<not> tm w" "w \<notin> watching l" "w \<notin> pending_set l"
    and fd: "0 \<le> fd" and evs: "io_mask evs"
  shows "\<exists>l'. ev_io_start w (ev_io_init w f fd evs l) = Inr l' \<and> loop_inv tm l' \<and>
    watching l' = insert w (watching l) \<and> pending_set l' = pending_set l \<and>
    (\<forall>v. cb (ws l' v) = (if v = w then f else cb (ws l v))) \<and>
    (\<forall>v. w_events (ws l' v) = (if v = w then evs else w_events (ws l v)))"
proof -
  let ?l = "ev_io_init w f fd evs l"
  have ok: "loop_ok tm l" using inv by (simp add: loop_inv_def)
  note i = ev_io_init_ok [OF ok w, of f fd evs]
  have st: "io_startable w ?l"
    using fd io_mask_start(1) [OF evs]
    by (simp add: io_startable_def ev_io_init_def ev_init_def EV_MINPRI_def EV_MAXPRI_def)
  have io: "io_ok tm ?l" using i(1) by (simp add: loop_ok_def)
  from ev_io_start_ok [OF i(1) w(1) st] obtain l' where l': "ev_io_start w ?l = Inr l'" "loop_ok tm l'"
    "watching l' = insert w (watching ?l)" "pending_set l' = pending_set ?l" "same_conf ?l l'" by blast
  from ev_io_start_eq [OF st io] l'(1) have
    wsl: "ws l' = (ws ?l)(w := (ws ?l w)\<lparr>active := 1, w_events := w_events (ws ?l w) AND NOT EV_IOFDSET\<rparr>)"
    and rf: "rfeeds l' = rfeeds ?l" by (metis Inr_inject)+
  have "ev_ok tm l'"
    using op_ev_ok(1) [OF init_ev_ok(1) [OF _ ok w(3)] i(1) l'(1)] inv w(3) i(3) by (simp add: loop_inv_def)
  moreover have "w_events (ws l' v) = (if v = w then evs else w_events (ws l v))" for v
    using io_mask_start(2) [OF evs] by (simp add: wsl ev_io_init_def ev_init_def)
  ultimately show ?thesis
    using l' i inv w(1) rf by (auto simp: loop_inv_def same_conf_def ev_io_init_def ev_init_def)
qed

lemma start_timer_inv:
  fixes l :: "('w, 'c, 't :: {linorder, plus, minus, zero}) ev_loop"
  assumes inv: "loop_inv tm l" and w: "tm w" "w \<notin> watching l" "w \<notin> pending_set l"
  shows "\<exists>l'. ev_timer_start w (ev_timer_init w f after 0 l) = Inr l' \<and> loop_inv tm l' \<and>
    watching l' = insert w (watching l) \<and> pending_set l' = pending_set l \<and>
    (\<forall>v. cb (ws l' v) = (if v = w then f else cb (ws l v))) \<and>
    (\<forall>v. w_events (ws l' v) = w_events (ws l v))"
proof -
  let ?l = "ev_timer_init w f after 0 l"
  have ok: "loop_ok tm l" using inv by (simp add: loop_inv_def)
  note i = ev_timer_init_ok [OF ok w, of f after 0]
  have st: "timer_startable w ?l"
    by (simp add: timer_startable_def ev_timer_init_def ev_init_def EV_MINPRI_def EV_MAXPRI_def)
  from ev_timer_start_ok [OF i(1) w(1) st] obtain l' where l': "ev_timer_start w ?l = Inr l'" "loop_ok tm l'"
    "watching l' = insert w (watching ?l)" "pending_set l' = pending_set ?l" "same_conf ?l l'" by blast
  have rf: "rfeeds l' = rfeeds ?l"
    using l'(1) by (auto simp: ev_timer_start_def Let_def ev_start_def bind_res_Inr_iff on_heap_frame split: if_splits)
  have "ev_ok tm l'"
    using op_ev_ok(3) [OF init_ev_ok(2) [OF _ ok w(3)] i(1) l'(1)] inv by (simp add: loop_inv_def)
  moreover have "w_events (ws l' v) = w_events (ws l v)" for v
    using timer_events_frame(2) [OF l'(1), of v] by (simp add: ev_timer_init_def ev_init_def)
  ultimately show ?thesis
    using l' i inv rf by (auto simp: loop_inv_def same_conf_def ev_timer_init_def ev_init_def)
qed

text \<open>
  Taking the next callback: the watcher was pending and is not any more, and the events it is
  called with are ones it asked for or an error.
\<close>

lemma pop_inv:
  assumes inv: "loop_inv tm l" and pop: "pending_pop pri l = Some ((wo, e), l')"
  shows "loop_inv tm l'" and "watching l' = watching l" and "same_conf l l'" and "same_masks l l'"
    and "pending_set l' = pending_set l - (case wo of None \<Rightarrow> {} | Some w \<Rightarrow> {w})"
    and "\<And>w. wo = Some w \<Longrightarrow> w \<in> pending_set l \<and> ev_valid tm (w_events (ws l w)) w e"
proof -
  have ok: "loop_ok tm l" "pend_ok l" "ev_ok tm l" using inv by (auto simp: loop_inv_def loop_ok_def)
  note f = pop_frame [OF pop]
  show "loop_inv tm l'" using loop_step_inv [OF ls_pop [OF pop] inv] by blast
  show "watching l' = watching l" using f(1) by (simp add: watching_def)
  show "same_conf l l'" using f(4,5) by (simp add: same_conf_def)
  show "same_masks l l'"
    using pop by (auto simp: same_masks_def pending_pop_def Let_def split: if_splits option.splits)
  show "pending_set l' = pending_set l - (case wo of None \<Rightarrow> {} | Some w \<Rightarrow> {w})"
    using pop_pend_ok(3) [OF ok(2) pop] .
  show "\<And>w. wo = Some w \<Longrightarrow> w \<in> pending_set l \<and> ev_valid tm (w_events (ws l w)) w e"
    using pop_pend_ok(2) [OF ok(2) pop] pop_ev_ok(2) [OF ok(3) pop] by blast
qed

section \<open>Which pending events carry an error\<close>

abbreviation pend_slot :: "('w, 'c, 't) ev_loop \<Rightarrow> 'w \<Rightarrow> 'w option \<times> events" where
  "pend_slot l w \<equiv> pendings l (ABSPRI (ws l w)) ! (pending (ws l w) - 1)"

definition errs :: "('w, 'c, 't) ev_loop \<Rightarrow> 'w set" where
  "errs l = {w. pending (ws l w) \<noteq> 0 \<and> snd (pend_slot l w) AND EV_ERROR \<noteq> 0}"

lemma errs_pending: "errs l \<subseteq> pending_set l"
  by (auto simp: errs_def pending_set_def)

lemma errs_cong:
  "pendings l' = pendings l \<Longrightarrow> (\<And>v. pending (ws l' v) = pending (ws l v)) \<Longrightarrow>
   (\<And>v. pending (ws l v) \<noteq> 0 \<Longrightarrow> ABSPRI (ws l' v) = ABSPRI (ws l v)) \<Longrightarrow> errs l' = errs l"
  by (auto simp: errs_def)

lemma pend_slot_inj:
  assumes "pend_ok l" and "pending (ws l v) \<noteq> 0" and "pending (ws l w) \<noteq> 0" and "v \<noteq> w"
    and "ABSPRI (ws l v) = ABSPRI (ws l w)"
  shows "pending (ws l v) - 1 \<noteq> pending (ws l w) - 1"
  using pend_ok_slot [OF assms(1,2)] pend_ok_slot [OF assms(1,3)] assms(4,5) by auto

lemma and_or_error: "(a OR b) AND EV_ERROR = 0 \<longleftrightarrow> a AND EV_ERROR = 0 \<and> b AND EV_ERROR = (0 :: events)"
  using word_or_zero [of "a AND EV_ERROR" "b AND EV_ERROR"] by (simp add: bit.conj_disj_distrib2)

lemma clear_pending_errs:
  assumes "pend_ok l"
  shows "errs (clear_pending w l) = errs l - {w}"
proof (rule set_eqI)
  fix v
  show "v \<in> errs (clear_pending w l) \<longleftrightarrow> v \<in> errs l - {w}"
  proof (cases "pending (ws l w) = 0 \<or> v = w \<or> pending (ws l v) = 0")
    case True
    then show ?thesis by (auto simp: clear_pending_def errs_def Let_def)
  next
    case False
    with pend_slot_inj [OF assms, of v w] show ?thesis
      by (auto simp: clear_pending_def errs_def Let_def)
  qed
qed

lemma feed_errs:
  assumes "pend_ok l"
  shows "errs (ev_feed_event w e l) = errs l \<union> (if e AND EV_ERROR \<noteq> 0 then {w} else {})"
proof (rule set_eqI)
  fix v
  show "v \<in> errs (ev_feed_event w e l) \<longleftrightarrow> v \<in> errs l \<union> (if e AND EV_ERROR \<noteq> 0 then {w} else {})"
  proof (cases "pending (ws l w) = 0")
    case True
    then show ?thesis
      using pend_ok_slot [OF assms, of v] by (auto simp: ev_feed_event_def errs_def Let_def nth_append)
  next
    case False
    then have i: "pending (ws l w) - 1 < length (pendings l (ABSPRI (ws l w)))"
      using pend_ok_slot [OF assms False] by auto
    show ?thesis
    proof (cases "v = w \<or> pending (ws l v) = 0")
      case True
      with False i show ?thesis by (auto simp: ev_feed_event_def errs_def Let_def and_or_error)
    next
      case False
      with \<open>pending (ws l w) \<noteq> 0\<close> pend_slot_inj [OF assms, of v w] show ?thesis
        by (auto simp: ev_feed_event_def errs_def Let_def)
    qed
  qed
qed

lemma pop_errs:
  assumes ok: "pend_ok l" and pop: "pending_pop pri l = Some ((wo, e), l')"
  shows "errs l' = errs l - (case wo of None \<Rightarrow> {} | Some w \<Rightarrow> {w})"
    and "\<And>w. wo = Some w \<Longrightarrow> e AND EV_ERROR \<noteq> 0 \<longleftrightarrow> w \<in> errs l"
proof -
  let ?ps = "pendings l pri"
  have ne: "?ps \<noteq> []" and last: "last ?ps = (wo, e)" and l': "pendings l' = (pendings l)(pri := butlast ?ps)"
    and wsl: "ws l' = (case wo of None \<Rightarrow> ws l | Some w \<Rightarrow> (ws l)(w := (ws l w)\<lparr>pending := 0\<rparr>))"
    using pop by (auto simp: pending_pop_def Let_def split: if_splits option.splits)
  have mine: "pending (ws l w) = length ?ps \<and> ABSPRI (ws l w) = pri" if "wo = Some w" for w
    using pend_ok_inD [OF ok, of "length ?ps - 1" pri w] ne last that by (simp add: last_conv_nth)
  show "\<And>w. wo = Some w \<Longrightarrow> e AND EV_ERROR \<noteq> 0 \<longleftrightarrow> w \<in> errs l"
    using mine ne last by (auto simp: errs_def last_conv_nth)
  show "errs l' = errs l - (case wo of None \<Rightarrow> {} | Some w \<Rightarrow> {w})"
  proof (rule set_eqI)
    fix v
    show "v \<in> errs l' \<longleftrightarrow> v \<in> errs l - (case wo of None \<Rightarrow> {} | Some w \<Rightarrow> {w})"
    proof (cases "wo = Some v \<or> pending (ws l v) = 0")
      case True
      then show ?thesis by (auto simp: errs_def wsl split: option.splits)
    next
      case False
      then have same: "ws l' v = ws l v" by (auto simp: wsl split: option.splits)
      have "pending (ws l v) - 1 < length ?ps - 1" if "ABSPRI (ws l v) = pri"
        using pend_ok_slot [OF ok, of v] that False last ne
        by (cases "pending (ws l v) = length ?ps") (auto simp: last_conv_nth)
      with False same show ?thesis
        by (auto simp: errs_def l' nth_butlast split: option.splits)
    qed
  qed
qed

text \<open>An event of a timer is never an error.\<close>

lemma timer_not_err:
  assumes "loop_inv tm l" and "tm w"
  shows "w \<notin> errs l"
proof
  assume "w \<in> errs l"
  then have p: "pending (ws l w) \<noteq> 0" and er: "snd (pend_slot l w) AND EV_ERROR \<noteq> 0" by (auto simp: errs_def)
  have ok: "pend_ok l" "ev_ok tm l" using assms(1) by (auto simp: loop_inv_def loop_ok_def)
  from pend_ok_slot [OF ok(1) p] p
  have "(Some w, snd (pend_slot l w)) \<in> set (pendings l (ABSPRI (ws l w)))"
    by (metis (no_types, lifting) One_nat_def Suc_pred le_imp_less_Suc less_Suc_eq_le neq0_conv nth_mem prod.collapse
        diff_less less_le_trans zero_less_one)
  with ok(2) assms(2) have "snd (pend_slot l w) = EV_TIMER" by (auto simp: ev_ok_def ev_valid_def)
  with er show False by (simp add: ev_consts)
qed

lemma stop_errs:
  fixes l :: "('w, 'c, 't :: {linorder, plus, minus, zero}) ev_loop"
  assumes "pend_ok l"
  shows "ev_io_stop w l = Inr l' \<Longrightarrow> errs l' = errs l - {w}"
    and "ev_timer_stop w l = Inr l' \<Longrightarrow> errs l' = errs l - {w}"
proof -
  assume a: "ev_io_stop w l = Inr l'"
  have "errs l' = errs (clear_pending w l)"
    by (rule errs_cong [OF op_events_frame(3) [OF a]])
      (use a in \<open>auto simp: ev_io_stop_def Let_def ev_stop_def bind_res_Inr_iff split: if_splits\<close>)
  then show "errs l' = errs l - {w}" by (simp add: clear_pending_errs [OF assms])
next
  assume a: "ev_timer_stop w l = Inr l'"
  have "errs l' = errs (clear_pending w l)"
    by (rule errs_cong [OF timer_events_frame(3) [OF a]])
      (use a in \<open>auto simp: ev_timer_stop_def Let_def ev_stop_def bind_res_Inr_iff on_heap_frame ABSPRI_def split: if_splits\<close>)
  then show "errs l' = errs l - {w}" by (simp add: clear_pending_errs [OF assms])
qed

lemma start_errs:
  fixes l :: "('w, 'c, 't :: {linorder, plus, minus, zero}) ev_loop"
  assumes "w \<notin> pending_set l"
  shows "ev_io_start w (ev_io_init w f fd evs l) = Inr l' \<Longrightarrow> errs l' = errs l"
    and "ev_timer_start w (ev_timer_init w f after rep l) = Inr l' \<Longrightarrow> errs l' = errs l"
proof -
  assume a: "ev_io_start w (ev_io_init w f fd evs l) = Inr l'"
  show "errs l' = errs l"
    by (rule errs_cong)
      (use a assms op_events_frame(1) [OF a] in \<open>auto simp: ev_io_start_def ev_io_init_def ev_init_def Let_def ev_start_def
        bind_res_Inr_iff pri_adjust_def pending_set_def split: if_splits\<close>)
next
  assume a: "ev_timer_start w (ev_timer_init w f after rep l) = Inr l'"
  show "errs l' = errs l"
    by (rule errs_cong)
      (use a assms timer_events_frame(1) [OF a] in \<open>auto simp: ev_timer_start_def ev_timer_init_def ev_init_def Let_def ev_start_def
        bind_res_Inr_iff on_heap_frame pri_adjust_def pending_set_def ABSPRI_def split: if_splits\<close>)
qed

section \<open>What the loop's own work keeps\<close>

definition quiet :: "('w, 'c, 't) ev_loop \<Rightarrow> ('w, 'c, 't) ev_loop \<Rightarrow> bool" where
  "quiet l l' \<longleftrightarrow> same_conf l l' \<and> same_masks l l' \<and> errs l' = errs l"

lemma quiet_trans: "quiet l1 l2 \<Longrightarrow> quiet l2 l3 \<Longrightarrow> quiet l1 l3"
  by (auto simp: quiet_def same_conf_def same_masks_def)

lemma quiet_refl [simp]: "quiet l l"
  by (simp add: quiet_def same_conf_def same_masks_def)

lemma feed_quiet:
  assumes "pend_ok l" and "e AND EV_ERROR = 0"
  shows "quiet l (ev_feed_event w e l)"
  using feed_errs [OF assms(1), of w e] assms(2)
  by (simp add: quiet_def same_conf_def same_masks_def feed_frame)

lemma feed_list_quiet: "loop_ok tm l \<Longrightarrow> e AND EV_ERROR = 0 \<Longrightarrow> quiet l (feed_list vs e l)"
proof (induction vs arbitrary: l)
  case (Cons v vs)
  have "quiet l (ev_feed_event v e l)" using Cons.prems by (intro feed_quiet) (simp_all add: loop_ok_def)
  moreover have "quiet (ev_feed_event v e l) (feed_list vs e (ev_feed_event v e l))"
    using Cons.IH [OF feed_ok [OF Cons.prems(1)] Cons.prems(2)] .
  ultimately show ?case using quiet_trans [of l "ev_feed_event v e l"] by simp
qed simp

lemma feed_matching_quiet: "loop_ok tm l \<Longrightarrow> e AND EV_ERROR = 0 \<Longrightarrow> quiet l (feed_matching vs e l)"
proof (induction vs arbitrary: l)
  case (Cons v vs)
  let ?ev = "w_events (ws l v) AND e"
  have "?ev AND EV_ERROR = 0" using Cons.prems(2) by (metis and.assoc and_zero_eq)
  then have "quiet l (ev_feed_event v ?ev l)" using Cons.prems by (intro feed_quiet) (simp_all add: loop_ok_def)
  moreover have "quiet (ev_feed_event v ?ev l) (feed_matching vs e (ev_feed_event v ?ev l))"
    using Cons.IH [OF feed_ok [OF Cons.prems(1)] Cons.prems(2)] .
  ultimately have "quiet l (feed_matching vs e (ev_feed_event v ?ev l))" by (rule quiet_trans)
  with Cons.IH [OF Cons.prems] show ?case by (simp add: Let_def)
qed simp

lemma fd_event_quiet: "loop_ok tm l \<Longrightarrow> e AND EV_ERROR = 0 \<Longrightarrow> quiet l (fd_event fd e l)"
  using feed_matching_quiet by (auto simp: fd_event_def fd_event_nocheck_def)

text \<open>
  The timers that expire leave the queues of the errors alone: \<open>timers_reify\<close> only stops and
  feeds timers.
\<close>

definition timers_errless :: "('w \<Rightarrow> bool) \<Rightarrow> ('w, 'c, 't) ev_loop \<Rightarrow> bool" where
  "timers_errless tm l \<longleftrightarrow> (\<forall>w. tm w \<longrightarrow> w \<notin> errs l)"

lemma timers_reify_one_quiet:
  fixes l :: "('w, 'c, 't :: {linorder, plus, minus, zero}) ev_loop"
  assumes "loop_ok tm l" and "oneshot l" and "timer_expired l" and "timers_errless tm l"
    and "timers_reify_one l = Inr l'"
  shows "quiet l l'"
proof -
  let ?w = "anhe_w (timers l HEAP0)"
  have root: "HEAP0 \<in> {HEAP0..<timercnt l + HEAP0}" using assms(3) by (simp add: timer_expired_def)
  then have "w_repeat (ws l ?w) = 0" using assms(2) by (auto simp: oneshot_def heap_watchers_def)
  then obtain l1 where l1: "ev_timer_stop ?w l = Inr l1" and l': "l' = feed_reverse ?w l1"
    using assms(5) by (auto simp: timers_reify_one_def Let_def bind_res_Inr_iff)
  have tmw: "tm ?w" using assms(1) root by (auto simp: loop_ok_def tm_ok_def)
  from ev_timer_stop_ok [OF assms(1) this] l1 have "same_conf l l1" by auto
  moreover have "errs l1 = errs l"
    using stop_errs(2) [OF _ l1] assms(1,4) tmw by (auto simp: loop_ok_def timers_errless_def)
  ultimately show ?thesis
    using timer_events_frame(4) [OF l1]
    by (simp add: quiet_def same_conf_def same_masks_def l' feed_reverse_def errs_def)
qed

lemma timers_reify_loop_quiet:
  fixes l :: "('w, 'c, 't :: {linorder, plus, minus, zero}) ev_loop"
  assumes "loop_ok tm l" and "oneshot l" and "timer_expired l" and "timers_errless tm l"
    and "timers_reify_loop l = Some (Inr l')"
  shows "quiet l l'"
  using assms
proof (induction "timercnt l" arbitrary: l rule: less_induct)
  case less
  from timers_reify_one_ok [OF less.prems(1-3)] obtain l1
    where l1: "timers_reify_one l = Inr l1" "loop_ok tm l1" "oneshot l1" "timercnt l1 < timercnt l" by blast
  have q: "quiet l l1" using timers_reify_one_quiet [OF less.prems(1-4) l1(1)] .
  then have te: "timers_errless tm l1" using less.prems(4) by (simp add: timers_errless_def quiet_def)
  have "timers_reify_loop l = (if timer_expired l1 then timers_reify_loop l1 else Some (Inr l1))"
    using l1(1) by (subst timers_reify_loop.simps) simp
  with less.prems(5) less.hyps [OF l1(4,2,3) _ te] q quiet_trans [OF q] show ?case by (auto split: if_splits)
qed

lemma timers_reify_quiet:
  fixes l :: "('w, 'c, 't :: {linorder, plus, minus, zero}) ev_loop"
  assumes "loop_inv tm l" and "timers_reify l = Some (Inr l')"
  shows "quiet l l'"
proof (cases "timer_expired l")
  case True
  have ok: "loop_ok tm l" "oneshot l" using assms(1) loop_inv_oneshot by (auto simp: loop_inv_def)
  have te: "timers_errless tm l" using timer_not_err [OF assms(1)] by (simp add: timers_errless_def)
  from timers_reify_loop_ok [OF ok True] obtain l1 where l1: "timers_reify_loop l = Some (Inr l1)" "loop_ok tm l1"
    by blast
  have "quiet l (l1\<lparr>rfeeds := []\<rparr>)"
    using timers_reify_loop_quiet [OF ok True te l1(1)] by (simp add: quiet_def same_conf_def same_masks_def errs_def)
  moreover have "quiet (l1\<lparr>rfeeds := []\<rparr>) (feed_list (rev (rfeeds l1)) EV_TIMER (l1\<lparr>rfeeds := []\<rparr>))"
    by (rule feed_list_quiet [OF rfeeds_clear(1) [OF l1(2)]]) (simp add: ev_consts)
  ultimately show ?thesis
    using quiet_trans assms(2) True l1(1) by (auto simp: timers_reify_def feed_reverse_done_def)
qed (use assms in \<open>simp add: timers_reify_def\<close>)

text \<open>Every watcher of a descriptor the kernel rejects gets an error.\<close>

lemma fd_kill_masks:
  fixes l :: "('w, 'c, 't :: {linorder, plus, minus, zero}) ev_loop"
  assumes "loop_ok tm l" and "fd_kill fd l = Some (Inr l')"
  shows "same_masks l l' \<and> errs l' = errs l \<union> set (anfd_head l fd)"
  using assms
proof (induction "length (anfd_head l fd)" arbitrary: l)
  case 0
  then have "fd_kill fd l = Some (Inr l)" by (subst fd_kill.simps) simp
  with 0 show ?case by (simp add: same_masks_def)
next
  case (Suc n)
  then obtain w rest where hd: "anfd_head l fd = w # rest" by (cases "anfd_head l fd") auto
  have w: "\<not> tm w" "active (ws l w) = 1" "w_fd (ws l w) = int fd"
    using Suc.prems(1) hd unfolding loop_ok_def io_ok_def by (metis list.set_intros(1))+
  from ev_io_stop_ok [OF Suc.prems(1) w(1)] obtain l1 where l1: "ev_io_stop w l = Inr l1" "loop_ok tm l1"
    by blast
  let ?e = "EV_ERROR OR EV_READ OR EV_WRITE" and ?l2 = "ev_feed_event w (EV_ERROR OR EV_READ OR EV_WRITE) l1"
  have hd2: "anfd_head ?l2 fd = rest"
    using l1(1) w hd by (auto simp: ev_io_stop_def Let_def clear_pending_frame ev_stop_def feed_frame
        bind_res_Inr_iff split: if_splits)
  have "pend_ok l" "pend_ok l1" using Suc.prems(1) l1(2) by (auto simp: loop_ok_def)
  then have e2: "errs ?l2 = errs l \<union> {w}"
    using feed_errs [of l1 w ?e] stop_errs(1) [of l w l1] l1(1) by (auto simp: ev_consts)
  have m2: "same_masks l ?l2" using op_events_frame(4) [OF l1(1)] by (simp add: same_masks_def feed_frame)
  have "fd_kill fd l = fd_kill fd ?l2" using hd l1(1) by (subst fd_kill.simps) simp
  with Suc.hyps(1) [of ?l2, OF _ feed_ok [OF l1(2)]] Suc.hyps(2) Suc.prems(2) hd hd2
  have "same_masks ?l2 l' \<and> errs l' = errs ?l2 \<union> set rest" by simp
  with e2 m2 hd show ?case by (auto simp: same_masks_def)
qed

section \<open>The contract of a loop, watcher by watcher\<close>

text \<open>
  On top of \<open>loop_inv\<close>: a watcher of a descriptor that is pending without being watched any
  more has an error to report, so a callback without an error can rely on its watcher still
  being watched.
\<close>

definition lp_inv :: "('w \<Rightarrow> bool) \<Rightarrow> ('w, 'c, 't :: {linorder, plus, minus, zero}) ev_loop \<Rightarrow> bool" where
  "lp_inv tm l \<longleftrightarrow> loop_inv tm l \<and> (\<forall>w. w \<in> pending_set l \<longrightarrow> w \<in> watching l \<or> tm w \<or> w \<in> errs l)"

definition engaged :: "('w, 'c, 't) ev_loop \<Rightarrow> 'w \<Rightarrow> bool" where
  "engaged l w \<longleftrightarrow> w \<in> watching l \<or> w \<in> pending_set l"

text \<open>The state of the watchers outside a set is the same in two loops.\<close>

definition loop_frame :: "'w set \<Rightarrow> ('w, 'c, 't) ev_loop \<Rightarrow> ('w, 'c, 't) ev_loop \<Rightarrow> bool" where
  "loop_frame W l l' \<longleftrightarrow>
     (\<forall>v. v \<notin> W \<longrightarrow> cb (ws l' v) = cb (ws l v) \<and> w_events (ws l' v) = w_events (ws l v) \<and>
        (v \<in> watching l' \<longleftrightarrow> v \<in> watching l) \<and> (v \<in> pending_set l' \<longleftrightarrow> v \<in> pending_set l) \<and>
        (v \<in> errs l' \<longleftrightarrow> v \<in> errs l))"

lemma loop_frame_trans: "loop_frame W l1 l2 \<Longrightarrow> loop_frame W l2 l3 \<Longrightarrow> loop_frame W l1 l3"
  by (simp add: loop_frame_def)

lemma loop_frame_mono: "loop_frame V l l' \<Longrightarrow> V \<subseteq> W \<Longrightarrow> loop_frame W l l'"
  by (auto simp: loop_frame_def)

lemma loop_frame_refl [simp]: "loop_frame W l l"
  by (simp add: loop_frame_def)

lemma lp_start_io:
  assumes "lp_inv tm l" and "\<not> tm w" "\<not> engaged l w" and "0 \<le> fd" and "io_mask evs"
  shows "\<exists>l'. ev_io_start w (ev_io_init w f fd evs l) = Inr l' \<and> lp_inv tm l' \<and> loop_frame {w} l l' \<and>
    w \<in> watching l' \<and> w \<notin> pending_set l' \<and> w \<notin> errs l' \<and> cb (ws l' w) = f \<and> w_events (ws l' w) = evs"
proof -
  have l: "loop_inv tm l" "w \<notin> watching l" "w \<notin> pending_set l" using assms by (auto simp: lp_inv_def engaged_def)
  from start_io_inv [OF l(1) assms(2) l(2,3) assms(4,5)] obtain l' where
    l': "ev_io_start w (ev_io_init w f fd evs l) = Inr l'" "loop_inv tm l'" "watching l' = insert w (watching l)"
    "pending_set l' = pending_set l" "\<And>v. cb (ws l' v) = (if v = w then f else cb (ws l v))"
    "\<And>v. w_events (ws l' v) = (if v = w then evs else w_events (ws l v))" by blast
  have e: "errs l' = errs l" using start_errs(1) [OF l(3) l'(1)] .
  have "w \<notin> errs l'" using l(3) errs_pending [of l] e by blast
  moreover have "lp_inv tm l'" using assms(1) l'(2-4) e by (simp add: lp_inv_def)
  ultimately show ?thesis using l' l(3) e by (simp add: loop_frame_def)
qed

lemma lp_start_timer:
  fixes l :: "('w, 'c, 't :: {linorder, plus, minus, zero}) ev_loop"
  assumes "lp_inv tm l" and "tm w" "\<not> engaged l w"
  shows "\<exists>l'. ev_timer_start w (ev_timer_init w f after 0 l) = Inr l' \<and> lp_inv tm l' \<and> loop_frame {w} l l' \<and>
    w \<in> watching l' \<and> cb (ws l' w) = f"
proof -
  have l: "loop_inv tm l" "w \<notin> watching l" "w \<notin> pending_set l" using assms by (auto simp: lp_inv_def engaged_def)
  from start_timer_inv [OF l(1) assms(2) l(2,3)] obtain l' where
    l': "ev_timer_start w (ev_timer_init w f after 0 l) = Inr l'" "loop_inv tm l'" "watching l' = insert w (watching l)"
    "pending_set l' = pending_set l" "\<And>v. cb (ws l' v) = (if v = w then f else cb (ws l v))"
    "\<And>v. w_events (ws l' v) = w_events (ws l v)" by blast
  have e: "errs l' = errs l" using start_errs(2) [OF l(3) l'(1)] .
  have "lp_inv tm l'" using assms(1) l'(2-4) e by (simp add: lp_inv_def)
  with l' e show ?thesis by (simp add: loop_frame_def)
qed

lemma lp_stop:
  fixes l :: "('w, 'c, 't :: {linorder, plus, minus, zero}) ev_loop"
  assumes "lp_inv tm l"
  shows "\<exists>l'. ev_any_stop tm w l = Inr l' \<and> lp_inv tm l' \<and> loop_frame {w} l l' \<and> \<not> engaged l' w"
proof -
  have l: "loop_inv tm l" "pend_ok l" using assms by (auto simp: lp_inv_def loop_inv_def loop_ok_def)
  from any_stop_inv [OF l(1), of w] obtain l' where
    l': "ev_any_stop tm w l = Inr l'" "loop_inv tm l'" "watching l' = watching l - {w}"
    "pending_set l' = pending_set l - {w}" "same_conf l l'" "same_masks l l'" by blast
  have e: "errs l' = errs l - {w}"
    using l'(1) stop_errs [OF l(2), of w l'] by (simp add: ev_any_stop_def split: if_splits)
  have "lp_inv tm l'" using assms l'(2-4) e by (auto simp: lp_inv_def)
  with l' e show ?thesis by (auto simp: loop_frame_def same_conf_def same_masks_def engaged_def)
qed

lemma lp_stop_io:
  fixes l :: "('w, 'c, 't :: {linorder, plus, minus, zero}) ev_loop"
  shows "lp_inv tm l \<Longrightarrow> \<not> tm w \<Longrightarrow>
   \<exists>l'. ev_io_stop w l = Inr l' \<and> lp_inv tm l' \<and> loop_frame {w} l l' \<and> \<not> engaged l' w"
  using lp_stop [of tm l w] by (simp add: ev_any_stop_def)

lemma lp_stop_timer:
  fixes l :: "('w, 'c, 't :: {linorder, plus, minus, zero}) ev_loop"
  shows "lp_inv tm l \<Longrightarrow> tm w \<Longrightarrow>
   \<exists>l'. ev_timer_stop w l = Inr l' \<and> lp_inv tm l' \<and> loop_frame {w} l l' \<and> \<not> engaged l' w"
  using lp_stop [of tm l w] by (simp add: ev_any_stop_def)

text \<open>Taking a callback out of the queue, and what the callback may rely on.\<close>

lemma lp_pop:
  fixes l :: "('w, 'c, 't :: {linorder, plus, minus, zero}) ev_loop"
  assumes "lp_inv tm l" and pop: "pending_pop pri l = Some ((wo, e), l')"
  shows "lp_inv tm l'" and "loop_frame (set_option wo) l l'"
    and "\<And>w. wo = Some w \<Longrightarrow> w \<in> pending_set l \<and> w \<notin> pending_set l' \<and> cb (ws l' w) = cb (ws l w) \<and>
      w_events (ws l' w) = w_events (ws l w) \<and> ev_valid tm (w_events (ws l w)) w e \<and>
      (w \<in> watching l' \<longleftrightarrow> w \<in> watching l) \<and> (e AND EV_ERROR \<noteq> 0 \<longleftrightarrow> w \<in> errs l) \<and>
      (tm w \<or> e AND EV_ERROR \<noteq> 0 \<or> w \<in> watching l')"
proof -
  have l: "loop_inv tm l" "pend_ok l" using assms by (auto simp: lp_inv_def loop_inv_def loop_ok_def)
  note p = pop_inv [OF l(1) pop] and q = pop_errs [OF l(2) pop]
  show "lp_inv tm l'" using assms(1) p(1,2,5) q(1) by (cases wo) (auto simp: lp_inv_def)
  show "loop_frame (set_option wo) l l'"
    using p(2-5) q(1) by (cases wo) (auto simp: loop_frame_def same_conf_def same_masks_def)
  show "\<And>w. wo = Some w \<Longrightarrow> w \<in> pending_set l \<and> w \<notin> pending_set l' \<and> cb (ws l' w) = cb (ws l w) \<and>
      w_events (ws l' w) = w_events (ws l w) \<and> ev_valid tm (w_events (ws l w)) w e \<and>
      (w \<in> watching l' \<longleftrightarrow> w \<in> watching l) \<and> (e AND EV_ERROR \<noteq> 0 \<longleftrightarrow> w \<in> errs l) \<and>
      (tm w \<or> e AND EV_ERROR \<noteq> 0 \<or> w \<in> watching l')"
    using p q(2) assms(1) by (auto simp: lp_inv_def same_conf_def same_masks_def)
qed

text \<open>
  The work of the loop between callbacks. It engages no watcher that was not engaged and lets
  none go, and only \<open>fd_kill\<close> makes errors.
\<close>

definition loop_keeps :: "('w, 'c, 't) ev_loop \<Rightarrow> ('w, 'c, 't) ev_loop \<Rightarrow> bool" where
  "loop_keeps l l' \<longleftrightarrow>
     (\<forall>v. cb (ws l' v) = cb (ws l v) \<and> w_events (ws l' v) = w_events (ws l v) \<and> (engaged l' v \<longleftrightarrow> engaged l v))"

lemma lp_event:
  assumes "lp_inv tm l" and "e AND EV_ERROR = 0"
  shows "lp_inv tm (fd_event fd e l)" "loop_keeps l (fd_event fd e l)" "errs (fd_event fd e l) = errs l"
    "pending_set (fd_event fd e l) \<subseteq> pending_set l \<union> {w. \<not> tm w \<and> w_fd (ws l w) = int fd}"
proof -
  have ok: "loop_inv tm l" "loop_ok tm l" using assms(1) by (auto simp: lp_inv_def loop_inv_def)
  note q = fd_event_quiet [OF ok(2) assms(2), of fd] and s = fd_event_ok [OF ok(2), of fd e]
  have inv: "loop_inv tm (fd_event fd e l)" using loop_step_inv [OF ls_event ok(1)] by blast
  show "errs (fd_event fd e l) = errs l" using q by (simp add: quiet_def)
  with inv s assms(1) show "lp_inv tm (fd_event fd e l)" by (auto simp: lp_inv_def split: if_splits)
  show "loop_keeps l (fd_event fd e l)"
    using q s by (auto simp: loop_keeps_def quiet_def same_conf_def same_masks_def engaged_def split: if_splits)
  show "pending_set (fd_event fd e l) \<subseteq> pending_set l \<union> {w. \<not> tm w \<and> w_fd (ws l w) = int fd}"
    using s by auto
qed

lemma lp_timers:
  fixes l :: "('w, 'c, 't :: {linorder, plus, minus, zero}) ev_loop"
  assumes "lp_inv tm l"
  shows "\<exists>l'. timers_reify l = Some (Inr l') \<and> lp_inv tm l' \<and> loop_keeps l l' \<and> errs l' = errs l \<and>
    pending_set l' = pending_set l \<union> expired l \<and> expired l \<subseteq> Collect tm"
proof -
  have inv: "loop_inv tm l" and ok: "loop_ok tm l" using assms(1) by (auto simp: lp_inv_def loop_inv_def)
  from timers_reify_inv [OF inv] obtain l' where l': "timers_reify l = Some (Inr l')" "loop_inv tm l'"
    "watching l' = watching l - expired l" "pending_set l' = pending_set l \<union> expired l" by blast
  have q: "quiet l l'" using timers_reify_quiet [OF inv l'(1)] .
  have ex: "expired l \<subseteq> {w. tm w \<and> w \<in> watching l}" using expired_watching [OF ok] by auto
  have "lp_inv tm l'" using assms l'(2-4) q ex by (auto simp: lp_inv_def quiet_def)
  moreover have "loop_keeps l l'"
    using q l'(3,4) ex by (auto simp: loop_keeps_def quiet_def same_conf_def same_masks_def engaged_def)
  ultimately show ?thesis using l' q ex by (auto simp: quiet_def)
qed

lemma lp_kill:
  fixes l :: "('w, 'c, 't :: {linorder, plus, minus, zero}) ev_loop"
  assumes "lp_inv tm l"
  shows "\<exists>l'. fd_kill fd l = Some (Inr l') \<and> lp_inv tm l' \<and> loop_keeps l l' \<and>
    errs l' = errs l \<union> {w. \<not> tm w \<and> w \<in> watching l \<and> w_fd (ws l w) = int fd} \<and>
    pending_set l' = pending_set l \<union> {w. \<not> tm w \<and> w \<in> watching l \<and> w_fd (ws l w) = int fd}"
proof -
  have inv: "loop_inv tm l" and ok: "loop_ok tm l" using assms(1) by (auto simp: lp_inv_def loop_inv_def)
  have hd: "set (anfd_head l fd) = {w. \<not> tm w \<and> w \<in> watching l \<and> w_fd (ws l w) = int fd}"
    using ok by (auto simp: loop_ok_def io_ok_def watching_def)
  from fd_kill_ok [OF ok, of fd] obtain l' where l': "fd_kill fd l = Some (Inr l')"
    "watching l' = watching l - set (anfd_head l fd)" "pending_set l' = pending_set l \<union> set (anfd_head l fd)"
    "same_conf l l'" by blast
  have inv': "loop_inv tm l'" using loop_step_inv [OF ls_kill [OF l'(1)] inv] by blast
  note m = fd_kill_masks [OF ok l'(1)]
  have "lp_inv tm l'" using assms inv' l'(2,3) m by (auto simp: lp_inv_def)
  moreover have "loop_keeps l l'"
    using m l'(2-4) hd by (auto simp: loop_keeps_def same_conf_def same_masks_def engaged_def)
  ultimately show ?thesis using l'(1,3) m hd by auto
qed

lemma lp_clock:
  fixes l :: "('w, 'c, 't :: {linorder, plus, minus, zero}) ev_loop"
  assumes "lp_inv tm l" and "mn_now l \<le> t"
  shows "lp_inv tm (l\<lparr>mn_now := t\<rparr>)" "loop_keeps l (l\<lparr>mn_now := t\<rparr>)" "errs (l\<lparr>mn_now := t\<rparr>) = errs l"
    "pending_set (l\<lparr>mn_now := t\<rparr>) = pending_set l" "watching (l\<lparr>mn_now := t\<rparr>) = watching l"
proof -
  have inv: "loop_inv tm (l\<lparr>mn_now := t\<rparr>)"
    using loop_step_inv [OF ls_clock [OF assms(2)]] assms(1) by (auto simp: lp_inv_def)
  show "errs (l\<lparr>mn_now := t\<rparr>) = errs l" "pending_set (l\<lparr>mn_now := t\<rparr>) = pending_set l"
    "watching (l\<lparr>mn_now := t\<rparr>) = watching l" by (simp_all add: errs_def pending_set_def watching_def)
  with inv assms(1) show "lp_inv tm (l\<lparr>mn_now := t\<rparr>)" by (simp add: lp_inv_def)
  show "loop_keeps l (l\<lparr>mn_now := t\<rparr>)" by (simp add: loop_keeps_def engaged_def pending_set_def watching_def)
qed

lemma lp_fds:
  fixes l :: "('w, 'c, 't :: {linorder, plus, minus, zero}) ev_loop"
  assumes "lp_inv tm l"
  shows "lp_inv tm (l\<lparr>anfd_reify := r, anfd_events := ev, fdchanges := c\<rparr>)"
    "loop_keeps l (l\<lparr>anfd_reify := r, anfd_events := ev, fdchanges := c\<rparr>)"
    "errs (l\<lparr>anfd_reify := r, anfd_events := ev, fdchanges := c\<rparr>) = errs l"
    "pending_set (l\<lparr>anfd_reify := r, anfd_events := ev, fdchanges := c\<rparr>) = pending_set l"
    "watching (l\<lparr>anfd_reify := r, anfd_events := ev, fdchanges := c\<rparr>) = watching l"
proof -
  let ?l = "l\<lparr>anfd_reify := r, anfd_events := ev, fdchanges := c\<rparr>"
  have inv: "loop_inv tm ?l" using loop_step_inv [OF ls_fds [of l c ev r]] assms unfolding lp_inv_def by blast
  show "errs ?l = errs l" "pending_set ?l = pending_set l" "watching ?l = watching l"
    by (simp_all add: errs_def pending_set_def watching_def)
  with inv assms show "lp_inv tm ?l" by (simp add: lp_inv_def)
  show "loop_keeps l ?l" by (simp add: loop_keeps_def engaged_def pending_set_def watching_def)
qed

lemma loop_keeps_trans: "loop_keeps l1 l2 \<Longrightarrow> loop_keeps l2 l3 \<Longrightarrow> loop_keeps l1 l3"
  by (simp add: loop_keeps_def)

end
