(* ===== verification/Libev_Reify.thy ===== *)
theory Libev_Reify
  imports Libev_Watchers
begin

text \<open>
  \<open>fd_reify\<close> of \<^verbatim>\<open>src/vendor/ev.c\<close>: telling the kernel which events the watchers want. The loop
  walks a list that grows when the kernel rejects a descriptor; the lemmas show that it ends, that
  it keeps the loop's invariant, and that only watchers of rejected descriptors get an error.
\<close>

section \<open>What killing a descriptor changes\<close>

lemma stop_changes:
  assumes "ev_io_stop w l = Inr l'" and "active (ws l w) \<noteq> 0" and "w_fd (ws l w) = int fd"
  shows "anfd_head l' = (anfd_head l)(fd := wlist_del (anfd_head l fd) w)" and "anfd_reify l' fd \<noteq> 0"
    and "fdchanges l' = fdchanges l @ (if anfd_reify l fd = 0 then [fd] else [])" and "w_fd (ws l' v) = w_fd (ws l v)"
proof -
  have z: "r OR EV_ANFD_REIFY \<noteq> 0" for r :: u8 by (simp add: word_or_zero EV_ANFD_REIFY_def)
  let ?l0 = "clear_pending w l"
  have c: "active (ws ?l0 w) \<noteq> 0" "w_fd (ws ?l0 u) = w_fd (ws l u)" "anfd_head ?l0 = anfd_head l"
    "anfd_reify ?l0 = anfd_reify l" "fdchanges ?l0 = fdchanges l" for u
    using assms(2) by (simp_all add: clear_pending_def Let_def)
  have l': "l' = fd_change fd EV_ANFD_REIFY (ev_stop w (?l0\<lparr>anfd_head := (anfd_head l)(fd := wlist_del (anfd_head l fd) w)\<rparr>))"
    using assms(1) c(1) assms(3) by (simp add: ev_io_stop_def Let_def bind_res_Inr_iff c(2,3))
  show "anfd_head l' = (anfd_head l)(fd := wlist_del (anfd_head l fd) w)" by (simp add: l' fd_change_def Let_def ev_stop_def)
  show "anfd_reify l' fd \<noteq> 0" by (simp add: l' fd_change_def Let_def ev_stop_def z [unfolded EV_ANFD_REIFY_def] EV_ANFD_REIFY_def)
  show "fdchanges l' = fdchanges l @ (if anfd_reify l fd = 0 then [fd] else [])" by (simp add: l' fd_change_def Let_def ev_stop_def c(4,5))
  show "w_fd (ws l' v) = w_fd (ws l v)" by (simp add: l' fd_change_def Let_def ev_stop_def c(2))
qed

lemma feed_fdchanges: "fdchanges (ev_feed_event w e l) = fdchanges l"
  by (simp add: ev_feed_event_def Let_def)

lemma fd_kill_changes:
  fixes l :: "('w, 'c, 't :: {linorder, plus, minus, zero}) ev_loop"
  assumes "loop_ok tm l" and "fd_kill fd l = Some (Inr l')"
  shows "anfd_head l' = (anfd_head l)(fd := []) \<and>
    length (fdchanges l') \<le> length (fdchanges l) + (if anfd_reify l fd = 0 then 1 else 0) \<and>
    (\<forall>v. w_fd (ws l' v) = w_fd (ws l v))"
  using assms
proof (induction "length (anfd_head l fd)" arbitrary: l)
  case 0
  then have "fd_kill fd l = Some (Inr l)" by (subst fd_kill.simps) simp
  with 0 show ?case by (simp add: fun_upd_idem)
next
  case (Suc n)
  then obtain w rest where hd: "anfd_head l fd = w # rest" by (cases "anfd_head l fd") auto
  have w: "\<not> tm w" "active (ws l w) = 1" "w_fd (ws l w) = int fd"
    using Suc.prems(1) hd unfolding loop_ok_def io_ok_def by (metis list.set_intros(1))+
  from ev_io_stop_ok [OF Suc.prems(1) w(1)] obtain l1 where l1: "ev_io_stop w l = Inr l1" "loop_ok tm l1"
    by blast
  let ?l2 = "ev_feed_event w (EV_ERROR OR EV_READ OR EV_WRITE) l1"
  note c = stop_changes [OF l1(1) _ w(3)]
  have l2: "anfd_head ?l2 = (anfd_head l)(fd := rest)" "anfd_reify ?l2 fd \<noteq> 0"
    "fdchanges ?l2 = fdchanges l @ (if anfd_reify l fd = 0 then [fd] else [])"
    "\<And>v. w_fd (ws ?l2 v) = w_fd (ws l v)"
    using c w(2) hd by (simp_all add: feed_frame feed_fdchanges)
  have "fd_kill fd l = fd_kill fd ?l2" using hd l1(1) by (subst fd_kill.simps) simp
  with Suc.hyps(1) [of ?l2, OF _ feed_ok [OF l1(2)]] Suc.hyps(2) Suc.prems(2) hd l2 show ?case by (simp split: if_splits)
qed

section \<open>The loop\<close>

text \<open>The watchers of descriptors the kernel rejects.\<close>

definition rejected :: "('w \<Rightarrow> bool) \<Rightarrow> (nat \<Rightarrow> bool) \<Rightarrow> ('w, 'c, 't) ev_loop \<Rightarrow> 'w set" where
  "rejected tm accept l = {w. \<not> tm w \<and> w \<in> watching l \<and> \<not> accept (nat (w_fd (ws l w)))}"

definition reified :: "('w \<Rightarrow> bool) \<Rightarrow> (nat \<Rightarrow> bool) \<Rightarrow> ('w, 'c, 't :: {linorder, plus, minus, zero}) ev_loop \<Rightarrow>
    ('w, 'c, 't) ev_loop \<Rightarrow> bool" where
  "reified tm accept l l' \<longleftrightarrow>
     lp_inv tm l' \<and> loop_keeps l l' \<and> errs l' \<subseteq> errs l \<union> rejected tm accept l \<and>
     pending_set l' \<subseteq> pending_set l \<union> rejected tm accept l \<and> rejected tm accept l' \<subseteq> rejected tm accept l"

lemma reified_trans: "reified tm accept l1 l2 \<Longrightarrow> reified tm accept l2 l3 \<Longrightarrow> reified tm accept l1 l3"
  unfolding reified_def using loop_keeps_trans by blast

definition heads :: "('w, 'c, 't) ev_loop \<Rightarrow> nat set" where
  "heads l = {fd. anfd_head l fd \<noteq> []}"

lemma finite_heads:
  assumes "io_ok tm l"
  shows "finite (heads l)"
proof (rule finite_subset)
  show "heads l \<subseteq> {..<anfdmax l}"
  proof
    fix fd assume "fd \<in> heads l"
    then obtain w where w: "w \<in> set (anfd_head l fd)" by (cases "anfd_head l fd") (auto simp: heads_def)
    then have "\<not> tm w \<and> active (ws l w) = 1 \<and> w_fd (ws l w) = int fd" using assms by (auto simp: io_ok_def)
    then have "nat (w_fd (ws l w)) < anfdmax l" "w_fd (ws l w) = int fd" using assms by (auto simp: io_ok_def)
    then show "fd \<in> {..<anfdmax l}" by simp
  qed
qed simp

lemma fd_reify_one_ok:
  fixes l :: "('w, 'c, 't :: {linorder, plus, minus, zero}) ev_loop"
  assumes lp: "lp_inv tm l"
  shows "\<exists>l'. fd_reify_one accept fd l = Some (Inr l') \<and> reified tm accept l l' \<and>
    (heads l' = heads l \<and> fdchanges l' = fdchanges l \<or>
     heads l' \<subset> heads l \<and> length (fdchanges l') \<le> length (fdchanges l) + 1)"
proof -
  define ev where "ev = fold (\<lambda>w e. e OR ucast (w_events (ws l w))) (anfd_head l fd) (0 :: u8)"
  define l1 where "l1 = l\<lparr>anfd_reify := (anfd_reify l)(fd := 0), anfd_events := (anfd_events l)(fd := ev)\<rparr>"
  have l1': "l1 = l\<lparr>anfd_reify := (anfd_reify l)(fd := 0), anfd_events := (anfd_events l)(fd := ev), fdchanges := fdchanges l\<rparr>"
    by (simp add: l1_def)
  note f = lp_fds [OF lp, where r = "(anfd_reify l)(fd := 0)" and ev = "(anfd_events l)(fd := ev)" and c = "fdchanges l",
      folded l1']
  have r1: "reified tm accept l l1" using f by (auto simp: reified_def rejected_def l1_def)
  have h1: "heads l1 = heads l" "fdchanges l1 = fdchanges l" by (simp_all add: heads_def l1_def)
  have one: "fd_reify_one accept fd l \<in> {epoll_modify accept fd ev l1, Some (Inr l1)}"
    by (simp add: fd_reify_one_def ev_def l1_def Let_def)
  show ?thesis
  proof (cases "fd_reify_one accept fd l = Some (Inr l1)")
    case True then show ?thesis using r1 h1 by blast
  next
    case False
    then have k: "fd_reify_one accept fd l = fd_kill fd l1" "ev \<noteq> 0" "\<not> accept fd"
      using one by (auto simp: epoll_modify_def split: if_splits)
    have hd: "anfd_head l1 fd \<noteq> []" using k(2) by (auto simp: ev_def l1_def)
    from lp_kill [OF f(1), of fd] obtain l2 where l2: "fd_kill fd l1 = Some (Inr l2)" "lp_inv tm l2" "loop_keeps l1 l2"
      "errs l2 = errs l1 \<union> {w. \<not> tm w \<and> w \<in> watching l1 \<and> w_fd (ws l1 w) = int fd}"
      "pending_set l2 = pending_set l1 \<union> {w. \<not> tm w \<and> w \<in> watching l1 \<and> w_fd (ws l1 w) = int fd}" by blast
    have ok: "loop_ok tm l1" using f(1) by (simp add: lp_inv_def loop_inv_def)
    note c = fd_kill_changes [OF ok l2(1)]
    have "watching l2 \<subseteq> watching l1"
      using loop_step_inv [OF ls_kill [OF l2(1)], of tm] f(1) by (auto simp: lp_inv_def)
    then have "reified tm accept l1 l2"
      using l2(2-5) k(3) c unfolding reified_def rejected_def by auto
    moreover have "heads l2 \<subset> heads l1" using c hd by (auto simp: heads_def split: if_splits)
    moreover have "length (fdchanges l2) \<le> length (fdchanges l1) + 1" using c by (simp split: if_splits)
    ultimately show ?thesis using k(1) l2(1) h1 reified_trans [OF r1, of l2] by auto
  qed
qed

lemma fd_reify_loop_ok:
  fixes l :: "('w, 'c, 't :: {linorder, plus, minus, zero}) ev_loop"
  assumes "lp_inv tm l"
  shows "\<exists>l'. fd_reify_loop accept i l = Some (Inr l') \<and> reified tm accept l l' \<and> fdchanges l' = []"
  using assms
proof (induction "2 * card (heads l) + (length (fdchanges l) - i)" arbitrary: i l rule: less_induct)
  case less
  have fin: "finite (heads l)" using less.prems finite_heads by (auto simp: lp_inv_def loop_inv_def loop_ok_def)
  show ?case
  proof (cases "i < length (fdchanges l)")
    case True
    from fd_reify_one_ok [OF less.prems, of accept "fdchanges l ! i"] obtain l1 where
      l1: "fd_reify_one accept (fdchanges l ! i) l = Some (Inr l1)" "reified tm accept l l1"
      and d: "heads l1 = heads l \<and> fdchanges l1 = fdchanges l \<or>
        heads l1 \<subset> heads l \<and> length (fdchanges l1) \<le> length (fdchanges l) + 1" by blast
    have "card (heads l1) < card (heads l)" if "heads l1 \<subset> heads l" using psubset_card_mono [OF fin that] .
    with d True have "2 * card (heads l1) + (length (fdchanges l1) - Suc i) < 2 * card (heads l) + (length (fdchanges l) - i)"
      by (elim disjE) auto
    from less.hyps [OF this] l1(2) obtain l2 where "fd_reify_loop accept (Suc i) l1 = Some (Inr l2)"
      "reified tm accept l1 l2" "fdchanges l2 = []" by (auto simp: reified_def)
    with l1 True reified_trans [OF l1(2)] show ?thesis by (subst fd_reify_loop.simps) auto
  next
    case False
    have eq: "l\<lparr>fdchanges := []\<rparr> = l\<lparr>anfd_reify := anfd_reify l, anfd_events := anfd_events l, fdchanges := []\<rparr>" by simp
    note f = lp_fds [OF less.prems, where r = "anfd_reify l" and ev = "anfd_events l" and c = "[]", folded eq]
    have "reified tm accept l (l\<lparr>fdchanges := []\<rparr>)" using f by (auto simp: reified_def rejected_def)
    with False show ?thesis by (subst fd_reify_loop.simps) simp
  qed
qed

end
