(* ===== verification/Libev_Contract.thy ===== *)
theory Libev_Contract
  imports Libev_Reify
begin

text \<open>
  What the event loop of \<^verbatim>\<open>src/vendor/ev.c\<close> promises to the coroutine library, stated on its
  own: stopped watchers are silent whatever is done with other watchers, expired timers and kernel events reach exactly the watchers
  they concern, the loops of the loop end, and starting and stopping a watcher leave the rest of
  the loop alone. The small loop at the start is the input of the examples.
\<close>

section \<open>A loop for the examples\<close>

text \<open>Even watchers wait for descriptors, odd ones for the clock; the clock stands at 5.\<close>

definition ex_loop :: "(nat, nat, int) ev_loop" where
  "ex_loop =
     \<lparr>ws = (\<lambda>_. \<lparr>active = 0, pending = 0, priority = 0, cb = 0, w_fd = 0, w_events = 0, w_at = 0, w_repeat = 0\<rparr>),
      anfd_head = (\<lambda>_. []), anfd_events = (\<lambda>_. 0), anfd_reify = (\<lambda>_. 0), anfdmax = 0, fdchanges = [],
      pendings = (\<lambda>_. []), timers = (\<lambda>_. ANHE 0 0), timercnt = 0, rfeeds = [], mn_now = 5, activecnt = 0\<rparr>"

lemma ex_loop_inv: "lp_inv odd ex_loop" "loop_inv odd ex_loop" "watching ex_loop = {}" "pending_set ex_loop = {}"
proof -
  show e: "watching ex_loop = {}" "pending_set ex_loop = {}" by (simp_all add: watching_def pending_set_def ex_loop_def)
  show "loop_inv odd ex_loop"
    by (simp add: loop_inv_def loop_ok_def pend_ok_def io_ok_def tm_ok_def ev_ok_def watching_def ex_loop_def
        heap_ok_def heap_ordered_def heap_indexed_def)
  with e show "lp_inv odd ex_loop" by (simp add: lp_inv_def)
qed

text \<open>The loop with a timer of 3 seconds and a reader of descriptor 4, after \<open>fd_reify\<close>.\<close>

definition ex_busy :: "(nat, nat, int) ev_loop" where
  "ex_busy =
     (case ev_timer_start 3 (ev_timer_init 3 7 3 0 ex_loop) of
        Inl f \<Rightarrow> ex_loop
      | Inr l \<Rightarrow> (case ev_io_start 2 (ev_io_init 2 8 4 EV_READ l) of
          Inl f \<Rightarrow> ex_loop
        | Inr l \<Rightarrow> l\<lparr>anfd_reify := (\<lambda>_. 0), anfd_events := (\<lambda>_. 1), fdchanges := []\<rparr>))"

lemma ex_busy_inv: "lp_inv odd ex_busy" "watching ex_busy = {2, 3}" "pending_set ex_busy = {}"
proof -
  have o: "odd (3 :: nat)" "\<not> odd (2 :: nat)" by simp_all
  from start_timer_inv [OF ex_loop_inv(2) o(1), of 7 3] ex_loop_inv obtain l1 where
    l1: "ev_timer_start 3 (ev_timer_init 3 7 3 0 ex_loop) = Inr l1" "loop_inv odd l1" "watching l1 = {3}" "pending_set l1 = {}"
    by auto
  from start_io_inv [OF l1(2) o(2), of 4 EV_READ 8] l1(3,4) obtain l2 where
    l2: "ev_io_start 2 (ev_io_init 2 8 4 EV_READ l1) = Inr l2" "loop_inv odd l2" "watching l2 = {2, 3}" "pending_set l2 = {}"
    by (auto simp: io_mask_def)
  have lp: "lp_inv odd l2" using l2 by (simp add: lp_inv_def)
  have b: "ex_busy = l2\<lparr>anfd_reify := (\<lambda>_. 0), anfd_events := (\<lambda>_. 1), fdchanges := []\<rparr>" by (simp add: ex_busy_def l1(1) l2(1))
  note f = lp_fds [OF lp, where r = "\<lambda>_. 0" and ev = "\<lambda>_. 1" and c = "[]"]
  show "lp_inv odd ex_busy" "watching ex_busy = {2, 3}" "pending_set ex_busy = {}"
    unfolding b using f(1,4,5) l2(3,4) by simp_all
qed

lemma ex_busy_conf: "w_fd (ws ex_busy 2) = 4" "w_events (ws ex_busy 2) = EV_READ" "w_at (ws ex_busy 3) = 8" "mn_now ex_busy = 5"
  "anfd_reify ex_busy = (\<lambda>_. 0)"
  by (simp_all add: ex_busy_def ex_loop_def ev_timer_start_def ev_timer_init_def ev_init_def ev_io_start_def ev_io_init_def
      ev_start_def pri_adjust_def on_heap_def upheap_def upheap_loop.simps HPARENT_def HEAP0_def heap_place_def
      anfds_needsize_def Let_def fd_change_def ev_consts EV_MINPRI_def EV_MAXPRI_def)

section \<open>How the library uses a loop\<close>

text \<open>
  On top of \<open>watcher_loop\<close>: initialising and starting a watcher (\<open>start v l l'\<close>: this was done to
  \<open>v\<close> in the loop \<open>l\<close> and gave \<open>l'\<close>) engages that watcher and no other.
\<close>

locale watcher_client = watcher_loop inv watch pend step stop
  for inv :: "'l \<Rightarrow> bool" and watch :: "'l \<Rightarrow> 'w set" and pend :: "'l \<Rightarrow> 'w set"
    and step :: "'l \<Rightarrow> 'l \<Rightarrow> bool" and stop :: "'w \<Rightarrow> 'l \<Rightarrow> 'l res" +
  fixes start :: "'w \<Rightarrow> 'l \<Rightarrow> 'l \<Rightarrow> bool"
  assumes start_inv: "inv l \<Longrightarrow> start v l l' \<Longrightarrow> inv l'"
    and start_watch: "inv l \<Longrightarrow> start v l l' \<Longrightarrow> watch l' = insert v (watch l)"
    and start_pend: "inv l \<Longrightarrow> start v l l' \<Longrightarrow> pend l' = pend l"
begin

lemma other_keeps:
  assumes "inv l" and "w \<notin> watch l" and "w \<notin> pend l"
    and "step l l' \<or> (\<exists>v. v \<noteq> w \<and> (stop v l = Inr l' \<or> start v l l'))"
  shows "inv l' \<and> w \<notin> watch l' \<and> w \<notin> pend l'"
  using assms(4)
proof (elim disjE exE conjE)
  assume "step l l'"
  with step_inv [OF assms(1)] step_watch [OF assms(1)] step_pend [OF assms(1)] assms(2,3) show ?thesis by fastforce
next
  fix v assume "stop v l = Inr l'"
  with stop_inv [OF assms(1), of v] assms(2,3) show ?thesis by auto
next
  fix v assume "v \<noteq> w" "start v l l'"
  with start_inv [OF assms(1)] start_watch [OF assms(1), of v l'] start_pend [OF assms(1), of v l'] assms(2,3) show ?thesis by simp
qed

lemma silent_among_others:
  assumes "use\<^sup>*\<^sup>* l l'" and "\<And>l l'. use l l' \<Longrightarrow> step l l' \<or> (\<exists>v. v \<noteq> w \<and> (stop v l = Inr l' \<or> start v l l'))"
    and "inv l" and "w \<notin> watch l" and "w \<notin> pend l"
  shows "inv l' \<and> w \<notin> watch l' \<and> w \<notin> pend l'"
  using assms(1)
proof (induction rule: rtranclp_induct)
  case base
  show ?case using assms(3-5) by simp
next
  case (step y z)
  then show ?case using other_keeps [of y w z] assms(2) by blast
qed

end

text \<open>
  The library initialises a watcher only when it is neither watched nor pending (the functions of libev
  demand it), a descriptor watcher with a valid descriptor and mask, a timer without a repeat.
\<close>

inductive ev_begin :: "('w \<Rightarrow> bool) \<Rightarrow> 'w \<Rightarrow> ('w, 'c, 't :: {linorder, plus, minus, zero}) ev_loop \<Rightarrow> ('w, 'c, 't) ev_loop \<Rightarrow> bool"
  for tm v l l' where
  eb_io: "\<not> tm v \<Longrightarrow> v \<notin> watching l \<Longrightarrow> v \<notin> pending_set l \<Longrightarrow> 0 \<le> fd \<Longrightarrow> io_mask evs \<Longrightarrow>
    ev_io_start v (ev_io_init v f fd evs l) = Inr l' \<Longrightarrow> ev_begin tm v l l'"
| eb_timer: "tm v \<Longrightarrow> v \<notin> watching l \<Longrightarrow> v \<notin> pending_set l \<Longrightarrow>
    ev_timer_start v (ev_timer_init v f after 0 l) = Inr l' \<Longrightarrow> ev_begin tm v l l'"

lemma ev_begin_inv:
  assumes "loop_inv tm l" and "ev_begin tm v l l'"
  shows "loop_inv tm l'" and "watching l' = insert v (watching l)" and "pending_set l' = pending_set l"
proof -
  have "loop_inv tm l' \<and> watching l' = insert v (watching l) \<and> pending_set l' = pending_set l"
    using assms(2)
  proof cases
    case (eb_io fd evs f)
    with start_io_inv [OF assms(1) eb_io(1-5), of f] show ?thesis by (elim exE conjE) simp
  next
    case (eb_timer f after)
    with start_timer_inv [OF assms(1) eb_timer(1-3), of f after] show ?thesis by (elim exE conjE) simp
  qed
  then show "loop_inv tm l'" "watching l' = insert v (watching l)" "pending_set l' = pending_set l" by blast+
qed

interpretation evc: watcher_client "loop_inv tm" watching pending_set loop_step "ev_any_stop tm" "ev_begin tm" for tm
  by unfold_locales (rule ev_begin_inv; assumption)+

text \<open>
  What can happen to a loop without \<open>w\<close> being started: the loop's own steps, and the starts and stops of
  other watchers, which is all that the callbacks and the handlers of the library do to a loop.
\<close>

inductive use_other ::
  "('w \<Rightarrow> bool) \<Rightarrow> 'w \<Rightarrow> ('w, 'c, 't :: {linorder, plus, minus, zero}) ev_loop \<Rightarrow> ('w, 'c, 't) ev_loop \<Rightarrow> bool"
  for tm w where
  uo_loop: "loop_step l l' \<Longrightarrow> use_other tm w l l'"
| uo_stop: "v \<noteq> w \<Longrightarrow> ev_any_stop tm v l = Inr l' \<Longrightarrow> use_other tm w l l'"
| uo_start: "v \<noteq> w \<Longrightarrow> ev_begin tm v l l' \<Longrightarrow> use_other tm w l l'"

lemma use_other_cases: "use_other tm w l l' \<Longrightarrow> loop_step l l' \<or> (\<exists>v. v \<noteq> w \<and> (ev_any_stop tm v l = Inr l' \<or> ev_begin tm v l l'))"
  by (cases rule: use_other.cases) auto

section \<open>Promises\<close>

text \<open>
  (C26) A stopped watcher is silent: \<open>ev_io_stop\<close> and \<open>ev_timer_stop\<close> always return, and whatever is done to
  the loop afterwards short of starting that watcher again (kernel events, the clock, expired timers, rejected
  descriptors, callbacks taken out of the pending queues, other watchers initialised, started and stopped), the
  watcher is neither watched, linked to a descriptor, in the heap nor pending, and it is never the one whose
  callback is taken out of a pending queue.
\<close>

theorem stopped_watcher_silent:
  assumes "loop_inv tm l"
  shows "\<exists>l1. ev_any_stop tm w l = Inr l1 \<and> (\<forall>l2. (use_other tm w)\<^sup>*\<^sup>* l1 l2 \<longrightarrow>
    w \<notin> watching l2 \<and> (\<forall>fd. w \<notin> set (anfd_head l2 fd)) \<and> w \<notin> heap_watchers (timers l2) (timercnt l2) \<and> w \<notin> pending_set l2 \<and>
    (\<forall>pri p l3. pending_pop pri l2 = Some (p, l3) \<longrightarrow> fst p \<noteq> Some w))"
proof -
  from evl.stop_inv [OF assms, of w] obtain l1 where
    l1: "ev_any_stop tm w l = Inr l1" "loop_inv tm l1" "w \<notin> watching l1" "w \<notin> pending_set l1" by blast
  have "w \<notin> watching l2 \<and> (\<forall>fd. w \<notin> set (anfd_head l2 fd)) \<and> w \<notin> heap_watchers (timers l2) (timercnt l2) \<and> w \<notin> pending_set l2 \<and>
    (\<forall>pri p l3. pending_pop pri l2 = Some (p, l3) \<longrightarrow> fst p \<noteq> Some w)" if "(use_other tm w)\<^sup>*\<^sup>* l1 l2" for l2
  proof -
    from evc.silent_among_others [OF that use_other_cases l1(2-4)]
    have l2: "loop_inv tm l2" "w \<notin> watching l2" "w \<notin> pending_set l2" by blast+
    then have ok: "io_ok tm l2" "tm_ok tm l2" by (simp_all add: loop_inv_def loop_ok_def)
    have "w \<notin> set (anfd_head l2 fd)" for fd using ok(1) l2(2) by (auto simp: io_ok_def watching_def)
    moreover have "w \<notin> heap_watchers (timers l2) (timercnt l2)"
      using tm_ok_heap_active(2) [OF ok(2), of w] l2(2) by (auto simp: watching_def)
    moreover have "fst p \<noteq> Some w" if "pending_pop pri l2 = Some (p, l3)" for pri p l3
      using pop_inv(6) [OF l2(1), of pri "fst p" "snd p" l3 w] that l2(3) by (cases p) auto
    ultimately show ?thesis using l2 by blast
  qed
  with l1(1) show ?thesis by blast
qed

theorem stopped_watcher_silent_witness:
  "3 \<in> watching ex_busy \<and>
   (\<exists>l1. ev_any_stop odd 3 ex_busy = Inr l1 \<and> (\<forall>l2. (use_other odd 3)\<^sup>*\<^sup>* l1 l2 \<longrightarrow> 3 \<notin> watching l2 \<and> 3 \<notin> pending_set l2))"
  using stopped_watcher_silent [of odd ex_busy 3] ex_busy_inv by (auto simp: lp_inv_def)

text \<open>
  (C27) \<open>timers_reify\<close> returns, and makes pending exactly the timers whose time has passed, which it
  stops: no expired timer is forgotten and no other is touched.
\<close>

theorem timers_reify_exact:
  fixes l :: "('w, 'c, 't :: {linorder, plus, minus, zero}) ev_loop"
  assumes "loop_inv tm l"
  shows "\<exists>l'. timers_reify l = Some (Inr l') \<and>
    watching l' = {w \<in> watching l. \<not> (tm w \<and> w_at (ws l w) < mn_now l)} \<and>
    pending_set l' = pending_set l \<union> {w \<in> watching l. tm w \<and> w_at (ws l w) < mn_now l}"
proof -
  have ok: "loop_ok tm l" using assms by (simp add: loop_inv_def)
  from timers_reify_inv [OF assms] obtain l' where "timers_reify l = Some (Inr l')"
    "watching l' = watching l - expired l" "pending_set l' = pending_set l \<union> expired l" by blast
  then show ?thesis unfolding expired_watching [OF ok] by auto
qed

theorem timers_reify_exact_witness:
  "\<exists>l'. timers_reify (ex_busy\<lparr>mn_now := 9\<rparr>) = Some (Inr l') \<and> watching l' = {2} \<and> pending_set l' = {3}"
proof -
  let ?l = "ex_busy\<lparr>mn_now := 9\<rparr>"
  note c = lp_clock [OF ex_busy_inv(1), of 9, simplified ex_busy_conf]
  have "loop_inv odd ?l" using c(1) by (simp add: lp_inv_def)
  from timers_reify_exact [OF this] obtain l' where l': "timers_reify ?l = Some (Inr l')"
    "watching l' = {w \<in> {2, 3}. \<not> (odd w \<and> w_at (ws ?l w) < 9)}"
    "pending_set l' = {w \<in> {2, 3}. odd w \<and> w_at (ws ?l w) < 9}"
    using c(4,5) ex_busy_inv(2,3) by auto
  have "watching l' = {2}" "pending_set l' = {3}" unfolding l'(2,3) using ex_busy_conf(3) by auto
  with l'(1) show ?thesis by blast
qed

text \<open>
  (C28) An event of the kernel makes pending exactly the watchers of that descriptor that asked for
  it, and stops none; while a change of the descriptor still has to be told to the kernel, the
  event is dropped.
\<close>

theorem fd_event_exact:
  assumes "loop_ok tm l"
  shows "watching (fd_event fd e l) = watching l \<and>
    pending_set (fd_event fd e l) = pending_set l \<union>
      {w \<in> watching l. \<not> tm w \<and> w_fd (ws l w) = int fd \<and> w_events (ws l w) AND e \<noteq> 0 \<and> anfd_reify l fd = 0}"
  using fd_event_ok [OF assms, of fd e] by auto

theorem fd_event_exact_witness:
  "pending_set (fd_event 4 EV_READ ex_busy) = {2} \<and> pending_set (fd_event 4 EV_WRITE ex_busy) = {}"
proof -
  have ok: "loop_ok odd ex_busy" using ex_busy_inv(1) by (simp add: lp_inv_def loop_inv_def)
  have "pending_set (fd_event 4 e ex_busy) = {w \<in> {2, 3}. even w \<and> w_fd (ws ex_busy w) = 4 \<and> w_events (ws ex_busy w) AND e \<noteq> 0}" for e
    using fd_event_exact [OF ok, of 4 e] ex_busy_inv(2,3) ex_busy_conf(5) by auto
  then show ?thesis using ex_busy_conf(1,2) by (auto simp: ev_consts)
qed

text \<open>
  (C29) \<open>fd_reify\<close> returns although the list it walks grows while it runs: whichever descriptors the
  kernel rejects, it ends with an empty list of changes, keeps the loop's invariant, and only
  watchers of rejected descriptors become pending, with an error.
\<close>

theorem fd_reify_total:
  assumes "lp_inv tm l"
  shows "\<exists>l'. fd_reify accept l = Some (Inr l') \<and> lp_inv tm l' \<and> fdchanges l' = [] \<and>
    pending_set l' \<subseteq> pending_set l \<union> {w \<in> watching l. \<not> tm w \<and> \<not> accept (nat (w_fd (ws l w)))} \<and>
    errs l' \<subseteq> errs l \<union> {w \<in> watching l. \<not> tm w \<and> \<not> accept (nat (w_fd (ws l w)))}"
  using fd_reify_loop_ok [OF assms, of accept 0] by (auto simp: fd_reify_def reified_def rejected_def)

theorem fd_reify_total_witness:
  "\<exists>l'. fd_reify (\<lambda>fd. fd \<noteq> 4) (ex_busy\<lparr>anfd_reify := (\<lambda>fd. if fd = 4 then 129 else 0), anfd_events := (\<lambda>_. 0), fdchanges := [4]\<rparr>)
     = Some (Inr l') \<and> fdchanges l' = []"
  using fd_reify_total [OF lp_fds(1) [OF ex_busy_inv(1)]] by blast

lemma entries_without_idle:
  assumes "tm_ok tm l" and "w \<notin> watching l"
  shows "filter_mset (\<lambda>e. anhe_w e \<noteq> w) (heap_entries (timers l) (timercnt l)) = heap_entries (timers l) (timercnt l)"
  using tm_ok_entries(3) [OF assms(1)] assms(2) by (fastforce simp: filter_mset_eq_conv watching_def)

lemma timer_start_stop:
  fixes l :: "('w, 'c, 't :: {linorder, plus, minus, zero}) ev_loop"
  assumes "lp_inv tm l" and "tm w" and "w \<notin> watching l" and "w \<notin> pending_set l"
  shows "\<exists>l1 l2. ev_timer_start w (ev_timer_init w f after 0 l) = Inr l1 \<and> lp_inv tm l1 \<and> watching l1 = insert w (watching l) \<and>
      heap_entries (timers l1) (timercnt l1) = add_mset (ANHE w (after + mn_now l)) (heap_entries (timers l) (timercnt l)) \<and>
      cb (ws l1 w) = f \<and>
      ev_timer_stop w l1 = Inr l2 \<and> lp_inv tm l2 \<and> watching l2 = watching l \<and> pending_set l2 = pending_set l \<and>
      heap_entries (timers l2) (timercnt l2) = heap_entries (timers l) (timercnt l) \<and> anfd_head l2 = anfd_head l \<and>
      (\<forall>u. u \<noteq> w \<longrightarrow> cb (ws l2 u) = cb (ws l u))"
proof -
  have ok: "loop_ok tm l" "tm_ok tm l" "\<not> engaged l w"
    using assms by (auto simp: lp_inv_def loop_inv_def loop_ok_def engaged_def)
  let ?l = "ev_timer_init w f after 0 l"
  note i = ev_timer_init_ok [OF ok(1) assms(2-4), of f after 0]
  have k: "timers ?l = timers l" "timercnt ?l = timercnt l" "mn_now ?l = mn_now l" "w_at (ws ?l w) = after" "anfd_head ?l = anfd_head l"
    by (simp_all add: ev_timer_init_def ev_init_def)
  have st: "timer_startable w ?l"
    by (simp add: timer_startable_def ev_timer_init_def ev_init_def EV_MINPRI_def EV_MAXPRI_def)
  from lp_start_timer [OF assms(1,2) ok(3), of f after] obtain l1 where
    l1: "ev_timer_start w ?l = Inr l1" "lp_inv tm l1" "loop_frame {w} l l1" "cb (ws l1 w) = f" by blast
  with ev_timer_start_ok [OF i(1) assms(2) st] i(2,3) k have
    w1: "watching l1 = insert w (watching l)" "pending_set l1 = pending_set l"
      "heap_entries (timers l1) (timercnt l1) = add_mset (ANHE w (after + mn_now l)) (heap_entries (timers l) (timercnt l))" by auto
  have h1: "anfd_head l1 = anfd_head l"
    using l1(1) k(5) by (auto simp: ev_timer_start_def Let_def ev_start_def bind_res_Inr_iff on_heap_frame split: if_splits)
  have ok1: "loop_ok tm l1" using l1(2) by (simp add: lp_inv_def loop_inv_def)
  from lp_stop [OF l1(2), of w] assms(2) obtain l2 where
    l2: "ev_timer_stop w l1 = Inr l2" "lp_inv tm l2" "loop_frame {w} l1 l2" by (auto simp: ev_any_stop_def)
  with ev_timer_stop_ok [OF ok1 assms(2)] w1 assms(3,4) have
    w2: "watching l2 = watching l" "pending_set l2 = pending_set l"
      "heap_entries (timers l2) (timercnt l2) = filter_mset (\<lambda>e. anhe_w e \<noteq> w) (heap_entries (timers l) (timercnt l))" by auto
  have "anfd_head l2 = anfd_head l1"
    using l2(1) by (auto simp: ev_timer_stop_def Let_def ev_stop_def bind_res_Inr_iff on_heap_frame clear_pending_frame split: if_splits)
  moreover have "\<forall>u. u \<noteq> w \<longrightarrow> cb (ws l2 u) = cb (ws l u)" using l1(3) l2(3) by (simp add: loop_frame_def)
  ultimately show ?thesis using l1 l2 w1 w2 h1 entries_without_idle [OF ok(2) assms(3)]
    by (intro exI [of _ l1] exI [of _ l2]) simp
qed

lemma io_start_stop:
  fixes l :: "('w, 'c, 't :: {linorder, plus, minus, zero}) ev_loop"
  assumes "lp_inv tm l" and "\<not> tm v" and "v \<notin> watching l" and "v \<notin> pending_set l" and "0 \<le> fd" and "io_mask evs"
  shows "\<exists>l1 l2. ev_io_start v (ev_io_init v f fd evs l) = Inr l1 \<and> lp_inv tm l1 \<and> watching l1 = insert v (watching l) \<and>
      anfd_head l1 = (anfd_head l)(nat fd := v # anfd_head l (nat fd)) \<and> cb (ws l1 v) = f \<and> w_events (ws l1 v) = evs \<and>
      ev_io_stop v l1 = Inr l2 \<and> lp_inv tm l2 \<and> watching l2 = watching l \<and> pending_set l2 = pending_set l \<and>
      heap_entries (timers l2) (timercnt l2) = heap_entries (timers l) (timercnt l) \<and> anfd_head l2 = anfd_head l \<and>
      (\<forall>u. u \<noteq> v \<longrightarrow> cb (ws l2 u) = cb (ws l u))"
proof -
  have ok: "loop_ok tm l" "\<not> engaged l v" using assms by (auto simp: lp_inv_def loop_inv_def engaged_def)
  let ?l = "ev_io_init v f fd evs l"
  note i = ev_io_init_ok [OF ok(1) assms(2-4), of f fd evs]
  have k: "timers ?l = timers l" "timercnt ?l = timercnt l" "w_fd (ws ?l v) = fd" "anfd_head ?l = anfd_head l"
    by (simp_all add: ev_io_init_def ev_init_def)
  have st: "io_startable v ?l" using assms(5) io_mask_start(1) [OF assms(6)]
    by (simp add: io_startable_def ev_io_init_def ev_init_def EV_MINPRI_def EV_MAXPRI_def)
  have io: "io_ok tm ?l" using i(1) by (simp add: loop_ok_def)
  from lp_start_io [OF assms(1,2) ok(2) assms(5,6), of f] obtain l1 where
    l1: "ev_io_start v ?l = Inr l1" "lp_inv tm l1" "loop_frame {v} l l1" "cb (ws l1 v) = f" "w_events (ws l1 v) = evs" by blast
  from ev_io_start_eq [OF st io] l1(1) k have
    h1: "anfd_head l1 = (anfd_head l)(nat fd := v # anfd_head l (nat fd))" "timers l1 = timers l" "timercnt l1 = timercnt l"
      "ws l1 = (ws ?l)(v := (ws ?l v)\<lparr>active := 1, w_events := w_events (ws ?l v) AND NOT EV_IOFDSET\<rparr>)"
    by (metis Inr_inject)+
  have w1: "watching l1 = insert v (watching l)" "pending_set l1 = pending_set l"
    using ev_io_start_ok [OF i(1) assms(2) st] l1(1) i(2,3) by auto
  have v1: "active (ws l1 v) \<noteq> 0" "w_fd (ws l1 v) = int (nat fd)" using h1(4) k(3) assms(5) by simp_all
  have ok1: "loop_ok tm l1" using l1(2) by (simp add: lp_inv_def loop_inv_def)
  from lp_stop [OF l1(2), of v] assms(2) obtain l2 where
    l2: "ev_io_stop v l1 = Inr l2" "lp_inv tm l2" "loop_frame {v} l1 l2" by (auto simp: ev_any_stop_def)
  with ev_io_stop_ok [OF ok1 assms(2)] w1 assms(3,4) have
    w2: "watching l2 = watching l" "pending_set l2 = pending_set l" by auto
  have "anfd_head l2 = anfd_head l" using stop_changes(1) [OF l2(1) v1] h1(1) by (simp add: fun_upd_idem)
  moreover have "timers l2 = timers l1" "timercnt l2 = timercnt l1"
    using l2(1) by (auto simp: ev_io_stop_def Let_def clear_pending_frame ev_stop_def fd_change_def bind_res_Inr_iff split: if_splits)
  moreover have "\<forall>u. u \<noteq> v \<longrightarrow> cb (ws l2 u) = cb (ws l u)" using l1(3) l2(3) by (simp add: loop_frame_def)
  ultimately show ?thesis using l1 l2 w1 w2 h1(1-3) by (intro exI [of _ l1] exI [of _ l2]) simp
qed

text \<open>
  (C30) Starting a watcher puts it into the loop, and stopping it brings back the loop as far as other
  watchers can tell. A timer started for \<open>after\<close> is one more entry of the heap, for that time from now; a
  descriptor watcher is the first of its descriptor's list. In both cases it is watched with its callback and the
  invariant of the loop holds. When it has been stopped, the heap has exactly the entries and every descriptor
  exactly the list of watchers it had, the same watchers are watched and pending, with the same callbacks, and
  the invariant holds.
\<close>

theorem start_stop_roundtrip:
  fixes l :: "('w, 'c, 't :: {linorder, plus, minus, zero}) ev_loop"
  assumes "lp_inv tm l" and "tm w" and "w \<notin> watching l" and "w \<notin> pending_set l"
    and "\<not> tm v" and "v \<notin> watching l" and "v \<notin> pending_set l" and "0 \<le> fd" and "io_mask evs"
  shows "(\<exists>l1 l2. ev_timer_start w (ev_timer_init w f after 0 l) = Inr l1 \<and> lp_inv tm l1 \<and> watching l1 = insert w (watching l) \<and>
      heap_entries (timers l1) (timercnt l1) = add_mset (ANHE w (after + mn_now l)) (heap_entries (timers l) (timercnt l)) \<and>
      cb (ws l1 w) = f \<and>
      ev_timer_stop w l1 = Inr l2 \<and> lp_inv tm l2 \<and> watching l2 = watching l \<and> pending_set l2 = pending_set l \<and>
      heap_entries (timers l2) (timercnt l2) = heap_entries (timers l) (timercnt l) \<and> anfd_head l2 = anfd_head l \<and>
      (\<forall>u. u \<noteq> w \<longrightarrow> cb (ws l2 u) = cb (ws l u))) \<and>
    (\<exists>l1 l2. ev_io_start v (ev_io_init v f fd evs l) = Inr l1 \<and> lp_inv tm l1 \<and> watching l1 = insert v (watching l) \<and>
      anfd_head l1 = (anfd_head l)(nat fd := v # anfd_head l (nat fd)) \<and> cb (ws l1 v) = f \<and> w_events (ws l1 v) = evs \<and>
      ev_io_stop v l1 = Inr l2 \<and> lp_inv tm l2 \<and> watching l2 = watching l \<and> pending_set l2 = pending_set l \<and>
      heap_entries (timers l2) (timercnt l2) = heap_entries (timers l) (timercnt l) \<and> anfd_head l2 = anfd_head l \<and>
      (\<forall>u. u \<noteq> v \<longrightarrow> cb (ws l2 u) = cb (ws l u)))"
  using timer_start_stop [OF assms(1-4)] io_start_stop [OF assms(1,5-9)] by (rule conjI)

theorem start_stop_roundtrip_witness:
  "\<exists>l1 l2. ev_timer_start 5 (ev_timer_init 5 1 2 0 ex_busy) = Inr l1 \<and> watching l1 = {5, 2, 3} \<and> ev_timer_stop 5 l1 = Inr l2 \<and>
     watching l2 = {2, 3} \<and> pending_set l2 = {}"
  using start_stop_roundtrip [of odd ex_busy 5 6 7 EV_READ 1 2, THEN conjunct1] ex_busy_inv by (auto simp: io_mask_def)

text \<open>
  The array of descriptors is always large enough: \<open>array_nextsize\<close> returns at least the size
  asked for and more than the current one, so \<open>array_needsize\<close> makes room for the descriptor and
  its loop of doublings ends.
\<close>

theorem array_nextsize_enough:
  assumes "0 < elem"
  shows "cnt \<le> array_nextsize elem cur cnt \<and> cur < array_nextsize elem cur cnt"
  using array_nextsize_ge [OF assms] .

theorem array_nextsize_enough_witness: "1000 \<le> array_nextsize 16 3 1000 \<and> 3 < array_nextsize 16 3 1000"
  using array_nextsize_enough [of 16 1000 3] by simp

end
