(* ===== verification/Acoro_Env.thy ===== *)
theory Acoro_Env
  imports Bsdqueue Libev_Reify Complex_Main
begin

text \<open>
  The data of \<^verbatim>\<open>src/src/acoro.c\<close>: tasks, the coroutine environment, the calls of the
  operating system, and the primitive operations on the environment that every part of the
  library uses (dereferencing a task, the locked queue operations, the semaphore of the
  manager, the pipes of the background workers).

  A task is a structure on the heap: \<open>tasks\<close> maps the addresses \<open>malloc\<close> has returned and
  \<open>free\<close> has not yet taken to their contents, and reading or writing any other address is the
  fault \<open>UseAfterFree\<close>. The \<open>LINK_NEXT_PTR\<close> fields are the map \<open>nxt\<close>. The watchers inside a
  task (\<open>ec.sock_watcher\<close>, \<open>ec.sock_timer\<close>) are named \<open>IoW a\<close> and \<open>TimerW a\<close>; their fields
  are kept by the loop they were initialised for last, since every handler initialises a
  watcher for the loop of its thread before it starts it there. A field that C leaves
  indeterminate until it is written is an option; reading \<open>None\<close> is the fault
  \<open>Uninitialised\<close>. \<open>ev_tstamp\<close> values are reals.
\<close>

section \<open>Enumerations and structures\<close>

datatype action_t =
    act_new_coroutine
  | act_finished_coroutine
  | act_sched_yield
  | act_disk_open
  | act_disk_read
  | act_disk_write
  | act_sock_read
  | act_sock_write
  | act_sock_done
  | act_disk_open_done
  | act_disk_read_done
  | act_disk_write_done
  | act_tcp_blocked_connect
  | act_tcp_blocked_connect_done
  | act_tcp_timeout_connect
  | act_tcp_timeout_connect_done
  | act_msleep
  | act_msleep_done
  | act_bg_run
  | act_bg_run_done
  | act_tcp_accept
  | act_tcp_accept_done
  | act_sem_activation

text \<open>A pointer into the memory of the user's program, and the types of \<open>netinet/in.h\<close>.\<close>

type_synonym uptr = u64
type_synonym in_addr_t = u32
type_synonym in_port_t = "16 word"

record init_arg_s =
  func :: uptr
  stack_size :: u64
  func_arg :: uptr

record open_arg_s =
  pathname :: uptr
  oflags :: u32
  omode :: u32

record io_arg_s =
  timeout_ms :: "int option"
  io_fd :: int
  io_buf :: uptr
  io_count :: u64

record connect_arg_s =
  c_timeout_ms :: int
  c_ip :: in_addr_t
  c_port :: in_port_t
  c_fd :: "int option"

record general_arg_s =
  g_u64 :: u64

record routine_arg_s =
  r_func :: uptr
  r_arg :: uptr
  r_result :: uptr

record tcp_accept_arg_s =
  sockfd :: int
  a_addr :: uptr
  a_addrlen :: uptr

text \<open>The union of the arguments, tagged with the member that was written last.\<close>

datatype args_u =
    Init_arg init_arg_s
  | Open_arg open_arg_s
  | Io_arg io_arg_s
  | Connect_arg connect_arg_s
  | General_arg general_arg_s
  | Routine_arg routine_arg_s
  | Tcp_accept_arg tcp_accept_arg_s

text \<open>
  A \<open>ucontext_t\<close>: not made yet, made by \<open>makecontext\<close> to enter \<open>call_wrapper\<close> with its four
  words, or saved by a \<open>swapcontext\<close> out of the coroutine.
\<close>

datatype context_t =
    Ctx_none
  | Ctx_entry u32 u32 u32 u32
  | Ctx_saved

record task =
  action :: action_t
  args :: args_u
  ret_val :: "int option"
  ret_err_code :: "int option"
  task_context :: context_t
  stack_ptr :: "addr option"
  have_io :: int
  need_io :: int

datatype watcher_id = PipeW | IoW addr | TimerW addr

fun is_timer :: "watcher_id \<Rightarrow> bool" where
  "is_timer (TimerW a) = True"
| "is_timer _ = False"

datatype callback =
    Cb_new_event_handler
  | Cb_ev_sock_read
  | Cb_ev_sock_write
  | Cb_ev_sock_timeout
  | Cb_ev_sock_connect
  | Cb_ev_sock_connect_timeout
  | Cb_timer_timeout
  | Cb_ev_tcp_accept

type_synonym loop_t = "(watcher_id, callback, real) ev_loop"

text \<open>
  The threads of a process. \<open>g_thread_id\<close> is 0 in the manager, in the first background worker
  and in every thread the library did not create.
\<close>

datatype thread = Manager | Worker nat | Foreign nat

fun g_thread_id :: "thread \<Rightarrow> nat" where
  "g_thread_id (Worker i) = i"
| "g_thread_id _ = 0"

text \<open>
  The environment. \<open>queue_heads\<close> are the heads of queues, with their mutexes, that are allocated: from
  \<open>list_new\<close> to \<open>list_destroy\<close>.
\<close>

datatype head = Todo_head | Doing_head

record 'w coroutine_env_s =
  tasks :: "addr \<Rightarrow> task option"
  stacks :: "addr set"
  nxt :: links
  todo_queue :: stailq
  doing_queue :: stailq
  queue_heads :: "head set"
  manager_sem :: nat
  pipe_channel :: "nat \<Rightarrow> u8 list"
  background_worker_count :: nat
  cid :: u64
  ran :: u64
  bg_worker_id :: u64
  curr_task_ptr :: ptr
  worker_ev :: "nat \<Rightarrow> loop_t"
  errno :: "thread \<Rightarrow> int"
  world :: 'w

section \<open>The operating system\<close>

text \<open>
  A system call takes the calling thread's \<open>errno\<close> and the state of the world and gives its
  result with the new ones. The calls the library makes are the fields of \<open>posix\<close>; nothing
  is assumed of them here. \<open>sys_bg\<close> is the call of a routine the user handed to
  \<open>crt_bg_run\<close>.
\<close>

type_synonym ('w, 'a) syscall = "int \<Rightarrow> 'w \<Rightarrow> 'a \<times> int \<times> 'w"

record 'w posix =
  sys_open :: "uptr \<Rightarrow> u32 \<Rightarrow> u32 option \<Rightarrow> ('w, int) syscall"
  sys_read :: "int \<Rightarrow> uptr \<Rightarrow> u64 \<Rightarrow> ('w, int) syscall"
  sys_write :: "int \<Rightarrow> uptr \<Rightarrow> u64 \<Rightarrow> ('w, int) syscall"
  sys_close :: "int \<Rightarrow> ('w, int) syscall"
  sys_socket :: "('w, int) syscall"
  sys_reuseaddr :: "int \<Rightarrow> ('w, int) syscall"
  sys_connect :: "int \<Rightarrow> in_addr_t \<Rightarrow> in_port_t \<Rightarrow> ('w, int) syscall"
  sys_so_error :: "int \<Rightarrow> ('w, int \<times> int) syscall"
  sys_accept :: "int \<Rightarrow> uptr \<Rightarrow> uptr \<Rightarrow> ('w, int) syscall"
  sys_bind :: "int \<Rightarrow> in_addr_t \<Rightarrow> in_port_t \<Rightarrow> ('w, int) syscall"
  sys_listen :: "int \<Rightarrow> int \<Rightarrow> ('w, int) syscall"
  sys_pipe :: "('w, (int \<times> int) option) syscall"
  sys_getfl :: "int \<Rightarrow> ('w, int) syscall"
  sys_setfl :: "int \<Rightarrow> int \<Rightarrow> ('w, int) syscall"
  sys_bg :: "uptr \<Rightarrow> uptr \<Rightarrow> uptr \<Rightarrow> ('w, int) syscall"

definition sys :: "thread \<Rightarrow> ('w, 'a) syscall \<Rightarrow> 'w coroutine_env_s \<Rightarrow> 'a \<times> 'w coroutine_env_s" where
  "sys th f e =
     (case f (errno e th) (world e) of
        (r, en, w) \<Rightarrow> (r, e\<lparr>errno := (errno e)(th := en), world := w\<rparr>))"

text \<open>Error numbers and flags of Linux on x86-64.\<close>

definition EINTR :: int where "EINTR = 4"
definition EAGAIN :: int where "EAGAIN = 11"
definition EWOULDBLOCK :: int where "EWOULDBLOCK = 11"
definition ENODEV :: int where "ENODEV = 19"
definition EINPROGRESS :: int where "EINPROGRESS = 115"
definition O_CREAT :: u32 where "O_CREAT = 64"
definition O_NONBLOCK :: int where "O_NONBLOCK = 2048"
definition COROUTINE_STACK_SIZE :: u64 where "COROUTINE_STACK_SIZE = 1024 * 32"
definition BACKGROUND_WORKER_CNT :: nat where "BACKGROUND_WORKER_CNT = 4"
definition PIPE_CAPACITY :: nat where "PIPE_CAPACITY = 65536"

section \<open>Primitive operations\<close>

definition deref :: "ptr \<Rightarrow> addr res" where
  "deref p = (case p of None \<Rightarrow> Inl NullDeref | Some a \<Rightarrow> Inr a)"

definition get_task :: "addr \<Rightarrow> 'w coroutine_env_s \<Rightarrow> task res" where
  "get_task a e = (case tasks e a of None \<Rightarrow> Inl UseAfterFree | Some t \<Rightarrow> Inr t)"

definition upd_task :: "addr \<Rightarrow> (task \<Rightarrow> task) \<Rightarrow> 'w coroutine_env_s \<Rightarrow> 'w coroutine_env_s res" where
  "upd_task a f e =
     (case tasks e a of
        None \<Rightarrow> Inl UseAfterFree
      | Some t \<Rightarrow> Inr (e\<lparr>tasks := (tasks e)(a \<mapsto> f t)\<rparr>))"

text \<open>Reading a field that may be indeterminate, and a member of the union.\<close>

definition the_init :: "'a option \<Rightarrow> 'a res" where
  "the_init x = (case x of None \<Rightarrow> Inl Uninitialised | Some v \<Rightarrow> Inr v)"

fun get_init_arg :: "task \<Rightarrow> init_arg_s res" where
  "get_init_arg t = (case args t of Init_arg x \<Rightarrow> Inr x | _ \<Rightarrow> Inl Uninitialised)"

fun get_open_arg :: "task \<Rightarrow> open_arg_s res" where
  "get_open_arg t = (case args t of Open_arg x \<Rightarrow> Inr x | _ \<Rightarrow> Inl Uninitialised)"

fun get_io_arg :: "task \<Rightarrow> io_arg_s res" where
  "get_io_arg t = (case args t of Io_arg x \<Rightarrow> Inr x | _ \<Rightarrow> Inl Uninitialised)"

fun get_connect_arg :: "task \<Rightarrow> connect_arg_s res" where
  "get_connect_arg t = (case args t of Connect_arg x \<Rightarrow> Inr x | _ \<Rightarrow> Inl Uninitialised)"

fun get_general_arg :: "task \<Rightarrow> general_arg_s res" where
  "get_general_arg t = (case args t of General_arg x \<Rightarrow> Inr x | _ \<Rightarrow> Inl Uninitialised)"

fun get_routine_arg :: "task \<Rightarrow> routine_arg_s res" where
  "get_routine_arg t = (case args t of Routine_arg x \<Rightarrow> Inr x | _ \<Rightarrow> Inl Uninitialised)"

fun get_accept_arg :: "task \<Rightarrow> tcp_accept_arg_s res" where
  "get_accept_arg t = (case args t of Tcp_accept_arg x \<Rightarrow> Inr x | _ \<Rightarrow> Inl Uninitialised)"

text \<open>
  The locked queue operations. \<open>Push\<close> writes the next field of the item and of the last item,
  \<open>Unshift\<close> that of the item, \<open>Shift\<close> reads that of the first item: all of them, and the head of the
  queue with its mutex, must be allocated.
\<close>

definition live :: "'w coroutine_env_s \<Rightarrow> addr \<Rightarrow> bool" where
  "live e a \<longleftrightarrow> tasks e a \<noteq> None"

definition queue_push :: "'w coroutine_env_s \<Rightarrow> stailq \<Rightarrow> addr \<Rightarrow> (links \<times> stailq) res" where
  "queue_push e q a =
     (if live e a \<and> (case stqh_last q of AtFirst \<Rightarrow> True | AtNext b \<Rightarrow> live e b)
      then Inr (list_push (nxt e) q a) else Inl UseAfterFree)"

definition queue_shift :: "'w coroutine_env_s \<Rightarrow> stailq \<Rightarrow> (ptr \<times> stailq) res" where
  "queue_shift e q =
     (if (case STAILQ_FIRST q of None \<Rightarrow> True | Some b \<Rightarrow> live e b)
      then list_shift (nxt e) q else Inl UseAfterFree)"

definition Push_todo :: "addr \<Rightarrow> 'w coroutine_env_s \<Rightarrow> 'w coroutine_env_s res" where
  "Push_todo a e =
     (if Todo_head \<in> queue_heads e then
        bind_res (queue_push e (todo_queue e) a) (\<lambda>(nx, q). Inr (e\<lparr>nxt := nx, todo_queue := q\<rparr>))
      else Inl UseAfterFree)"

definition Push_doing :: "addr \<Rightarrow> 'w coroutine_env_s \<Rightarrow> 'w coroutine_env_s res" where
  "Push_doing a e =
     (if Doing_head \<in> queue_heads e then
        bind_res (queue_push e (doing_queue e) a) (\<lambda>(nx, q). Inr (e\<lparr>nxt := nx, doing_queue := q\<rparr>))
      else Inl UseAfterFree)"

definition Unshift_todo :: "addr \<Rightarrow> 'w coroutine_env_s \<Rightarrow> 'w coroutine_env_s res" where
  "Unshift_todo a e =
     (if Todo_head \<in> queue_heads e \<and> live e a then
        case list_unshift (nxt e) (todo_queue e) a of (nx, q) \<Rightarrow> Inr (e\<lparr>nxt := nx, todo_queue := q\<rparr>)
      else Inl UseAfterFree)"

definition Shift_todo :: "'w coroutine_env_s \<Rightarrow> (ptr \<times> 'w coroutine_env_s) res" where
  "Shift_todo e =
     (if Todo_head \<in> queue_heads e then
        bind_res (queue_shift e (todo_queue e)) (\<lambda>(p, q). Inr (p, e\<lparr>todo_queue := q\<rparr>))
      else Inl UseAfterFree)"

definition Shift_doing :: "'w coroutine_env_s \<Rightarrow> (ptr \<times> 'w coroutine_env_s) res" where
  "Shift_doing e =
     (if Doing_head \<in> queue_heads e then
        bind_res (queue_shift e (doing_queue e)) (\<lambda>(p, q). Inr (p, e\<lparr>doing_queue := q\<rparr>))
      else Inl UseAfterFree)"

text \<open>
  The semaphore of the only manager. \<open>sem_wait\<close> blocks while it is zero: \<open>None\<close>.
\<close>

definition sem_post_manager :: "'w coroutine_env_s \<Rightarrow> 'w coroutine_env_s" where
  "sem_post_manager e = e\<lparr>manager_sem := manager_sem e + 1\<rparr>"

definition sem_wait_manager :: "'w coroutine_env_s \<Rightarrow> 'w coroutine_env_s option" where
  "sem_wait_manager e = (if manager_sem e = 0 then None else Some (e\<lparr>manager_sem := manager_sem e - 1\<rparr>))"

text \<open>
  The non-blocking pipe of a background worker: writing one byte to a full pipe and reading
  one from an empty pipe give -1.
\<close>

definition pipe_write :: "nat \<Rightarrow> u8 \<Rightarrow> 'w coroutine_env_s \<Rightarrow> int \<times> 'w coroutine_env_s" where
  "pipe_write i c e =
     (if length (pipe_channel e i) < PIPE_CAPACITY
      then (1, e\<lparr>pipe_channel := (pipe_channel e)(i := pipe_channel e i @ [c])\<rparr>)
      else (-1, e))"

definition pipe_read :: "nat \<Rightarrow> 'w coroutine_env_s \<Rightarrow> int \<times> u8 option \<times> 'w coroutine_env_s" where
  "pipe_read i e =
     (case pipe_channel e i of
        [] \<Rightarrow> (-1, None, e)
      | c # cs \<Rightarrow> (1, Some c, e\<lparr>pipe_channel := (pipe_channel e)(i := cs)\<rparr>))"

text \<open>An operation on the loop of a background worker.\<close>

definition on_loop :: "nat \<Rightarrow> (loop_t \<Rightarrow> loop_t res) \<Rightarrow> 'w coroutine_env_s \<Rightarrow> 'w coroutine_env_s res" where
  "on_loop i f e = bind_res (f (worker_ev e i)) (\<lambda>l. Inr (e\<lparr>worker_ev := (worker_ev e)(i := l)\<rparr>))"

definition coroutine_notify_manager :: "addr \<Rightarrow> 'w coroutine_env_s \<Rightarrow> 'w coroutine_env_s res" where
  "coroutine_notify_manager a e = bind_res (Push_todo a e) (\<lambda>e1. Inr (sem_post_manager e1))"

end
