(* ===== verification/Acoro_Worker.thy ===== *)
theory Acoro_Worker
  imports Acoro_Env
begin

text \<open>
  The background worker threads of \<^verbatim>\<open>src/src/acoro.c\<close>: the disk operations they run to
  completion, the socket operations they park in their event loop, the callbacks of that
  loop, the dispatch of a task and of a pending event. The argument \<open>i\<close> is the worker's
  \<open>g_thread_id\<close>, \<open>a\<close> the address of the task. A function that returns \<open>0\<close> in every case has
  only the new environment as its result. The loop of a socket callback repeats while the
  kernel reports \<open>EINTR\<close>; \<open>None\<close> is a run that never ends.
\<close>

section \<open>Disk operations\<close>

text \<open>The assignments that end an operation: \<open>ret.val\<close>, \<open>ret.err_code\<close> and \<open>action\<close>.\<close>

definition set_ret :: "addr \<Rightarrow> int \<Rightarrow> int \<Rightarrow> action_t \<Rightarrow> 'w coroutine_env_s \<Rightarrow> 'w coroutine_env_s res" where
  "set_ret a v err act e =
     upd_task a (\<lambda>t. t\<lparr>ret_val := Some v, ret_err_code := Some err, action := act\<rparr>) e"

definition do_disk_open :: "'w posix \<Rightarrow> nat \<Rightarrow> addr \<Rightarrow> 'w coroutine_env_s \<Rightarrow> 'w coroutine_env_s res" where
  "do_disk_open P i a e =
     bind_res (get_task a e) (\<lambda>t.
     bind_res (get_open_arg t) (\<lambda>arg.
       let (v, e1) =
             (if oflags arg AND O_CREAT \<noteq> 0
              then sys (Worker i) (sys_open P (pathname arg) (oflags arg) (Some (omode arg))) e
              else sys (Worker i) (sys_open P (pathname arg) (oflags arg) None) e)
       in set_ret a v (if v \<ge> 0 then 0 else errno e1 (Worker i)) act_disk_open_done e1))"

definition do_disk_read :: "'w posix \<Rightarrow> nat \<Rightarrow> addr \<Rightarrow> 'w coroutine_env_s \<Rightarrow> 'w coroutine_env_s res" where
  "do_disk_read P i a e =
     bind_res (get_task a e) (\<lambda>t.
     bind_res (get_io_arg t) (\<lambda>arg.
       let (v, e1) = sys (Worker i) (sys_read P (io_fd arg) (io_buf arg) (io_count arg)) e
       in set_ret a v (if v \<ge> 0 then 0 else errno e1 (Worker i)) act_disk_read_done e1))"

definition do_disk_write :: "'w posix \<Rightarrow> nat \<Rightarrow> addr \<Rightarrow> 'w coroutine_env_s \<Rightarrow> 'w coroutine_env_s res" where
  "do_disk_write P i a e =
     bind_res (get_task a e) (\<lambda>t.
     bind_res (get_io_arg t) (\<lambda>arg.
       let (v, e1) = sys (Worker i) (sys_write P (io_fd arg) (io_buf arg) (io_count arg)) e
       in set_ret a v (if v \<ge> 0 then 0 else errno e1 (Worker i)) act_disk_write_done e1))"

section \<open>Socket reads and writes\<close>

definition start_io :: "nat \<Rightarrow> addr \<Rightarrow> callback \<Rightarrow> int \<Rightarrow> events \<Rightarrow> 'w coroutine_env_s \<Rightarrow> 'w coroutine_env_s res" where
  "start_io i a f fd evs e = on_loop i (\<lambda>l. ev_io_start (IoW a) (ev_io_init (IoW a) f fd evs l)) e"

definition start_timer :: "nat \<Rightarrow> addr \<Rightarrow> callback \<Rightarrow> real \<Rightarrow> 'w coroutine_env_s \<Rightarrow> 'w coroutine_env_s res" where
  "start_timer i a f after e =
     on_loop i (\<lambda>l. ev_timer_start (TimerW a) (ev_timer_init (TimerW a) f after 0 l)) e"

definition ev_sock_stop :: "nat \<Rightarrow> addr \<Rightarrow> int \<Rightarrow> int \<Rightarrow> 'w coroutine_env_s \<Rightarrow> 'w coroutine_env_s res" where
  "ev_sock_stop i a retval err_code e =
     bind_res (on_loop i (ev_io_stop (IoW a)) e) (\<lambda>e1.
     bind_res (get_task a e1) (\<lambda>t.
     bind_res (get_io_arg t) (\<lambda>arg.
     bind_res (the_init (timeout_ms arg)) (\<lambda>ms.
     bind_res (if ms \<noteq> 0 then on_loop i (ev_timer_stop (TimerW a)) e1 else Inr e1) (\<lambda>e2.
       set_ret a (to_int retval) err_code act_sock_done e2)))))"

definition ev_sock_timeout :: "nat \<Rightarrow> addr \<Rightarrow> events \<Rightarrow> 'w coroutine_env_s \<Rightarrow> 'w coroutine_env_s res" where
  "ev_sock_timeout i a event e =
     bind_res (assert_c (event AND EV_TIMER \<noteq> 0 \<or> event AND EV_ERROR \<noteq> 0)) (\<lambda>_.
       if event AND EV_ERROR \<noteq> 0 then
         bind_res (ev_sock_stop i a (-1) ENODEV e) (coroutine_notify_manager a)
       else
         bind_res (get_task a e) (\<lambda>t.
         bind_res (if have_io t = 0 then ev_sock_stop i a (-1) EWOULDBLOCK e
                   else ev_sock_stop i a (have_io t) 0 e) (coroutine_notify_manager a)))"

text \<open>
  The part of \<open>ev_sock_read\<close> and \<open>ev_sock_write\<close> from the label \<open>go\<close> on; the two differ in the
  system call only.
\<close>

partial_function (option) sock_go ::
  "(int \<Rightarrow> uptr \<Rightarrow> u64 \<Rightarrow> ('w, int) syscall) \<Rightarrow> nat \<Rightarrow> addr \<Rightarrow> 'w coroutine_env_s
   \<Rightarrow> 'w coroutine_env_s res option" where
  "sock_go io i a e =
     (case bind_res (get_task a e) (\<lambda>t. bind_res (get_io_arg t) (\<lambda>arg. Inr (t, arg))) of
        Inl f \<Rightarrow> Some (Inl f)
      | Inr (t, arg) \<Rightarrow>
          (case sys (Worker i) (io (io_fd arg) (io_buf arg + of_int (have_io t)) (of_int (need_io t)))
                  (e\<lparr>errno := (errno e)(Worker i := 0)\<rparr>) of
             (n, e1) \<Rightarrow>
               if n = need_io t then
                 Some (bind_res (upd_task a (\<lambda>t. t\<lparr>have_io := have_io t + n, need_io := need_io t - n\<rparr>) e1)
                   (\<lambda>e2. bind_res (ev_sock_stop i a (have_io t + n) 0 e2) (coroutine_notify_manager a)))
               else if n > 0 then
                 (case upd_task a (\<lambda>t. t\<lparr>need_io := need_io t - n, have_io := have_io t + n\<rparr>) e1 of
                    Inl f \<Rightarrow> Some (Inl f)
                  | Inr e2 \<Rightarrow> sock_go io i a e2)
               else if n = 0 then
                 Some (bind_res
                   (if errno e1 (Worker i) = EAGAIN \<or> errno e1 (Worker i) = EWOULDBLOCK \<or> errno e1 (Worker i) = 0
                    then ev_sock_stop i a (have_io t) (errno e1 (Worker i)) e1
                    else ev_sock_stop i a (-1) (errno e1 (Worker i)) e1) (coroutine_notify_manager a))
               else if n = -1 then
                 (if errno e1 (Worker i) = EINTR then sock_go io i a e1
                  else if errno e1 (Worker i) \<noteq> EAGAIN \<and> errno e1 (Worker i) \<noteq> EWOULDBLOCK then
                    Some (bind_res (ev_sock_stop i a n (errno e1 (Worker i)) e1) (coroutine_notify_manager a))
                  else Some (Inr e1))
               else Some (Inl Aborted)))"

text \<open>The part before the label, with the event \<open>want\<close> and the action \<open>act\<close> it asserts.\<close>

definition sock_event ::
  "events \<Rightarrow> action_t \<Rightarrow> (int \<Rightarrow> uptr \<Rightarrow> u64 \<Rightarrow> ('w, int) syscall) \<Rightarrow> 'w posix \<Rightarrow> nat \<Rightarrow> addr \<Rightarrow> events
   \<Rightarrow> 'w coroutine_env_s \<Rightarrow> 'w coroutine_env_s res option" where
  "sock_event want act io P i a event e =
     (if \<not> (event AND want \<noteq> 0 \<or> event AND EV_ERROR \<noteq> 0) then Some (Inl AssertFailed)
      else if event AND EV_ERROR \<noteq> 0 then
        Some (bind_res (ev_sock_stop i a (-1) ENODEV e) (coroutine_notify_manager a))
      else
        (case bind_res (get_task a e) (\<lambda>t.
              bind_res (get_io_arg t) (\<lambda>arg.
                let (fl, e1) = sys (Worker i) (sys_getfl P (io_fd arg)) e
                in bind_res (assert_c (fl AND O_NONBLOCK \<noteq> 0)) (\<lambda>_.
                   bind_res (assert_c (action t = act)) (\<lambda>_. Inr (t, e1))))) of
           Inl f \<Rightarrow> Some (Inl f)
         | Inr (t, e1) \<Rightarrow>
             if need_io t = 0 then
               Some (bind_res (ev_sock_stop i a (have_io t) 0 e1) (coroutine_notify_manager a))
             else sock_go io i a e1))"

definition ev_sock_read ::
  "'w posix \<Rightarrow> nat \<Rightarrow> addr \<Rightarrow> events \<Rightarrow> 'w coroutine_env_s \<Rightarrow> 'w coroutine_env_s res option" where
  "ev_sock_read P = sock_event EV_READ act_sock_read (sys_read P) P"

definition ev_sock_write ::
  "'w posix \<Rightarrow> nat \<Rightarrow> addr \<Rightarrow> events \<Rightarrow> 'w coroutine_env_s \<Rightarrow> 'w coroutine_env_s res option" where
  "ev_sock_write P = sock_event EV_WRITE act_sock_write (sys_write P) P"

text \<open>\<open>do_sock_read\<close> and \<open>do_sock_write\<close> differ in the callback and the event.\<close>

definition do_sock_io :: "callback \<Rightarrow> events \<Rightarrow> nat \<Rightarrow> addr \<Rightarrow> 'w coroutine_env_s \<Rightarrow> 'w coroutine_env_s res" where
  "do_sock_io f evs i a e =
     bind_res (get_task a e) (\<lambda>t.
     bind_res (get_io_arg t) (\<lambda>arg.
     bind_res (start_io i a f (io_fd arg) evs e) (\<lambda>e1.
     bind_res (the_init (timeout_ms arg)) (\<lambda>ms.
     bind_res (if ms \<noteq> 0 then start_timer i a Cb_ev_sock_timeout (real_of_int ms / 1000) e1 else Inr e1) (\<lambda>e2.
       upd_task a (\<lambda>t. t\<lparr>have_io := 0, need_io := to_ssize (uint (io_count arg))\<rparr>) e2)))))"

definition do_sock_read :: "nat \<Rightarrow> addr \<Rightarrow> 'w coroutine_env_s \<Rightarrow> 'w coroutine_env_s res" where
  "do_sock_read = do_sock_io Cb_ev_sock_read EV_READ"

definition do_sock_write :: "nat \<Rightarrow> addr \<Rightarrow> 'w coroutine_env_s \<Rightarrow> 'w coroutine_env_s res" where
  "do_sock_write = do_sock_io Cb_ev_sock_write EV_WRITE"

section \<open>Connecting\<close>

definition crt_set_nonblock :: "'w posix \<Rightarrow> thread \<Rightarrow> int \<Rightarrow> 'w coroutine_env_s \<Rightarrow> int \<times> 'w coroutine_env_s" where
  "crt_set_nonblock P th fd e =
     (let (flag, e1) = sys th (sys_getfl P fd) e
      in if flag < 0 then (errno e1 th, e1)
         else let (r, e2) = sys th (sys_setfl P fd (flag OR O_NONBLOCK)) e1
              in if r < 0 then (errno e2 th, e2) else (0, e2))"

definition crt_set_block :: "'w posix \<Rightarrow> thread \<Rightarrow> int \<Rightarrow> 'w coroutine_env_s \<Rightarrow> int \<times> 'w coroutine_env_s" where
  "crt_set_block P th fd e =
     (let (flag, e1) = sys th (sys_getfl P fd) e
      in if flag < 0 then (errno e1 th, e1)
         else let flag = flag AND NOT O_NONBLOCK;
                  (r, e2) = sys th (sys_setfl P fd flag) e1
              in if r < 0 then (errno e2 th, e2) else (0, e2))"

definition do_tcp_blocked_connect :: "'w posix \<Rightarrow> nat \<Rightarrow> addr \<Rightarrow> 'w coroutine_env_s \<Rightarrow> 'w coroutine_env_s res" where
  "do_tcp_blocked_connect P i a e =
     bind_res (get_task a e) (\<lambda>t.
     bind_res (get_connect_arg t) (\<lambda>arg.
       let th = Worker i; (fd, e1) = sys th (sys_socket P) e
       in if fd < 0 then set_ret a fd (errno e1 th) act_tcp_blocked_connect_done e1
          else
            let (r, e2) = sys th (sys_reuseaddr P fd) e1
            in if r < 0 then
                 let (_, e3) = sys th (sys_close P fd) e2
                 in set_ret a r (errno e3 th) act_tcp_blocked_connect_done e3
               else
                 let (r, e3) = sys th (sys_connect P fd (c_ip arg) (c_port arg)) e2
                 in if r = 0 then
                      bind_res (upd_task a (\<lambda>t. t\<lparr>ret_val := Some fd, ret_err_code := Some 0\<rparr>) e3) (\<lambda>e4.
                        let (_, e5) = crt_set_nonblock P th fd e4
                        in upd_task a (\<lambda>t. t\<lparr>action := act_tcp_blocked_connect_done\<rparr>) e5)
                    else
                      let (_, e4) = sys th (sys_close P fd) e3
                      in set_ret a r (errno e4 th) act_tcp_blocked_connect_done e4))"

definition ev_sock_connect_stop :: "nat \<Rightarrow> addr \<Rightarrow> int \<Rightarrow> int \<Rightarrow> 'w coroutine_env_s \<Rightarrow> 'w coroutine_env_s res" where
  "ev_sock_connect_stop i a retval err_code e =
     bind_res (on_loop i (ev_io_stop (IoW a)) e) (\<lambda>e1.
     bind_res (get_task a e1) (\<lambda>t.
     bind_res (get_connect_arg t) (\<lambda>arg.
     bind_res (if c_timeout_ms arg \<noteq> 0 then on_loop i (ev_timer_stop (TimerW a)) e1 else Inr e1) (\<lambda>e2.
     bind_res (set_ret a retval err_code act_tcp_timeout_connect_done e2) (coroutine_notify_manager a)))))"

definition ev_sock_connect_timeout :: "nat \<Rightarrow> addr \<Rightarrow> events \<Rightarrow> 'w coroutine_env_s \<Rightarrow> 'w coroutine_env_s res" where
  "ev_sock_connect_timeout i a event e =
     bind_res (assert_c (event AND EV_TIMER \<noteq> 0 \<or> event AND EV_ERROR \<noteq> 0)) (\<lambda>_.
       if event AND EV_ERROR \<noteq> 0 then ev_sock_connect_stop i a (-1) ENODEV e
       else ev_sock_connect_stop i a (-1) EWOULDBLOCK e)"

text \<open>
  The \<open>assert\<close> of \<open>ev_sock_connect\<close> assigns the action; its value is not 0, so it holds.
\<close>

definition ev_sock_connect ::
  "'w posix \<Rightarrow> nat \<Rightarrow> addr \<Rightarrow> events \<Rightarrow> 'w coroutine_env_s \<Rightarrow> 'w coroutine_env_s res" where
  "ev_sock_connect P i a event e =
     bind_res (assert_c (event AND EV_READ \<noteq> 0 \<or> event AND EV_WRITE \<noteq> 0 \<or> event AND EV_ERROR \<noteq> 0)) (\<lambda>_.
     bind_res (get_task a e) (\<lambda>t.
     bind_res (get_connect_arg t) (\<lambda>arg.
     bind_res (the_init (c_fd arg)) (\<lambda>fd.
       let th = Worker i
       in if event AND EV_ERROR \<noteq> 0 then
            let (_, e1) = sys th (sys_close P fd) e in ev_sock_connect_stop i a (-1) ENODEV e1
          else
            bind_res (upd_task a (\<lambda>t. t\<lparr>action := act_tcp_timeout_connect\<rparr>) e) (\<lambda>e1.
              let ((r, so_error), e2) = sys th (sys_so_error P fd) e1
              in if r < 0 then
                   let (_, e3) = sys th (sys_close P fd) e2
                   in ev_sock_connect_stop i a (-1) (errno e3 th) e3
                 else if so_error \<noteq> 0 then
                   let (_, e3) = sys th (sys_close P fd) e2
                   in ev_sock_connect_stop i a (-1) (errno e3 th) e3
                 else ev_sock_connect_stop i a fd 0 e2)))))"

text \<open>\<open>goto done\<close> of \<open>do_tcp_timeout_connect\<close>.\<close>

definition connect_done :: "addr \<Rightarrow> 'w coroutine_env_s \<Rightarrow> 'w coroutine_env_s res" where
  "connect_done a e =
     bind_res (upd_task a (\<lambda>t. t\<lparr>action := act_tcp_timeout_connect_done\<rparr>) e) (coroutine_notify_manager a)"

definition do_tcp_timeout_connect :: "'w posix \<Rightarrow> nat \<Rightarrow> addr \<Rightarrow> 'w coroutine_env_s \<Rightarrow> 'w coroutine_env_s res" where
  "do_tcp_timeout_connect P i a e =
     bind_res (get_task a e) (\<lambda>t.
     bind_res (get_connect_arg t) (\<lambda>arg.
       let th = Worker i; (fd, e1) = sys th (sys_socket P) e
       in if fd < 0 then
            bind_res (set_ret a fd (errno e1 th) act_tcp_timeout_connect_done e1) (connect_done a)
          else
            let (r, e2) = sys th (sys_reuseaddr P fd) e1
            in if r < 0 then
                 let (_, e3) = sys th (sys_close P fd) e2
                 in bind_res (set_ret a r (errno e3 th) act_tcp_timeout_connect_done e3) (connect_done a)
               else
                 let (_, e3) = crt_set_nonblock P th fd e2;
                     (r, e4) = sys th (sys_connect P fd (c_ip arg) (c_port arg)) e3
                 in if r < 0 \<and> errno e4 th \<noteq> EINPROGRESS then
                      let (_, e5) = sys th (sys_close P fd) e4
                      in bind_res (upd_task a (\<lambda>t. t\<lparr>ret_val := Some r, ret_err_code := Some (errno e5 th)\<rparr>) e5)
                           (connect_done a)
                    else if r = 0 then
                      bind_res (upd_task a (\<lambda>t. t\<lparr>ret_val := Some fd, ret_err_code := Some 0\<rparr>) e4) (connect_done a)
                    else if r > 0 then Inl Aborted
                    else
                      bind_res (upd_task a (\<lambda>t. t\<lparr>args := Connect_arg (arg\<lparr>c_fd := Some fd\<rparr>)\<rparr>) e4) (\<lambda>e5.
                      bind_res (start_io i a Cb_ev_sock_connect fd (EV_READ OR EV_WRITE) e5) (\<lambda>e6.
                        if c_timeout_ms arg \<noteq> 0
                        then start_timer i a Cb_ev_sock_connect_timeout (real_of_int (c_timeout_ms arg) / 1000) e6
                        else Inr e6))))"

section \<open>Sleeping, background routines, accepting\<close>

definition timer_timeout :: "nat \<Rightarrow> addr \<Rightarrow> events \<Rightarrow> 'w coroutine_env_s \<Rightarrow> 'w coroutine_env_s res" where
  "timer_timeout i a event e =
     bind_res (assert_c (event = EV_TIMER)) (\<lambda>_.
     bind_res (on_loop i (ev_timer_stop (TimerW a)) e) (\<lambda>e1.
     bind_res (set_ret a 0 0 act_msleep_done e1) (coroutine_notify_manager a)))"

definition do_msleep :: "nat \<Rightarrow> addr \<Rightarrow> 'w coroutine_env_s \<Rightarrow> 'w coroutine_env_s res" where
  "do_msleep i a e =
     bind_res (get_task a e) (\<lambda>t.
     bind_res (get_general_arg t) (\<lambda>arg.
       start_timer i a Cb_timer_timeout (real_of_int (uint (g_u64 arg)) / 1000) e))"

definition do_bg_run :: "'w posix \<Rightarrow> nat \<Rightarrow> addr \<Rightarrow> 'w coroutine_env_s \<Rightarrow> 'w coroutine_env_s res" where
  "do_bg_run P i a e =
     bind_res (get_task a e) (\<lambda>t.
     bind_res (get_routine_arg t) (\<lambda>arg.
       let (retval, e1) = sys (Worker i) (sys_bg P (r_func arg) (r_arg arg) (r_result arg)) e
       in set_ret a retval 0 act_bg_run_done e1))"

text \<open>
  In the branch of \<open>EV_ERROR\<close> the variable \<open>task_ptr\<close> is dereferenced without having been
  assigned.
\<close>

definition ev_tcp_accept ::
  "'w posix \<Rightarrow> nat \<Rightarrow> addr \<Rightarrow> events \<Rightarrow> 'w coroutine_env_s \<Rightarrow> 'w coroutine_env_s res" where
  "ev_tcp_accept P i a event e =
     bind_res (assert_c (event AND EV_READ \<noteq> 0 \<or> event AND EV_ERROR \<noteq> 0)) (\<lambda>_.
       if event AND EV_ERROR \<noteq> 0 then Inl Uninitialised
       else
         bind_res (get_task a e) (\<lambda>t.
         bind_res (get_accept_arg t) (\<lambda>arg.
         bind_res (assert_c (action t = act_tcp_accept)) (\<lambda>_.
           let (fd, e1) = sys (Worker i) (sys_accept P (sockfd arg) (a_addr arg) (a_addrlen arg)) e
           in bind_res (on_loop i (ev_io_stop (IoW a)) e1) (\<lambda>e2.
              bind_res (upd_task a (\<lambda>t. t\<lparr>action := act_tcp_accept_done, ret_val := Some fd\<rparr>) e2) (\<lambda>e3.
              bind_res
                (if fd < 0 then
                   bind_res (assert_c (fd = -1)) (\<lambda>_.
                     upd_task a (\<lambda>t. t\<lparr>ret_err_code := Some (errno e3 (Worker i))\<rparr>) e3)
                 else
                   let (_, e4) = crt_set_nonblock P (Worker i) fd e3
                   in upd_task a (\<lambda>t. t\<lparr>ret_err_code := Some 0\<rparr>) e4)
                (coroutine_notify_manager a)))))))"

definition do_tcp_accept :: "nat \<Rightarrow> addr \<Rightarrow> 'w coroutine_env_s \<Rightarrow> 'w coroutine_env_s res" where
  "do_tcp_accept i a e =
     bind_res (get_task a e) (\<lambda>t.
     bind_res (assert_c (action t = act_tcp_accept)) (\<lambda>_.
     bind_res (get_accept_arg t) (\<lambda>arg.
       start_io i a Cb_ev_tcp_accept (sockfd arg) EV_READ e)))"

section \<open>Dispatch\<close>

definition do_task :: "'w posix \<Rightarrow> nat \<Rightarrow> addr \<Rightarrow> 'w coroutine_env_s \<Rightarrow> (int \<times> 'w coroutine_env_s) res" where
  "do_task P i a e =
     bind_res (get_task a e) (\<lambda>t.
       case action t of
         act_disk_open \<Rightarrow> map_sum id (Pair 0) (do_disk_open P i a e)
       | act_disk_read \<Rightarrow> map_sum id (Pair 0) (do_disk_read P i a e)
       | act_disk_write \<Rightarrow> map_sum id (Pair 0) (do_disk_write P i a e)
       | act_sock_read \<Rightarrow> map_sum id (Pair 1) (do_sock_read i a e)
       | act_sock_write \<Rightarrow> map_sum id (Pair 1) (do_sock_write i a e)
       | act_tcp_blocked_connect \<Rightarrow> map_sum id (Pair 0) (do_tcp_blocked_connect P i a e)
       | act_tcp_timeout_connect \<Rightarrow> map_sum id (Pair 1) (do_tcp_timeout_connect P i a e)
       | act_msleep \<Rightarrow> map_sum id (Pair 1) (do_msleep i a e)
       | act_bg_run \<Rightarrow> map_sum id (Pair 0) (do_bg_run P i a e)
       | act_tcp_accept \<Rightarrow> map_sum id (Pair 1) (do_tcp_accept i a e)
       | _ \<Rightarrow> Inl Aborted)"

text \<open>
  The three parts of \<open>new_event_handler\<close>: taking the byte out of the pipe, taking a task out of
  the queue, and running it. Another thread can act between them.
\<close>

definition event_byte :: "nat \<Rightarrow> 'w coroutine_env_s \<Rightarrow> 'w coroutine_env_s res" where
  "event_byte i e =
     (let (nread, c, e1) = pipe_read i e
      in bind_res (assert_c (nread = 1)) (\<lambda>_.
         bind_res (assert_c (c = Some 0xee)) (\<lambda>_. Inr e1)))"

definition event_take :: "'w coroutine_env_s \<Rightarrow> (addr \<times> 'w coroutine_env_s) res" where
  "event_take e =
     bind_res (Shift_doing e) (\<lambda>(p, e1).
     bind_res (assert_c (p \<noteq> None)) (\<lambda>_.
     bind_res (deref p) (\<lambda>a. Inr (a, e1))))"

definition event_run :: "'w posix \<Rightarrow> nat \<Rightarrow> addr \<Rightarrow> 'w coroutine_env_s \<Rightarrow> 'w coroutine_env_s res" where
  "event_run P i a e =
     bind_res (do_task P i a e) (\<lambda>(r, e1).
       if r = 0 then coroutine_notify_manager a e1
       else if r \<noteq> 1 then Inl Aborted
       else Inr e1)"

definition new_event_handler ::
  "'w posix \<Rightarrow> nat \<Rightarrow> events \<Rightarrow> 'w coroutine_env_s \<Rightarrow> 'w coroutine_env_s res" where
  "new_event_handler P i event e =
     (if event = EV_READ then
        bind_res (event_byte i e) (\<lambda>e1.
        bind_res (event_take e1) (\<lambda>(a, e2). event_run P i a e2))
      else Inl Aborted)"

text \<open>
  The call of a watcher's callback by \<open>ev_invoke_pending\<close>. The task of a watcher is the
  structure it is a field of.
\<close>

fun IO_WATCHER_REF_TASKPTR :: "watcher_id \<Rightarrow> addr res" where
  "IO_WATCHER_REF_TASKPTR (IoW a) = Inr a"
| "IO_WATCHER_REF_TASKPTR _ = Inl Uninitialised"

fun TIMER_WATCHER_REF_TASKPTR :: "watcher_id \<Rightarrow> addr res" where
  "TIMER_WATCHER_REF_TASKPTR (TimerW a) = Inr a"
| "TIMER_WATCHER_REF_TASKPTR _ = Inl Uninitialised"

definition call_cb ::
  "'w posix \<Rightarrow> nat \<Rightarrow> callback \<Rightarrow> watcher_id \<Rightarrow> events \<Rightarrow> 'w coroutine_env_s \<Rightarrow> 'w coroutine_env_s res option" where
  "call_cb P i f w event e =
     (let io = (\<lambda>g. case IO_WATCHER_REF_TASKPTR w of Inl x \<Rightarrow> Some (Inl x) | Inr a \<Rightarrow> g a);
          tm = (\<lambda>g. case TIMER_WATCHER_REF_TASKPTR w of Inl x \<Rightarrow> Some (Inl x) | Inr a \<Rightarrow> g a)
      in case f of
           Cb_new_event_handler \<Rightarrow> Some (new_event_handler P i event e)
         | Cb_ev_sock_read \<Rightarrow> io (\<lambda>a. ev_sock_read P i a event e)
         | Cb_ev_sock_write \<Rightarrow> io (\<lambda>a. ev_sock_write P i a event e)
         | Cb_ev_sock_timeout \<Rightarrow> tm (\<lambda>a. Some (ev_sock_timeout i a event e))
         | Cb_ev_sock_connect \<Rightarrow> io (\<lambda>a. Some (ev_sock_connect P i a event e))
         | Cb_ev_sock_connect_timeout \<Rightarrow> tm (\<lambda>a. Some (ev_sock_connect_timeout i a event e))
         | Cb_timer_timeout \<Rightarrow> tm (\<lambda>a. Some (timer_timeout i a event e))
         | Cb_ev_tcp_accept \<Rightarrow> io (\<lambda>a. Some (ev_tcp_accept P i a event e)))"

text \<open>
  The start of a worker: its loop is fresh and watches the read end of its pipe, whose
  descriptor is \<open>fd\<close>; \<open>now\<close> is the clock. \<open>made\<close> tells whether \<open>ev_loop_new\<close> gave a loop: it returns
  NULL if there is no memory or no \<open>epoll\<close>.
\<close>

definition ev_loop_new :: "real \<Rightarrow> loop_t" where
  "ev_loop_new now =
     \<lparr>ws = (\<lambda>_. \<lparr>active = 0, pending = 0, priority = 0, cb = Cb_new_event_handler, w_fd = 0, w_events = 0,
                 w_at = 0, w_repeat = 0\<rparr>),
      anfd_head = (\<lambda>_. []), anfd_events = (\<lambda>_. 0), anfd_reify = (\<lambda>_. 0), anfdmax = 0, fdchanges = [],
      pendings = (\<lambda>_. []), timers = (\<lambda>_. ANHE PipeW 0), timercnt = 0, rfeeds = [], mn_now = now, activecnt = 0\<rparr>"

definition new_background_worker :: "bool \<Rightarrow> int \<Rightarrow> real \<Rightarrow> nat \<Rightarrow> 'w coroutine_env_s \<Rightarrow> 'w coroutine_env_s res" where
  "new_background_worker made fd now i e =
     bind_res (assert_c made) (\<lambda>_.
       let e1 = e\<lparr>worker_ev := (worker_ev e)(i := ev_loop_new now)\<rparr>
       in on_loop i (\<lambda>l. ev_io_start PipeW (ev_io_init PipeW Cb_new_event_handler fd EV_READ l)) e1)"

end
