(* ===== verification/Acoro_Manager.thy ===== *)
theory Acoro_Manager
  imports Acoro_Worker
begin

text \<open>
  The manager thread of \<^verbatim>\<open>src/src/acoro.c\<close> and the functions coroutines and user threads
  call: creating, yielding and finishing coroutines, the requests to the background workers,
  their macros of \<^verbatim>\<open>src/src/acoro.h\<close>, and coroutine semaphores.

  The code of a coroutine is the user's. What the library sees of it is where it leaves and
  enters: a call that suspends a coroutine is the part up to its \<open>swapcontext\<close>, which ends with
  \<open>swap_out\<close>; the part after it (\<open>coroutine_get_retval\<close>) runs when the manager switches back.
  \<open>MANAGER_CNT\<close> is 1, so \<open>curr_task_ptr\<close> and \<open>manager_sem\<close> have one element. The result of
  \<open>malloc\<close> is an argument of the functions that call it.
\<close>

section \<open>The manager thread\<close>

text \<open>
  \<open>makecontext\<close> passes \<open>int\<close> arguments only: a pointer travels as its two halves, read out of
  memory in little-endian order, and \<open>call_wrapper\<close> puts them together again.
\<close>

definition transporter :: "u64 \<Rightarrow> u32 \<times> u32" where
  "transporter x = (ucast x, ucast (drop_bit 32 x))"

definition call_wrapper :: "u32 \<Rightarrow> u32 \<Rightarrow> u32 \<Rightarrow> u32 \<Rightarrow> uptr \<times> uptr" where
  "call_wrapper func_low func_high args_low args_high =
     (push_bit 32 (ucast func_high) OR ucast func_low, push_bit 32 (ucast args_high) OR ucast args_low)"

text \<open>The case \<open>act_finished_coroutine\<close> of the switch.\<close>

definition finish_coroutine :: "'w coroutine_env_s \<Rightarrow> 'w coroutine_env_s res" where
  "finish_coroutine e =
     bind_res (deref (curr_task_ptr e)) (\<lambda>a.
     bind_res (get_task a e) (\<lambda>t.
     bind_res (the_init (stack_ptr t)) (\<lambda>sp.
       Inr (e\<lparr>stacks := stacks e - {sp}, tasks := (tasks e)(a := None), ran := ran e + 1\<rparr>))))"

text \<open>
  One pass through the switch of \<open>new_manager\<close>. \<open>True\<close>: the manager has switched to the
  coroutine; \<open>False\<close>: it goes back to \<open>sem_wait\<close>. \<open>sp\<close> is the stack \<open>malloc\<close> returns.
\<close>

definition manager_switch :: "addr \<Rightarrow> addr \<Rightarrow> 'w coroutine_env_s \<Rightarrow> (bool \<times> 'w coroutine_env_s) res" where
  "manager_switch sp a e =
     bind_res (get_task a e) (\<lambda>t.
       case action t of
         act_new_coroutine \<Rightarrow>
           bind_res (get_init_arg t) (\<lambda>arg.
             let (fl, fh) = transporter (func arg); (al, ah) = transporter (func_arg arg)
             in bind_res (upd_task a (\<lambda>t. t\<lparr>stack_ptr := Some sp, task_context := Ctx_entry fl fh al ah\<rparr>) e) (\<lambda>e1.
                  Inr (True, e1\<lparr>stacks := insert sp (stacks e1), curr_task_ptr := Some a\<rparr>)))
       | act_finished_coroutine \<Rightarrow> map_sum id (Pair False) (finish_coroutine e)
       | act_sched_yield \<Rightarrow> Inr (True, e\<lparr>curr_task_ptr := Some a\<rparr>)
       | act_disk_open_done \<Rightarrow> Inr (True, e\<lparr>curr_task_ptr := Some a\<rparr>)
       | act_disk_read_done \<Rightarrow> Inr (True, e\<lparr>curr_task_ptr := Some a\<rparr>)
       | act_disk_write_done \<Rightarrow> Inr (True, e\<lparr>curr_task_ptr := Some a\<rparr>)
       | act_sock_done \<Rightarrow> Inr (True, e\<lparr>curr_task_ptr := Some a\<rparr>)
       | act_tcp_blocked_connect_done \<Rightarrow> Inr (True, e\<lparr>curr_task_ptr := Some a\<rparr>)
       | act_tcp_timeout_connect_done \<Rightarrow> Inr (True, e\<lparr>curr_task_ptr := Some a\<rparr>)
       | act_msleep_done \<Rightarrow> Inr (True, e\<lparr>curr_task_ptr := Some a\<rparr>)
       | act_bg_run_done \<Rightarrow> Inr (True, e\<lparr>curr_task_ptr := Some a\<rparr>)
       | act_tcp_accept_done \<Rightarrow> Inr (True, e\<lparr>curr_task_ptr := Some a\<rparr>)
       | act_sem_activation \<Rightarrow> Inr (True, e\<lparr>curr_task_ptr := Some a\<rparr>)
       | _ \<Rightarrow> Inl Aborted)"

text \<open>After \<open>sem_wait\<close>: \<open>Shift(todo_queue, task_ptr)\<close> and the assertion on the task.\<close>

definition manager_take :: "'w coroutine_env_s \<Rightarrow> (addr \<times> 'w coroutine_env_s) res" where
  "manager_take e =
     bind_res (Shift_todo e) (\<lambda>(p, e1).
     bind_res (assert_c (p \<noteq> None)) (\<lambda>_.
     bind_res (deref p) (\<lambda>a. Inr (a, e1))))"

text \<open>After the coroutine has switched back: \<open>if (task_ptr->action == act_finished_coroutine) goto loop\<close>.\<close>

definition manager_back :: "addr \<Rightarrow> 'w coroutine_env_s \<Rightarrow> 'w coroutine_env_s res" where
  "manager_back a e =
     bind_res (get_task a e) (\<lambda>t.
       if action t = act_finished_coroutine then finish_coroutine e else Inr e)"

text \<open>
  What the manager enters when it switches to a coroutine: \<open>call_wrapper\<close> on a fresh context,
  the point after the \<open>swapcontext\<close> on a saved one (\<open>None\<close>).
\<close>

definition context_entry :: "context_t \<Rightarrow> (uptr \<times> uptr) option res" where
  "context_entry c =
     (case c of
        Ctx_none \<Rightarrow> Inl Uninitialised
      | Ctx_entry fl fh al ah \<Rightarrow> Inr (Some (call_wrapper fl fh al ah))
      | Ctx_saved \<Rightarrow> Inr None)"

section \<open>Requests of the running coroutine\<close>

definition get_curr :: "'w coroutine_env_s \<Rightarrow> addr res" where
  "get_curr e = deref (curr_task_ptr e)"

definition upd_curr :: "(task \<Rightarrow> task) \<Rightarrow> 'w coroutine_env_s \<Rightarrow> 'w coroutine_env_s res" where
  "upd_curr f e = bind_res (get_curr e) (\<lambda>a. upd_task a f e)"

text \<open>\<open>coroutine_get_context\<close> and \<open>swapcontext(task_context, manager_context)\<close>.\<close>

definition swap_out :: "'w coroutine_env_s \<Rightarrow> 'w coroutine_env_s res" where
  "swap_out e = upd_curr (\<lambda>t. t\<lparr>task_context := Ctx_saved\<rparr>) e"

definition coroutine_set_finished_coroutine :: "'w coroutine_env_s \<Rightarrow> 'w coroutine_env_s res" where
  "coroutine_set_finished_coroutine e = upd_curr (\<lambda>t. t\<lparr>action := act_finished_coroutine\<rparr>) e"

definition coroutine_get_retval :: "'w coroutine_env_s \<Rightarrow> int res" where
  "coroutine_get_retval e =
     bind_res (get_curr e) (\<lambda>a. bind_res (get_task a e) (\<lambda>t.
     bind_res (the_init (ret_val t)) (\<lambda>v. Inr (to_int v))))"

definition crt_get_err_code :: "'w coroutine_env_s \<Rightarrow> int res" where
  "crt_get_err_code e =
     bind_res (get_curr e) (\<lambda>a. bind_res (get_task a e) (\<lambda>t. the_init (ret_err_code t)))"

definition coroutine_set_disk_open :: "uptr \<Rightarrow> u32 \<Rightarrow> u32 \<Rightarrow> 'w coroutine_env_s \<Rightarrow> 'w coroutine_env_s res" where
  "coroutine_set_disk_open path flags va_mode e =
     upd_curr (\<lambda>t. t\<lparr>action := act_disk_open,
       args := Open_arg \<lparr>pathname = path, oflags = flags, omode = (if flags AND O_CREAT \<noteq> 0 then va_mode else 0)\<rparr>\<rparr>) e"

text \<open>The disk requests leave the \<open>timeout_ms\<close> of the union as it is.\<close>

fun io_timeout :: "args_u \<Rightarrow> int option" where
  "io_timeout (Io_arg x) = timeout_ms x"
| "io_timeout _ = None"

definition set_disk_io :: "action_t \<Rightarrow> int \<Rightarrow> uptr \<Rightarrow> u64 \<Rightarrow> 'w coroutine_env_s \<Rightarrow> 'w coroutine_env_s res" where
  "set_disk_io act fd buf cnt e =
     upd_curr (\<lambda>t. t\<lparr>action := act,
       args := Io_arg \<lparr>timeout_ms = io_timeout (args t), io_fd = fd, io_buf = buf, io_count = cnt\<rparr>\<rparr>) e"

definition coroutine_set_disk_read :: "int \<Rightarrow> uptr \<Rightarrow> u64 \<Rightarrow> 'w coroutine_env_s \<Rightarrow> 'w coroutine_env_s res" where
  "coroutine_set_disk_read = set_disk_io act_disk_read"

definition coroutine_set_disk_write :: "int \<Rightarrow> uptr \<Rightarrow> u64 \<Rightarrow> 'w coroutine_env_s \<Rightarrow> 'w coroutine_env_s res" where
  "coroutine_set_disk_write = set_disk_io act_disk_write"

definition set_sock_io :: "action_t \<Rightarrow> int \<Rightarrow> uptr \<Rightarrow> u64 \<Rightarrow> int \<Rightarrow> 'w coroutine_env_s \<Rightarrow> 'w coroutine_env_s res" where
  "set_sock_io act fd buf cnt msec e =
     upd_curr (\<lambda>t. t\<lparr>action := act,
       args := Io_arg \<lparr>timeout_ms = Some msec, io_fd = fd, io_buf = buf, io_count = cnt\<rparr>\<rparr>) e"

definition coroutine_set_sock_read :: "int \<Rightarrow> uptr \<Rightarrow> u64 \<Rightarrow> int \<Rightarrow> 'w coroutine_env_s \<Rightarrow> 'w coroutine_env_s res" where
  "coroutine_set_sock_read = set_sock_io act_sock_read"

definition coroutine_set_sock_write :: "int \<Rightarrow> uptr \<Rightarrow> u64 \<Rightarrow> int \<Rightarrow> 'w coroutine_env_s \<Rightarrow> 'w coroutine_env_s res" where
  "coroutine_set_sock_write = set_sock_io act_sock_write"

fun connect_fd :: "args_u \<Rightarrow> int option" where
  "connect_fd (Connect_arg x) = c_fd x"
| "connect_fd _ = None"

definition coroutine_set_sock_connect ::
  "in_addr_t \<Rightarrow> in_port_t \<Rightarrow> int \<Rightarrow> 'w coroutine_env_s \<Rightarrow> 'w coroutine_env_s res" where
  "coroutine_set_sock_connect ip port msec e =
     upd_curr (\<lambda>t. t\<lparr>action := (if msec = -1 then act_tcp_blocked_connect else act_tcp_timeout_connect),
       args := Connect_arg \<lparr>c_timeout_ms = msec, c_ip = ip, c_port = port, c_fd = connect_fd (args t)\<rparr>\<rparr>) e"

definition set_msleep :: "u64 \<Rightarrow> 'w coroutine_env_s \<Rightarrow> 'w coroutine_env_s res" where
  "set_msleep msec e = upd_curr (\<lambda>t. t\<lparr>action := act_msleep, args := General_arg \<lparr>g_u64 = msec\<rparr>\<rparr>) e"

definition set_bg_run :: "uptr \<Rightarrow> uptr \<Rightarrow> uptr \<Rightarrow> 'w coroutine_env_s \<Rightarrow> 'w coroutine_env_s res" where
  "set_bg_run f x result e =
     upd_curr (\<lambda>t. t\<lparr>action := act_bg_run, args := Routine_arg \<lparr>r_func = f, r_arg = x, r_result = result\<rparr>\<rparr>) e"

definition set_accept :: "int \<Rightarrow> uptr \<Rightarrow> uptr \<Rightarrow> 'w coroutine_env_s \<Rightarrow> 'w coroutine_env_s res" where
  "set_accept fd ad len e =
     upd_curr (\<lambda>t. t\<lparr>action := act_tcp_accept,
       args := Tcp_accept_arg \<lparr>sockfd = fd, a_addr = ad, a_addrlen = len\<rparr>\<rparr>) e"

text \<open>
  \<open>coroutine_notify_background_worker\<close>, in the two parts another thread can come between:
  queueing the task, and waking a worker, chosen round robin, through its pipe.
\<close>

definition notify_push :: "thread \<Rightarrow> 'w coroutine_env_s \<Rightarrow> 'w coroutine_env_s res" where
  "notify_push th e =
     bind_res (assert_c (g_thread_id th = 0)) (\<lambda>_. bind_res (get_curr e) (\<lambda>a. Push_doing a e))"

definition next_worker :: "'w coroutine_env_s \<Rightarrow> nat" where
  "next_worker e = unat (bg_worker_id e) mod background_worker_count e"

definition notify_write :: "'w coroutine_env_s \<Rightarrow> 'w coroutine_env_s res" where
  "notify_write e =
     (let (nwrite, e1) = pipe_write (next_worker e) 0xee (e\<lparr>bg_worker_id := bg_worker_id e + 1\<rparr>)
      in bind_res (assert_c (nwrite = 1)) (\<lambda>_. Inr e1))"

definition coroutine_notify_background_worker :: "thread \<Rightarrow> 'w coroutine_env_s \<Rightarrow> 'w coroutine_env_s res" where
  "coroutine_notify_background_worker th e = bind_res (notify_push th e) notify_write"

text \<open>
  The calls of a coroutine that wait for a background worker, up to their \<open>swapcontext\<close>. What
  they return afterwards is \<open>coroutine_get_retval\<close>.
\<close>

definition crt_wait ::
  "('w coroutine_env_s \<Rightarrow> 'w coroutine_env_s res) \<Rightarrow> 'w coroutine_env_s \<Rightarrow> 'w coroutine_env_s res" where
  "crt_wait request e =
     bind_res (request e) (\<lambda>e1. bind_res (coroutine_notify_background_worker Manager e1) swap_out)"

definition crt_disk_open :: "uptr \<Rightarrow> u32 \<Rightarrow> u32 \<Rightarrow> 'w coroutine_env_s \<Rightarrow> 'w coroutine_env_s res" where
  "crt_disk_open path flags va_mode = crt_wait (coroutine_set_disk_open path flags va_mode)"

definition crt_disk_read :: "int \<Rightarrow> uptr \<Rightarrow> u64 \<Rightarrow> 'w coroutine_env_s \<Rightarrow> 'w coroutine_env_s res" where
  "crt_disk_read fd buf cnt = crt_wait (coroutine_set_disk_read fd buf cnt)"

definition crt_disk_write :: "int \<Rightarrow> uptr \<Rightarrow> u64 \<Rightarrow> 'w coroutine_env_s \<Rightarrow> 'w coroutine_env_s res" where
  "crt_disk_write fd buf cnt = crt_wait (coroutine_set_disk_write fd buf cnt)"

definition crt_tcp_read :: "int \<Rightarrow> uptr \<Rightarrow> u64 \<Rightarrow> 'w coroutine_env_s \<Rightarrow> 'w coroutine_env_s res" where
  "crt_tcp_read fd buf cnt = crt_wait (coroutine_set_sock_read fd buf cnt 0)"

definition crt_tcp_write :: "int \<Rightarrow> uptr \<Rightarrow> u64 \<Rightarrow> 'w coroutine_env_s \<Rightarrow> 'w coroutine_env_s res" where
  "crt_tcp_write fd buf cnt = crt_wait (coroutine_set_sock_write fd buf cnt 0)"

definition crt_tcp_read_to :: "int \<Rightarrow> uptr \<Rightarrow> u64 \<Rightarrow> int \<Rightarrow> 'w coroutine_env_s \<Rightarrow> 'w coroutine_env_s res" where
  "crt_tcp_read_to fd buf cnt msec = crt_wait (coroutine_set_sock_read fd buf cnt msec)"

definition crt_tcp_write_to :: "int \<Rightarrow> uptr \<Rightarrow> u64 \<Rightarrow> int \<Rightarrow> 'w coroutine_env_s \<Rightarrow> 'w coroutine_env_s res" where
  "crt_tcp_write_to fd buf cnt msec = crt_wait (coroutine_set_sock_write fd buf cnt msec)"

definition crt_tcp_blocked_connect :: "in_addr_t \<Rightarrow> in_port_t \<Rightarrow> 'w coroutine_env_s \<Rightarrow> 'w coroutine_env_s res" where
  "crt_tcp_blocked_connect ip port = crt_wait (coroutine_set_sock_connect ip port (-1))"

definition crt_tcp_timeout_connect ::
  "in_addr_t \<Rightarrow> in_port_t \<Rightarrow> int \<Rightarrow> 'w coroutine_env_s \<Rightarrow> 'w coroutine_env_s res" where
  "crt_tcp_timeout_connect ip port msec = crt_wait (coroutine_set_sock_connect ip port msec)"

definition crt_bg_run :: "uptr \<Rightarrow> uptr \<Rightarrow> uptr \<Rightarrow> 'w coroutine_env_s \<Rightarrow> 'w coroutine_env_s res" where
  "crt_bg_run f x result = crt_wait (set_bg_run f x result)"

definition crt_tcp_accept :: "int \<Rightarrow> uptr \<Rightarrow> uptr \<Rightarrow> 'w coroutine_env_s \<Rightarrow> 'w coroutine_env_s res" where
  "crt_tcp_accept fd ad len = crt_wait (set_accept fd ad len)"

text \<open>\<open>crt_msleep(0)\<close> returns -1 at once (\<open>Some (-1)\<close>), without suspending the coroutine.\<close>

definition crt_msleep :: "u64 \<Rightarrow> 'w coroutine_env_s \<Rightarrow> (int option \<times> 'w coroutine_env_s) res" where
  "crt_msleep msec e =
     (if msec \<noteq> 0 then map_sum id (Pair None) (crt_wait (set_msleep msec) e) else Inr (Some (-1), e))"

definition crt_sched_yield :: "'w coroutine_env_s \<Rightarrow> 'w coroutine_env_s res" where
  "crt_sched_yield e =
     bind_res (upd_curr (\<lambda>t. t\<lparr>action := act_sched_yield\<rparr>) e) (\<lambda>e1.
     bind_res (get_curr e1) (\<lambda>a.
     bind_res (Push_todo a e1) (\<lambda>e2. swap_out (sem_post_manager e2))))"

text \<open>\<open>crt_exit\<close> marks the task and returns from the coroutine, to the manager's context.\<close>

definition crt_exit :: "'w coroutine_env_s \<Rightarrow> 'w coroutine_env_s res" where
  "crt_exit = coroutine_set_finished_coroutine"

section \<open>Creating coroutines\<close>

text \<open>
  \<open>crt_create\<close> up to the queueing of the task; \<open>m\<close> is what \<open>malloc\<close> returns, NULL or an
  address with the contents of the memory there. The result has the coroutine's id.
\<close>

definition create_push ::
  "(addr \<times> task) option \<Rightarrow> u64 option \<Rightarrow> uptr \<Rightarrow> uptr \<Rightarrow> 'w coroutine_env_s \<Rightarrow> (u64 \<times> 'w coroutine_env_s) res" where
  "create_push m attr br x e =
     (case m of
        None \<Rightarrow> Inl NullDeref
      | Some (a, junk) \<Rightarrow>
          let e1 = e\<lparr>cid := cid e + 1\<rparr>;
              size = (case attr of None \<Rightarrow> COROUTINE_STACK_SIZE
                                 | Some s \<Rightarrow> if s \<noteq> 0 then s else COROUTINE_STACK_SIZE);
              t = junk\<lparr>ret_val := None, ret_err_code := None, task_context := Ctx_none, stack_ptr := None,
                       action := act_new_coroutine,
                       args := Init_arg \<lparr>func = br, stack_size = size, func_arg = x\<rparr>\<rparr>;
              e2 = e1\<lparr>tasks := (tasks e1)(a \<mapsto> t)\<rparr>
          in bind_res (Push_todo a e2) (\<lambda>e3. Inr (cid e1, e3)))"

definition crt_create ::
  "(addr \<times> task) option \<Rightarrow> u64 option \<Rightarrow> uptr \<Rightarrow> uptr \<Rightarrow> 'w coroutine_env_s \<Rightarrow> (u64 \<times> 'w coroutine_env_s) res" where
  "crt_create m attr br x e =
     bind_res (create_push m attr br x e) (\<lambda>(id, e1). Inr (id, sem_post_manager e1))"

definition crt_attr_setstacksize :: "u64 \<Rightarrow> u64" where
  "crt_attr_setstacksize stacksize = stacksize"

section \<open>Coroutine semaphores\<close>

record crt_sem_t =
  sem_value :: int
  sem_task_ptr :: ptr
  buf_capacity :: u64
  buf_offset :: u64
  buf :: uptr

definition crt_sem_init :: "u32 \<Rightarrow> crt_sem_t" where
  "crt_sem_init val = \<lparr>sem_value = sint val, sem_task_ptr = None, buf_capacity = 0, buf_offset = 0, buf = 0\<rparr>"

definition crt_sem_post :: "crt_sem_t \<Rightarrow> 'w coroutine_env_s \<Rightarrow> (crt_sem_t \<times> 'w coroutine_env_s) res" where
  "crt_sem_post s e =
     (let s1 = s\<lparr>sem_value := to_int (sem_value s + 1)\<rparr>
      in case sem_task_ptr s1 of
           None \<Rightarrow> Inr (s1, e)
         | Some a \<Rightarrow>
             bind_res (upd_task a (\<lambda>t. t\<lparr>action := act_sem_activation\<rparr>) e) (\<lambda>e1.
             bind_res (Push_todo a e1) (\<lambda>e2. Inr (s1, sem_post_manager e2))))"

text \<open>
  One pass through the loop of \<open>crt_sem_wait\<close>. \<open>True\<close>: the call returns; \<open>False\<close>: the
  coroutine has been suspended, and passes through the loop again when it is resumed.
\<close>

definition crt_sem_wait ::
  "crt_sem_t \<Rightarrow> 'w coroutine_env_s \<Rightarrow> (bool \<times> crt_sem_t \<times> 'w coroutine_env_s) res" where
  "crt_sem_wait s e =
     (if sem_value s > 0 then Inr (True, s\<lparr>sem_task_ptr := None, sem_value := sem_value s - 1\<rparr>, e)
      else
        let s1 = s\<lparr>sem_task_ptr := curr_task_ptr e\<rparr>
        in bind_res (swap_out e) (\<lambda>e1. Inr (False, s1, e1)))"

definition crt_sem_destroy :: "crt_sem_t \<Rightarrow> crt_sem_t" where
  "crt_sem_destroy s =
     \<lparr>sem_value = sint (0xCCCCCCCC :: u32), sem_task_ptr = Some 0xCCCCCCCCCCCCCCCC,
      buf_capacity = 0xCCCCCCCCCCCCCCCC, buf_offset = 0xCCCCCCCCCCCCCCCC, buf = 0xCCCCCCCCCCCCCCCC\<rparr>"

definition crt_sem_priority_post ::
  "int \<Rightarrow> crt_sem_t \<Rightarrow> 'w coroutine_env_s \<Rightarrow> (crt_sem_t \<times> 'w coroutine_env_s) res" where
  "crt_sem_priority_post flag s e =
     (if flag = 0 then crt_sem_post s e
      else if flag = 1 then Inl Aborted
      else if flag = 2 then
        let s1 = s\<lparr>sem_value := to_int (sem_value s + 1)\<rparr>
        in case sem_task_ptr s1 of
             None \<Rightarrow> Inr (s1, e)
           | Some a \<Rightarrow>
               bind_res (upd_task a (\<lambda>t. t\<lparr>action := act_sem_activation\<rparr>) e) (\<lambda>e1.
               bind_res (Unshift_todo a e1) (\<lambda>e2. Inr (s1, sem_post_manager e2)))
      else Inl Aborted)"

end
