(* ===== verification/Acoro_Handlers.thy ===== *)
theory Acoro_Handlers
  imports Acoro_Manager
begin

text \<open>
  What each function of a background worker does to the task it works on, to its loop, and to
  nothing else. A handler ends in one of two ways: the task is \<^emph>\<open>completed\<close> (its result is
  stored, none of its watchers is engaged, and it is handed back to the manager), or it stays
  \<^emph>\<open>parked\<close> in the worker's loop with a watcher that will call the library back. The kernel's
  documented behaviour is the hypothesis \<open>posix_ok\<close>, the client's obligations on a request are
  \<open>request_ok\<close>.
\<close>

section \<open>Contracts\<close>

text \<open>
  The documented behaviour of the system calls the handlers rely on: \<open>read\<close> and \<open>write\<close> return
  -1 or at most the number of bytes asked for and are not interrupted for ever (\<open>m\<close> decreases
  with every interruption), \<open>accept\<close> returns -1 or a descriptor, \<open>connect\<close> 0 or -1, and the
  descriptors in \<open>NB\<close> are non-blocking.
\<close>

definition rw_ok :: "('w \<Rightarrow> nat) \<Rightarrow> (int \<Rightarrow> uptr \<Rightarrow> u64 \<Rightarrow> ('w, int) syscall) \<Rightarrow> bool" where
  "rw_ok m io \<longleftrightarrow>
     (\<forall>fd b n en w. case io fd b n en w of
        (r, en', w') \<Rightarrow> -1 \<le> r \<and> r \<le> uint n \<and> (r = -1 \<and> en' = EINTR \<longrightarrow> m w' < m w))"

definition posix_ok :: "('w \<Rightarrow> nat) \<Rightarrow> int set \<Rightarrow> 'w posix \<Rightarrow> bool" where
  "posix_ok m NB P \<longleftrightarrow>
     rw_ok m (sys_read P) \<and> rw_ok m (sys_write P) \<and>
     (\<forall>fd ad len en w. -1 \<le> fst (sys_accept P fd ad len en w)) \<and>
     (\<forall>fd ip port en w. fst (sys_connect P fd ip port en w) \<le> 0) \<and>
     (\<forall>fd en w. fd \<in> NB \<longrightarrow> fst (sys_getfl P fd en w) AND O_NONBLOCK \<noteq> 0)"

definition sock_request :: "int set \<Rightarrow> task \<Rightarrow> bool" where
  "sock_request NB t \<longleftrightarrow>
     (\<exists>x ms. args t = Io_arg x \<and> timeout_ms x = Some ms \<and> 0 \<le> io_fd x \<and> io_fd x \<in> NB \<and>
        uint (io_count x) < 2 ^ 63)"

definition request_ok :: "int set \<Rightarrow> task \<Rightarrow> bool" where
  "request_ok NB t \<longleftrightarrow>
     (case action t of
        act_disk_open \<Rightarrow> \<exists>x. args t = Open_arg x
      | act_disk_read \<Rightarrow> \<exists>x. args t = Io_arg x
      | act_disk_write \<Rightarrow> \<exists>x. args t = Io_arg x
      | act_sock_read \<Rightarrow> sock_request NB t
      | act_sock_write \<Rightarrow> sock_request NB t
      | act_tcp_blocked_connect \<Rightarrow> \<exists>x. args t = Connect_arg x
      | act_tcp_timeout_connect \<Rightarrow> \<exists>x. args t = Connect_arg x
      | act_msleep \<Rightarrow> \<exists>x. args t = General_arg x
      | act_bg_run \<Rightarrow> \<exists>x. args t = Routine_arg x
      | act_tcp_accept \<Rightarrow> \<exists>x. args t = Tcp_accept_arg x \<and> 0 \<le> sockfd x
      | _ \<Rightarrow> False)"

text \<open>The actions with which a task may stand in the queue of the manager after its first run.\<close>

definition resumable :: "action_t \<Rightarrow> bool" where
  "resumable act \<longleftrightarrow> act \<in> {act_sched_yield, act_disk_open_done, act_disk_read_done, act_disk_write_done,
     act_sock_done, act_tcp_blocked_connect_done, act_tcp_timeout_connect_done, act_msleep_done,
     act_bg_run_done, act_tcp_accept_done, act_sem_activation}"

text \<open>
  A task parked in a loop: its watchers carry the callbacks and event masks of its action, its
  timer runs only if a timeout was asked for, and at least one watcher is engaged. A socket
  transfer has moved \<open>have_io\<close> bytes and has \<open>need_io\<close> to go.
\<close>

definition io_watch :: "loop_t \<Rightarrow> addr \<Rightarrow> callback \<Rightarrow> events \<Rightarrow> bool" where
  "io_watch l a f evs \<longleftrightarrow> cb (ws l (IoW a)) = f \<and> w_events (ws l (IoW a)) = evs"

definition timer_watch :: "loop_t \<Rightarrow> addr \<Rightarrow> callback \<Rightarrow> int \<Rightarrow> bool" where
  "timer_watch l a f ms \<longleftrightarrow> (engaged l (TimerW a) \<longrightarrow> ms \<noteq> 0 \<and> cb (ws l (TimerW a)) = f)"

definition sock_parked :: "int set \<Rightarrow> loop_t \<Rightarrow> addr \<Rightarrow> task \<Rightarrow> callback \<Rightarrow> events \<Rightarrow> bool" where
  "sock_parked NB l a t f evs \<longleftrightarrow>
     (\<exists>x ms. args t = Io_arg x \<and> timeout_ms x = Some ms \<and> io_fd x \<in> NB \<and>
        have_io t + need_io t = uint (io_count x) \<and> 0 \<le> have_io t \<and> 0 \<le> need_io t \<and>
        uint (io_count x) < 2 ^ 63 \<and> io_watch l a f evs \<and> timer_watch l a Cb_ev_sock_timeout ms)"

definition parked_conf :: "int set \<Rightarrow> loop_t \<Rightarrow> addr \<Rightarrow> task \<Rightarrow> bool" where
  "parked_conf NB l a t \<longleftrightarrow>
     (case action t of
        act_sock_read \<Rightarrow> sock_parked NB l a t Cb_ev_sock_read EV_READ
      | act_sock_write \<Rightarrow> sock_parked NB l a t Cb_ev_sock_write EV_WRITE
      | act_tcp_timeout_connect \<Rightarrow>
          (\<exists>x fd. args t = Connect_arg x \<and> c_fd x = Some fd \<and>
             io_watch l a Cb_ev_sock_connect (EV_READ OR EV_WRITE) \<and>
             timer_watch l a Cb_ev_sock_connect_timeout (c_timeout_ms x))
      | act_msleep \<Rightarrow> cb (ws l (TimerW a)) = Cb_timer_timeout \<and> \<not> engaged l (IoW a)
      | act_tcp_accept \<Rightarrow>
          (\<exists>x. args t = Tcp_accept_arg x) \<and> io_watch l a Cb_ev_tcp_accept EV_READ \<and>
          \<not> engaged l (TimerW a) \<and> IoW a \<notin> errs l
      | _ \<Rightarrow> False)"

definition parked_ok :: "int set \<Rightarrow> loop_t \<Rightarrow> addr \<Rightarrow> task \<Rightarrow> bool" where
  "parked_ok NB l a t \<longleftrightarrow>
     parked_conf NB l a t \<and> (if action t = act_msleep then engaged l (TimerW a) else engaged l (IoW a))"

section \<open>What a handler leaves alone\<close>

definition frame :: "nat \<Rightarrow> addr \<Rightarrow> 'w coroutine_env_s \<Rightarrow> 'w coroutine_env_s \<Rightarrow> bool" where
  "frame i a e e' \<longleftrightarrow>
     (\<forall>b. b \<noteq> a \<longrightarrow> tasks e' b = tasks e b) \<and>
     (\<forall>t. tasks e a = Some t \<longrightarrow>
        (\<exists>t'. tasks e' a = Some t' \<and> stack_ptr t' = stack_ptr t \<and> task_context t' = task_context t)) \<and>
     stacks e' = stacks e \<and> nxt e' = nxt e \<and> todo_queue e' = todo_queue e \<and> doing_queue e' = doing_queue e \<and>
     queue_heads e' = queue_heads e \<and>
     manager_sem e' = manager_sem e \<and> pipe_channel e' = pipe_channel e \<and>
     background_worker_count e' = background_worker_count e \<and> cid e' = cid e \<and> ran e' = ran e \<and>
     bg_worker_id e' = bg_worker_id e \<and> curr_task_ptr e' = curr_task_ptr e \<and>
     (\<forall>j. j \<noteq> i \<longrightarrow> worker_ev e' j = worker_ev e j)"

lemma frame_refl [simp]: "frame i a e e"
  by (simp add: frame_def)

lemma frame_trans: "frame i a e1 e2 \<Longrightarrow> frame i a e2 e3 \<Longrightarrow> frame i a e1 e3"
  unfolding frame_def by auto

text \<open>Two environments that differ in \<open>errno\<close> and in the world only.\<close>

definition os_only :: "'w coroutine_env_s \<Rightarrow> 'w coroutine_env_s \<Rightarrow> bool" where
  "os_only e e' \<longleftrightarrow> e' = e\<lparr>errno := errno e', world := world e'\<rparr>"

lemma os_onlyI [simp]: "os_only e (e\<lparr>errno := en, world := w\<rparr>)" "os_only e (e\<lparr>errno := en\<rparr>)"
  by (simp_all add: os_only_def)

lemma os_only_refl [simp]: "os_only e e"
  by (simp add: os_only_def)

lemma os_only_trans: "os_only e1 e2 \<Longrightarrow> os_only e2 e3 \<Longrightarrow> os_only e1 e3"
  unfolding os_only_def by (cases e1; cases e2; cases e3) simp

lemma os_only_fields:
  assumes "os_only e e'"
  shows "tasks e' = tasks e" "worker_ev e' = worker_ev e" "frame i a e e'" "get_task a e' = get_task a e"
  using assms unfolding os_only_def by (cases e; cases e'; simp add: frame_def get_task_def)+

lemma os_only_sys: "sys th f e = (r, e') \<Longrightarrow> os_only e e'"
  by (auto simp: sys_def split: prod.splits)

lemma os_only_nonblock: "crt_set_nonblock P th fd e = (r, e') \<Longrightarrow> os_only e e'"
  by (auto simp: crt_set_nonblock_def Let_def split: prod.splits if_splits
      dest!: os_only_sys intro: os_only_trans)

lemma upd_task_ok:
  assumes "tasks e a = Some t" and "stack_ptr (f t) = stack_ptr t" and "task_context (f t) = task_context t"
  shows "\<exists>e'. upd_task a f e = Inr e' \<and> frame i a e e' \<and> tasks e' a = Some (f t) \<and> worker_ev e' = worker_ev e"
  using assms by (auto simp: upd_task_def frame_def)

lemma on_loop_ok:
  assumes "f (worker_ev e i) = Inr l"
  shows "\<exists>e'. on_loop i f e = Inr e' \<and> frame i a e e' \<and> tasks e' = tasks e \<and> worker_ev e' i = l"
  using assms by (auto simp: on_loop_def frame_def)

section \<open>The two outcomes\<close>

abbreviation task_ws :: "addr \<Rightarrow> watcher_id set" where
  "task_ws a \<equiv> {IoW a, TimerW a}"

definition completed :: "nat \<Rightarrow> addr \<Rightarrow> 'w coroutine_env_s \<Rightarrow> 'w coroutine_env_s \<Rightarrow> bool" where
  "completed i a e e' \<longleftrightarrow>
     frame i a e e' \<and> lp_inv is_timer (worker_ev e' i) \<and>
     loop_frame (task_ws a) (worker_ev e i) (worker_ev e' i) \<and>
     \<not> engaged (worker_ev e' i) (IoW a) \<and> \<not> engaged (worker_ev e' i) (TimerW a) \<and>
     (\<exists>t. tasks e' a = Some t \<and> resumable (action t) \<and> ret_val t \<noteq> None \<and> ret_err_code t \<noteq> None)"

definition parked :: "int set \<Rightarrow> nat \<Rightarrow> addr \<Rightarrow> 'w coroutine_env_s \<Rightarrow> 'w coroutine_env_s \<Rightarrow> bool" where
  "parked NB i a e e' \<longleftrightarrow>
     frame i a e e' \<and> lp_inv is_timer (worker_ev e' i) \<and>
     loop_frame (task_ws a) (worker_ev e i) (worker_ev e' i) \<and>
     (\<exists>t. tasks e' a = Some t \<and> parked_ok NB (worker_ev e' i) a t)"

text \<open>A handler's result: completed and handed to the manager, or parked.\<close>

definition handled :: "int set \<Rightarrow> nat \<Rightarrow> addr \<Rightarrow> 'w coroutine_env_s \<Rightarrow> 'w coroutine_env_s res \<Rightarrow> bool" where
  "handled NB i a e r \<longleftrightarrow>
     (\<exists>e1. completed i a e e1 \<and> r = coroutine_notify_manager a e1) \<or> (\<exists>e1. parked NB i a e e1 \<and> r = Inr e1)"

text \<open>A task in the hands of a worker that has just taken it from the queue.\<close>

definition in_hand :: "int set \<Rightarrow> nat \<Rightarrow> addr \<Rightarrow> 'w coroutine_env_s \<Rightarrow> task \<Rightarrow> bool" where
  "in_hand NB i a e t \<longleftrightarrow>
     tasks e a = Some t \<and> request_ok NB t \<and> lp_inv is_timer (worker_ev e i) \<and>
     \<not> engaged (worker_ev e i) (IoW a) \<and> \<not> engaged (worker_ev e i) (TimerW a)"

lemma completed_trans:
  "frame i a e e1 \<Longrightarrow> loop_frame (task_ws a) (worker_ev e i) (worker_ev e1 i) \<Longrightarrow> completed i a e1 e2 \<Longrightarrow>
   completed i a e e2"
  using frame_trans loop_frame_trans unfolding completed_def by blast

lemma set_ret_ok:
  assumes "tasks e a = Some t"
  shows "\<exists>e'. set_ret a v err act e = Inr e' \<and> frame i a e e' \<and> worker_ev e' = worker_ev e \<and>
    tasks e' a = Some (t\<lparr>ret_val := Some v, ret_err_code := Some err, action := act\<rparr>)"
  using upd_task_ok [OF assms, of "\<lambda>t. t\<lparr>ret_val := Some v, ret_err_code := Some err, action := act\<rparr>" i]
  by (auto simp: set_ret_def)

text \<open>Storing the result of a synchronous operation completes the task.\<close>

lemma set_ret_completed:
  assumes "in_hand NB i a e t" and "os_only e e1" and "resumable act"
  shows "\<exists>e'. set_ret a v err act e1 = Inr e' \<and> completed i a e e' \<and>
    tasks e' a = Some (t\<lparr>ret_val := Some v, ret_err_code := Some err, action := act\<rparr>)"
proof -
  note o = os_only_fields [OF assms(2)]
  have "tasks e1 a = Some t" using assms(1) o(1) by (simp add: in_hand_def)
  from set_ret_ok [OF this] obtain e' where "set_ret a v err act e1 = Inr e'" "frame i a e1 e'"
    "worker_ev e' = worker_ev e1" "tasks e' a = Some (t\<lparr>ret_val := Some v, ret_err_code := Some err, action := act\<rparr>)"
    by blast
  with assms(1,3) o(2) frame_trans [OF o(3)] show ?thesis by (auto simp: completed_def in_hand_def)
qed

section \<open>Synchronous operations\<close>

lemma get_task_in_hand: "in_hand NB i a e t \<Longrightarrow> get_task a e = Inr t"
  by (simp add: in_hand_def get_task_def)

lemma do_disk_open_ok:
  assumes "in_hand NB i a e t" and "action t = act_disk_open"
  shows "\<exists>e'. do_disk_open P i a e = Inr e' \<and> completed i a e e'"
proof -
  from assms obtain x where x: "args t = Open_arg x" by (auto simp: in_hand_def request_ok_def)
  let ?mode = "if oflags x AND O_CREAT \<noteq> 0 then Some (omode x) else None"
  obtain v e1 where s: "sys (Worker i) (sys_open P (pathname x) (oflags x) ?mode) e = (v, e1)" by fastforce
  from set_ret_completed [OF assms(1) os_only_sys [OF s], of act_disk_open_done] show ?thesis
    using s x get_task_in_hand [OF assms(1)] by (auto simp: do_disk_open_def resumable_def split: if_splits)
qed

lemma do_disk_read_ok:
  assumes "in_hand NB i a e t" and "action t = act_disk_read"
  shows "\<exists>e'. do_disk_read P i a e = Inr e' \<and> completed i a e e'"
proof -
  from assms obtain x where x: "args t = Io_arg x" by (auto simp: in_hand_def request_ok_def)
  obtain v e1 where s: "sys (Worker i) (sys_read P (io_fd x) (io_buf x) (io_count x)) e = (v, e1)" by fastforce
  from set_ret_completed [OF assms(1) os_only_sys [OF s], of act_disk_read_done] show ?thesis
    using s x get_task_in_hand [OF assms(1)] by (auto simp: do_disk_read_def resumable_def)
qed

lemma do_disk_write_ok:
  assumes "in_hand NB i a e t" and "action t = act_disk_write"
  shows "\<exists>e'. do_disk_write P i a e = Inr e' \<and> completed i a e e'"
proof -
  from assms obtain x where x: "args t = Io_arg x" by (auto simp: in_hand_def request_ok_def)
  obtain v e1 where s: "sys (Worker i) (sys_write P (io_fd x) (io_buf x) (io_count x)) e = (v, e1)" by fastforce
  from set_ret_completed [OF assms(1) os_only_sys [OF s], of act_disk_write_done] show ?thesis
    using s x get_task_in_hand [OF assms(1)] by (auto simp: do_disk_write_def resumable_def)
qed

lemma do_bg_run_ok:
  assumes "in_hand NB i a e t" and "action t = act_bg_run"
  shows "\<exists>e'. do_bg_run P i a e = Inr e' \<and> completed i a e e'"
proof -
  from assms obtain x where x: "args t = Routine_arg x" by (auto simp: in_hand_def request_ok_def)
  obtain v e1 where s: "sys (Worker i) (sys_bg P (r_func x) (r_arg x) (r_result x)) e = (v, e1)" by fastforce
  from set_ret_completed [OF assms(1) os_only_sys [OF s], of act_bg_run_done] show ?thesis
    using s x get_task_in_hand [OF assms(1)] by (auto simp: do_bg_run_def resumable_def)
qed

text \<open>The result of a successful connection is stored in two steps, with system calls between.\<close>

lemma two_step_completed:
  assumes "in_hand NB i a e t" and "os_only e e1" and "resumable act"
  shows "\<exists>e2. upd_task a (\<lambda>t. t\<lparr>ret_val := Some v, ret_err_code := Some err\<rparr>) e1 = Inr e2 \<and>
    (\<forall>e3. os_only e2 e3 \<longrightarrow> (\<exists>e4. upd_task a (\<lambda>t. t\<lparr>action := act\<rparr>) e3 = Inr e4 \<and> completed i a e e4))"
proof -
  note o = os_only_fields [OF assms(2)]
  have "tasks e1 a = Some t" using assms(1) o(1) by (simp add: in_hand_def)
  from upd_task_ok [OF this, of "\<lambda>t. t\<lparr>ret_val := Some v, ret_err_code := Some err\<rparr>" i] obtain e2
    where e2: "upd_task a (\<lambda>t. t\<lparr>ret_val := Some v, ret_err_code := Some err\<rparr>) e1 = Inr e2" "frame i a e1 e2"
      "tasks e2 a = Some (t\<lparr>ret_val := Some v, ret_err_code := Some err\<rparr>)" "worker_ev e2 = worker_ev e1" by auto
  have "\<exists>e4. upd_task a (\<lambda>t. t\<lparr>action := act\<rparr>) e3 = Inr e4 \<and> completed i a e e4" if "os_only e2 e3" for e3
  proof -
    note o3 = os_only_fields [OF that]
    have "tasks e3 a = Some (t\<lparr>ret_val := Some v, ret_err_code := Some err\<rparr>)" using o3(1) e2(3) by simp
    from upd_task_ok [OF this, of "\<lambda>t. t\<lparr>action := act\<rparr>" i] obtain e4
      where e4: "upd_task a (\<lambda>t. t\<lparr>action := act\<rparr>) e3 = Inr e4" "frame i a e3 e4"
        "tasks e4 a = Some (t\<lparr>ret_val := Some v, ret_err_code := Some err, action := act\<rparr>)" "worker_ev e4 = worker_ev e3"
      by auto
    have "frame i a e e4" using frame_trans o(3) e2(2) o3(3) e4(2) by blast
    with assms(1,3) e2(4) e4 o(2) o3(2) show ?thesis by (auto simp: completed_def in_hand_def)
  qed
  with e2(1) show ?thesis by blast
qed

lemma do_tcp_blocked_connect_ok:
  assumes h: "in_hand NB i a e t" and "action t = act_tcp_blocked_connect"
  shows "\<exists>e'. do_tcp_blocked_connect P i a e = Inr e' \<and> completed i a e e'"
proof -
  from assms obtain x where x: "args t = Connect_arg x" by (auto simp: in_hand_def request_ok_def)
  have r: "resumable act_tcp_blocked_connect_done" by (simp add: resumable_def)
  obtain fd e1 where s1: "sys (Worker i) (sys_socket P) e = (fd, e1)" by fastforce
  obtain r2 e2 where s2: "sys (Worker i) (sys_reuseaddr P fd) e1 = (r2, e2)" by fastforce
  obtain r3 e3 where s3: "sys (Worker i) (sys_connect P fd (c_ip x) (c_port x)) e2 = (r3, e3)" by fastforce
  obtain c2 f2 where c2: "sys (Worker i) (sys_close P fd) e2 = (c2, f2)" by fastforce
  obtain c3 f3 where c3: "sys (Worker i) (sys_close P fd) e3 = (c3, f3)" by fastforce
  have o: "os_only e e1" "os_only e e2" "os_only e e3" "os_only e f2" "os_only e f3"
    using s1 s2 s3 c2 c3 by (blast intro: os_only_sys os_only_trans)+
  note eq = do_tcp_blocked_connect_def s1 s2 s3 c2 c3 x get_task_in_hand [OF h]
  consider "fd < 0" | "fd \<ge> 0" "r2 < 0" | "fd \<ge> 0" "r2 \<ge> 0" "r3 \<noteq> 0" | "fd \<ge> 0" "r2 \<ge> 0" "r3 = 0" by linarith
  then show ?thesis
  proof cases
    case 1
    with set_ret_completed [OF h o(1) r, of fd "errno e1 (Worker i)"] show ?thesis by (auto simp: eq Let_def)
  next
    case 2
    with set_ret_completed [OF h o(4) r, of r2 "errno f2 (Worker i)"] show ?thesis by (auto simp: eq Let_def)
  next
    case 3
    with set_ret_completed [OF h o(5) r, of r3 "errno f3 (Worker i)"] show ?thesis by (auto simp: eq Let_def)
  next
    case 4
    from two_step_completed [OF h o(3) r, where v = fd and err = 0] obtain e4
      where e4: "upd_task a (\<lambda>t. t\<lparr>ret_val := Some fd, ret_err_code := Some 0\<rparr>) e3 = Inr e4"
        "\<And>e5. os_only e4 e5 \<Longrightarrow>
          \<exists>e6. upd_task a (\<lambda>t. t\<lparr>action := act_tcp_blocked_connect_done\<rparr>) e5 = Inr e6 \<and> completed i a e e6" by blast
    obtain q e5 where q: "crt_set_nonblock P (Worker i) fd e4 = (q, e5)" by fastforce
    from e4(2) [OF os_only_nonblock [OF q]] 4 e4(1) q show ?thesis by (auto simp: eq Let_def)
  qed
qed

section \<open>Socket transfers\<close>

lemma start_io_ok:
  assumes "lp_inv is_timer (worker_ev e i)" and "\<not> engaged (worker_ev e i) (IoW a)" and "0 \<le> fd" and "io_mask evs"
  shows "\<exists>e'. start_io i a f fd evs e = Inr e' \<and> frame i a e e' \<and> tasks e' = tasks e \<and>
    lp_inv is_timer (worker_ev e' i) \<and> loop_frame {IoW a} (worker_ev e i) (worker_ev e' i) \<and>
    IoW a \<in> watching (worker_ev e' i) \<and> IoW a \<notin> errs (worker_ev e' i) \<and> io_watch (worker_ev e' i) a f evs"
proof -
  from lp_start_io [OF assms(1) _ assms(2-4), of f] obtain l where
    l: "ev_io_start (IoW a) (ev_io_init (IoW a) f fd evs (worker_ev e i)) = Inr l" "lp_inv is_timer l"
      "loop_frame {IoW a} (worker_ev e i) l" "IoW a \<in> watching l" "IoW a \<notin> errs l" "io_watch l a f evs"
    by (auto simp: io_watch_def)
  from on_loop_ok [of "\<lambda>l. ev_io_start (IoW a) (ev_io_init (IoW a) f fd evs l)" e i l a, OF l(1)] l(2-)
  show ?thesis by (auto simp: start_io_def)
qed

lemma start_timer_ok:
  assumes "lp_inv is_timer (worker_ev e i)" and "\<not> engaged (worker_ev e i) (TimerW a)"
  shows "\<exists>e'. start_timer i a f after e = Inr e' \<and> frame i a e e' \<and> tasks e' = tasks e \<and>
    lp_inv is_timer (worker_ev e' i) \<and> loop_frame {TimerW a} (worker_ev e i) (worker_ev e' i) \<and>
    TimerW a \<in> watching (worker_ev e' i) \<and> cb (ws (worker_ev e' i) (TimerW a)) = f"
proof -
  from lp_start_timer [OF assms(1) _ assms(2), of f after] obtain l where
    l: "ev_timer_start (TimerW a) (ev_timer_init (TimerW a) f after 0 (worker_ev e i)) = Inr l" "lp_inv is_timer l"
      "loop_frame {TimerW a} (worker_ev e i) l" "TimerW a \<in> watching l" "cb (ws l (TimerW a)) = f"
    by auto
  from on_loop_ok [of "\<lambda>l. ev_timer_start (TimerW a) (ev_timer_init (TimerW a) f after 0 l)" e i l a, OF l(1)] l(2-)
  show ?thesis by (auto simp: start_timer_def)
qed

lemma stop_ok:
  assumes "lp_inv is_timer (worker_ev e i)" and "w \<in> task_ws a"
  shows "\<exists>e'. on_loop i (if is_timer w then ev_timer_stop w else ev_io_stop w) e = Inr e' \<and> frame i a e e' \<and>
    tasks e' = tasks e \<and> lp_inv is_timer (worker_ev e' i) \<and>
    loop_frame {w} (worker_ev e i) (worker_ev e' i) \<and> \<not> engaged (worker_ev e' i) w"
proof -
  from lp_stop [OF assms(1), of w] obtain l where
    l: "ev_any_stop is_timer w (worker_ev e i) = Inr l" "lp_inv is_timer l" "loop_frame {w} (worker_ev e i) l"
      "\<not> engaged l w" by blast
  then have "(if is_timer w then ev_timer_stop w else ev_io_stop w) (worker_ev e i) = Inr l"
    by (simp add: ev_any_stop_def split: if_splits)
  from on_loop_ok [of "if is_timer w then ev_timer_stop w else ev_io_stop w" e i l a, OF this] l(2-)
  show ?thesis by auto
qed

lemmas stop_io_ok = stop_ok [where w = "IoW a" and a = a for a, simplified]
lemmas stop_timer_ok = stop_ok [where w = "TimerW a" and a = a for a, simplified]

lemma loop_frame_engaged: "loop_frame W l l' \<Longrightarrow> v \<notin> W \<Longrightarrow> engaged l' v = engaged l v"
  by (auto simp: loop_frame_def engaged_def)

text \<open>
  Stopping both watchers of a task: the timer is stopped only if \<open>ms\<close>, the timeout of its
  request, is not 0, and is engaged only then.
\<close>

lemma stop_both_ok:
  assumes lp: "lp_inv is_timer (worker_ev e i)" and tm: "engaged (worker_ev e i) (TimerW a) \<Longrightarrow> ms \<noteq> 0"
  shows "\<exists>e1 e2. on_loop i (ev_io_stop (IoW a)) e = Inr e1 \<and> tasks e1 = tasks e \<and>
    (if ms \<noteq> 0 then on_loop i (ev_timer_stop (TimerW a)) e1 else Inr e1) = Inr e2 \<and>
    frame i a e e2 \<and> tasks e2 = tasks e \<and> lp_inv is_timer (worker_ev e2 i) \<and>
    loop_frame (task_ws a) (worker_ev e i) (worker_ev e2 i) \<and>
    \<not> engaged (worker_ev e2 i) (IoW a) \<and> \<not> engaged (worker_ev e2 i) (TimerW a)"
proof -
  from stop_io_ok [OF lp, of a] obtain e1 where e1: "on_loop i (ev_io_stop (IoW a)) e = Inr e1" "frame i a e e1"
    "tasks e1 = tasks e" "lp_inv is_timer (worker_ev e1 i)" "loop_frame {IoW a} (worker_ev e i) (worker_ev e1 i)"
    "\<not> engaged (worker_ev e1 i) (IoW a)" by blast
  have f1: "loop_frame (task_ws a) (worker_ev e i) (worker_ev e1 i)" using loop_frame_mono [OF e1(5)] by simp
  show ?thesis
  proof (cases "ms = 0")
    case True
    then have "\<not> engaged (worker_ev e1 i) (TimerW a)"
      using tm loop_frame_engaged [OF e1(5), of "TimerW a"] by auto
    with True e1 f1 show ?thesis by auto
  next
    case False
    from stop_timer_ok [OF e1(4), of a] obtain e2 where e2: "on_loop i (ev_timer_stop (TimerW a)) e1 = Inr e2"
      "frame i a e1 e2" "tasks e2 = tasks e1" "lp_inv is_timer (worker_ev e2 i)"
      "loop_frame {TimerW a} (worker_ev e1 i) (worker_ev e2 i)" "\<not> engaged (worker_ev e2 i) (TimerW a)" by blast
    have "loop_frame (task_ws a) (worker_ev e i) (worker_ev e2 i)"
      using loop_frame_trans [OF f1 loop_frame_mono [OF e2(5)]] by simp
    moreover have "\<not> engaged (worker_ev e2 i) (IoW a)"
      using e1(6) loop_frame_engaged [OF e2(5), of "IoW a"] by simp
    ultimately show ?thesis using False e1(1,3) e2 frame_trans [OF e1(2) e2(2)] by auto
  qed
qed

lemma world_simps:
  "on_loop i f e = Inr e' \<Longrightarrow> world e' = world e" "upd_task a g e = Inr e' \<Longrightarrow> world e' = world e"
  "set_ret a v err act e = Inr e' \<Longrightarrow> world e' = world e"
  by (auto simp: on_loop_def upd_task_def set_ret_def bind_res_Inr_iff split: option.splits)

lemma ev_sock_stop_ok:
  assumes t: "tasks e a = Some t" "args t = Io_arg x" "timeout_ms x = Some ms"
    and lp: "lp_inv is_timer (worker_ev e i)" and tm: "engaged (worker_ev e i) (TimerW a) \<Longrightarrow> ms \<noteq> 0"
  shows "\<exists>e'. ev_sock_stop i a v err e = Inr e' \<and> completed i a e e' \<and>
    tasks e' a = Some (t\<lparr>ret_val := Some (to_int v), ret_err_code := Some err, action := act_sock_done\<rparr>) \<and> world e' = world e"
proof -
  from stop_both_ok [OF lp tm] obtain e1 e2 where e: "on_loop i (ev_io_stop (IoW a)) e = Inr e1" "tasks e1 = tasks e"
    "(if ms \<noteq> 0 then on_loop i (ev_timer_stop (TimerW a)) e1 else Inr e1) = Inr e2"
    "frame i a e e2" "tasks e2 = tasks e" "lp_inv is_timer (worker_ev e2 i)"
    "loop_frame (task_ws a) (worker_ev e i) (worker_ev e2 i)"
    "\<not> engaged (worker_ev e2 i) (IoW a)" "\<not> engaged (worker_ev e2 i) (TimerW a)" by blast
  from set_ret_ok [of e2 a t "to_int v" err act_sock_done i] e(5) t(1) obtain e3 where
    e3: "set_ret a (to_int v) err act_sock_done e2 = Inr e3" "frame i a e2 e3" "worker_ev e3 = worker_ev e2"
    "tasks e3 a = Some (t\<lparr>ret_val := Some (to_int v), ret_err_code := Some err, action := act_sock_done\<rparr>)" by auto
  have "ev_sock_stop i a v err e = Inr e3"
    using e(1,2,3) e3(1) t by (simp add: ev_sock_stop_def get_task_def the_init_def split: if_splits)
  moreover have "world e3 = world e"
    using world_simps(1) [OF e(1)] world_simps(1) [of i "ev_timer_stop (TimerW a)" e1 e2] world_simps(3) [OF e3(1)] e(3)
    by (auto split: if_splits)
  ultimately show ?thesis using e3 e(6-) frame_trans [OF e(4) e3(2)] by (auto simp: completed_def resumable_def)
qed

text \<open>
  The loop of the callbacks. A transfer only moves bytes from \<open>need_io\<close> to \<open>have_io\<close>; it ends with
  the task completed, its result -1 or the bytes moved in all, or still waiting for the kernel.
  The relation \<open>D w p n w'\<close> says what a call that moves \<open>n\<close> bytes at address \<open>p\<close> does to the world.
\<close>

definition moves ::
  "('w \<Rightarrow> uptr \<Rightarrow> int \<Rightarrow> 'w \<Rightarrow> bool) \<Rightarrow> int \<Rightarrow> (int \<Rightarrow> uptr \<Rightarrow> u64 \<Rightarrow> ('w, int) syscall) \<Rightarrow> bool" where
  "moves D fd io \<longleftrightarrow>
     (\<forall>w p. D w p 0 w) \<and>
     (\<forall>w p n w1 k w2. 0 \<le> n \<and> 0 \<le> k \<and> n + k < 2 ^ 63 \<and> D w p n w1 \<and> D w1 (p + of_int n) k w2 \<longrightarrow> D w p (n + k) w2) \<and>
     (\<forall>p n en w. case io fd p n en w of (r, en', w') \<Rightarrow> r \<le> uint n \<and> r < 2 ^ 63 \<longrightarrow> D w p (max 0 r) w')"

lemma moves_any: "moves (\<lambda>_ _ _ _. True) fd io"
  by (simp add: moves_def split_beta)

definition moved :: "task \<Rightarrow> task \<Rightarrow> bool" where
  "moved t t1 \<longleftrightarrow> args t1 = args t \<and> have_io t \<le> have_io t1 \<and> 0 \<le> need_io t1 \<and>
     have_io t1 + need_io t1 = have_io t + need_io t"

definition moved_data ::
  "('w \<Rightarrow> uptr \<Rightarrow> int \<Rightarrow> 'w \<Rightarrow> bool) \<Rightarrow> uptr \<Rightarrow> 'w coroutine_env_s \<Rightarrow> task \<Rightarrow> 'w coroutine_env_s \<Rightarrow> task \<Rightarrow> bool" where
  "moved_data D b e t e1 t1 \<longleftrightarrow>
     moved t t1 \<and> D (world e) (b + of_int (have_io t)) (have_io t1 - have_io t) (world e1)"

definition sock_result :: "task \<Rightarrow> bool" where
  "sock_result t \<longleftrightarrow>
     (\<exists>v err. ret_val t = Some v \<and> ret_err_code t = Some err \<and>
        (v = to_int (have_io t) \<and> err \<in> {0, EAGAIN} \<or> v = -1) \<and>
        (need_io t = 0 \<longrightarrow> v = to_int (have_io t) \<and> err = 0))"

definition transfer ::
  "('w \<Rightarrow> uptr \<Rightarrow> int \<Rightarrow> 'w \<Rightarrow> bool) \<Rightarrow> uptr \<Rightarrow> nat \<Rightarrow> addr \<Rightarrow> 'w coroutine_env_s \<Rightarrow> task \<Rightarrow> 'w coroutine_env_s res \<Rightarrow> bool" where
  "transfer D b i a e t r \<longleftrightarrow>
     (\<exists>e1 t1. tasks e1 a = Some t1 \<and> moved_data D b e t e1 t1 \<and>
       (r = coroutine_notify_manager a e1 \<and> completed i a e e1 \<and> action t1 = act_sock_done \<and> sock_result t1 \<or>
        r = Inr e1 \<and> frame i a e e1 \<and> worker_ev e1 = worker_ev e \<and> 0 < need_io t1 \<and> action t1 = action t))"

definition sock_state :: "nat \<Rightarrow> addr \<Rightarrow> 'w coroutine_env_s \<Rightarrow> task \<Rightarrow> io_arg_s \<Rightarrow> int \<Rightarrow> bool" where
  "sock_state i a e t x ms \<longleftrightarrow>
     tasks e a = Some t \<and> args t = Io_arg x \<and> timeout_ms x = Some ms \<and> lp_inv is_timer (worker_ev e i) \<and>
     (engaged (worker_ev e i) (TimerW a) \<longrightarrow> ms \<noteq> 0) \<and> have_io t + need_io t = uint (io_count x) \<and>
     0 \<le> have_io t \<and> 0 \<le> need_io t \<and> uint (io_count x) < 2 ^ 63"

lemma moved_data_trans:
  assumes D: "moves D fd io" and m: "moved_data D b e t e1 t1" "moved_data D b e1 t1 e2 t2"
    and t: "0 \<le> have_io t" "have_io t + need_io t < 2 ^ 63"
  shows "moved_data D b e t e2 t2"
proof -
  let ?n = "have_io t1 - have_io t" and ?k = "have_io t2 - have_io t1"
  have b: "0 \<le> ?n" "0 \<le> ?k" "?n + ?k < 2 ^ 63" and mt: "moved t t2"
    using m t by (auto simp: moved_data_def moved_def)
  have "D (world e) (b + of_int (have_io t)) ?n (world e1)"
    "D (world e1) (b + of_int (have_io t) + of_int ?n) ?k (world e2)" using m by (auto simp: moved_data_def algebra_simps)
  with D b have "D (world e) (b + of_int (have_io t)) (?n + ?k) (world e2)" unfolding moves_def by blast
  with mt show ?thesis by (simp add: moved_data_def)
qed

lemma moved_data_refl: "moves D fd io \<Longrightarrow> 0 \<le> need_io t \<Longrightarrow> world e1 = world e \<Longrightarrow> moved_data D b e t e1 t"
  by (simp add: moved_data_def moves_def moved_def)

lemma transfer_step:
  assumes D: "moves D fd io" and "frame i a e e1" and "worker_ev e1 = worker_ev e" and m: "moved_data D b e t e1 t1"
    and "action t1 = action t" and t: "0 \<le> have_io t" "have_io t + need_io t < 2 ^ 63" and r: "transfer D b i a e1 t1 r"
  shows "transfer D b i a e t r"
proof -
  from r [unfolded transfer_def] obtain e2 t2 where e2: "tasks e2 a = Some t2" "moved_data D b e1 t1 e2 t2"
    "r = coroutine_notify_manager a e2 \<and> completed i a e1 e2 \<and> action t2 = act_sock_done \<and> sock_result t2 \<or>
     r = Inr e2 \<and> frame i a e1 e2 \<and> worker_ev e2 = worker_ev e1 \<and> 0 < need_io t2 \<and> action t2 = action t1" by blast
  have "completed i a e1 e2 \<Longrightarrow> completed i a e e2" using completed_trans [OF assms(2)] assms(3) by simp
  moreover have "frame i a e1 e2 \<Longrightarrow> frame i a e e2" using frame_trans [OF assms(2)] .
  ultimately show ?thesis using e2(1,3) moved_data_trans [OF D m e2(2) t] assms(3,5) unfolding transfer_def by metis
qed

lemma sock_stop_transfer:
  assumes "moves D fd io" and "sock_state i a e t x ms" and "v = have_io t \<and> err \<in> {0, EAGAIN} \<or> v = -1"
    and "need_io t = 0 \<longrightarrow> v = have_io t \<and> err = 0"
  shows "transfer D b i a e t (bind_res (ev_sock_stop i a v err e) (coroutine_notify_manager a))"
proof -
  let ?t = "t\<lparr>ret_val := Some (to_int v), ret_err_code := Some err, action := act_sock_done\<rparr>"
  from ev_sock_stop_ok [of e a t x ms i v err] assms(2) obtain e' where
    e': "ev_sock_stop i a v err e = Inr e'" "completed i a e e'" "tasks e' a = Some ?t" "world e' = world e"
    by (auto simp: sock_state_def)
  have "sock_result ?t" using assms(3,4) by (auto simp: sock_result_def to_int_def)
  moreover have "moved_data D b e t e' ?t"
    using assms(1,2) e'(4) by (auto simp: moved_data_def moved_def moves_def sock_state_def)
  ultimately show ?thesis using e'(1-3) unfolding transfer_def by (intro exI [of _ e'] exI [of _ ?t]) simp
qed

lemma sock_state_os: "sock_state i a e t x ms \<Longrightarrow> os_only e e1 \<Longrightarrow> sock_state i a e1 t x ms"
  using os_only_fields [of e e1] by (simp add: sock_state_def)

text \<open>Moving \<open>n\<close> of the bytes still to go.\<close>

lemma sock_advance:
  assumes "sock_state i a e t x ms" and "os_only e e1" and "0 \<le> n" and "n \<le> need_io t"
  shows "\<exists>e2. upd_task a (\<lambda>t. t\<lparr>have_io := have_io t + n, need_io := need_io t - n\<rparr>) e1 = Inr e2 \<and>
    frame i a e e2 \<and> worker_ev e2 = worker_ev e \<and>
    sock_state i a e2 (t\<lparr>have_io := have_io t + n, need_io := need_io t - n\<rparr>) x ms \<and>
    moved t (t\<lparr>have_io := have_io t + n, need_io := need_io t - n\<rparr>) \<and> world e2 = world e1"
proof -
  note o = os_only_fields [OF assms(2)]
  let ?f = "\<lambda>t. t\<lparr>have_io := have_io t + n, need_io := need_io t - n\<rparr>"
  have t: "tasks e1 a = Some t" using assms(1) o(1) by (simp add: sock_state_def)
  from upd_task_ok [OF this, of ?f i] obtain e2 where
    e2: "upd_task a ?f e1 = Inr e2" "frame i a e1 e2" "tasks e2 a = Some (?f t)" "worker_ev e2 = worker_ev e1" by auto
  have "world e2 = world e1" using e2(1) t by (auto simp: upd_task_def)
  moreover have "frame i a e e2" by (rule frame_trans [OF o(3) e2(2)])
  moreover have "sock_state i a e2 (?f t) x ms" "moved t (?f t)"
    using assms(1,3,4) e2(3,4) o(2) by (auto simp: sock_state_def moved_def)
  ultimately show ?thesis using e2(1,4) o(2) by auto
qed

lemma rw_bounds:
  assumes "rw_ok m io" and "sys th (io fd b n) e = (r, e')"
  shows "-1 \<le> r \<and> r \<le> uint n \<and> (r = -1 \<and> errno e' th = EINTR \<longrightarrow> m (world e') < m (world e))"
proof -
  obtain en w where r: "io fd b n (errno e th) (world e) = (r, en, w)" and "e' = e\<lparr>errno := (errno e)(th := en), world := w\<rparr>"
    using assms(2) by (auto simp: sys_def split: prod.splits)
  moreover have "-1 \<le> r \<and> r \<le> uint n \<and> (r = -1 \<and> en = EINTR \<longrightarrow> m w < m (world e))"
    using assms(1)[unfolded rw_ok_def, THEN spec [of _ fd], THEN spec [of _ b], THEN spec [of _ n],
      THEN spec [of _ "errno e th"], THEN spec [of _ "world e"]] r by simp
  ultimately show ?thesis by simp
qed

lemma moves_sys:
  assumes "moves D fd io" and "sys th (io fd p n) e = (r, e')" and "r \<le> uint n" and "r < 2 ^ 63"
  shows "D (world e) p (max 0 r) (world e')"
proof -
  obtain en w where "io fd p n (errno e th) (world e) = (r, en, w)" "world e' = w"
    using assms(2) by (auto simp: sys_def split: prod.splits)
  moreover have "case io fd p n (errno e th) (world e) of (r, en', w') \<Rightarrow> r \<le> uint n \<and> r < 2 ^ 63 \<longrightarrow> D (world e) p (max 0 r) w'"
    using assms(1) [unfolded moves_def, THEN conjunct2, THEN conjunct2, THEN spec [of _ p],
      THEN spec [of _ n], THEN spec [of _ "errno e th"], THEN spec [of _ "world e"]] .
  ultimately show ?thesis using assms(3,4) by simp
qed

lemma uint_need: "0 \<le> k \<Longrightarrow> k < 2 ^ 63 \<Longrightarrow> uint (of_int k :: u64) = k"
  by (simp add: unsigned_of_int take_bit_int_eq_self)

lemma upd_swap:
  "upd_task a (\<lambda>t. t\<lparr>need_io := need_io t - n, have_io := have_io t + n\<rparr>) e =
   upd_task a (\<lambda>t. t\<lparr>have_io := have_io t + n, need_io := need_io t - n\<rparr>) e"
proof -
  have "(\<lambda>t :: task. t\<lparr>need_io := need_io t - n, have_io := have_io t + n\<rparr>) =
      (\<lambda>t. t\<lparr>have_io := have_io t + n, need_io := need_io t - n\<rparr>)" by (rule ext) simp
  then show ?thesis by simp
qed

text \<open>Counting the bytes a call has moved; what the rest of the transfer does is added to them.\<close>

lemma sock_advance_data:
  assumes D: "moves D (io_fd x) io" and st: "sock_state i a e t x ms" and o: "os_only e e1"
    and t: "0 \<le> have_io t" "have_io t + need_io t < 2 ^ 63"
    and n: "0 < n" "n \<le> need_io t" and d: "D (world e) (io_buf x + of_int (have_io t)) n (world e1)"
  shows "\<exists>e2. upd_task a (\<lambda>t. t\<lparr>have_io := have_io t + n, need_io := need_io t - n\<rparr>) e1 = Inr e2 \<and>
    sock_state i a e2 (t\<lparr>have_io := have_io t + n, need_io := need_io t - n\<rparr>) x ms \<and>
    (\<forall>r. transfer D (io_buf x) i a e2 (t\<lparr>have_io := have_io t + n, need_io := need_io t - n\<rparr>) r \<longrightarrow> transfer D (io_buf x) i a e t r)"
proof -
  let ?t = "t\<lparr>have_io := have_io t + n, need_io := need_io t - n\<rparr>"
  from sock_advance [OF st o, of n] n obtain e2 where
    e2: "upd_task a (\<lambda>t. t\<lparr>have_io := have_io t + n, need_io := need_io t - n\<rparr>) e1 = Inr e2" "frame i a e e2"
      "worker_ev e2 = worker_ev e" "sock_state i a e2 ?t x ms" "moved t ?t" "world e2 = world e1" by auto
  have md: "moved_data D (io_buf x) e t e2 ?t" using d e2(5,6) n by (simp add: moved_data_def)
  have "transfer D (io_buf x) i a e t r" if "transfer D (io_buf x) i a e2 ?t r" for r
    by (rule transfer_step [OF D e2(2,3) md _ t that]) simp
  with e2(1,4) show ?thesis by blast
qed

lemma sock_go_ok:
  assumes io: "rw_ok m io" and D: "moves D (io_fd x) io" and "sock_state i a e t x ms" and "0 < need_io t"
  shows "\<exists>r. sock_go io i a e = Some r \<and> transfer D (io_buf x) i a e t r"
  using assms(3,4)
proof (induction "(nat (need_io t), m (world e))" arbitrary: e t
    rule: wf_induct_rule [OF wf_lex_prod [OF wf_less_than wf_less_than]])
  case 1
  let ?e0 = "e\<lparr>errno := (errno e)(Worker i := 0)\<rparr>"
  obtain n e1 where s: "sys (Worker i) (io (io_fd x) (io_buf x + of_int (have_io t)) (of_int (need_io t))) ?e0 = (n, e1)"
    by fastforce
  have o: "os_only e e1" using os_only_trans [OF _ os_only_sys [OF s]] by simp
  have t: "0 \<le> have_io t" "have_io t + need_io t < 2 ^ 63" "need_io t < 2 ^ 63" using "1.prems" by (auto simp: sock_state_def)
  have b: "-1 \<le> n" "n \<le> need_io t" "n = -1 \<Longrightarrow> errno e1 (Worker i) = EINTR \<Longrightarrow> m (world e1) < m (world e)"
    using rw_bounds [OF io s] uint_need [OF _ t(3)] "1.prems"(2) by auto
  have d: "D (world e) (io_buf x + of_int (have_io t)) (max 0 n) (world e1)"
    using moves_sys [OF D s] b(2) t(3) uint_need [OF _ t(3)] "1.prems"(2) by simp
  have gt: "bind_res (get_task a e) (\<lambda>t. bind_res (get_io_arg t) (\<lambda>arg. Inr (t, arg))) = Inr (t, x)"
    using "1.prems" by (simp add: sock_state_def get_task_def)
  note eq = sock_go.simps [of io i a e, unfolded gt sum.case prod.case s upd_swap]
  have stay: "moved_data D (io_buf x) e t e1 t" if "n \<le> 0" using d that "1.prems" by (simp add: moved_data_def moved_def)
  have step: "transfer D (io_buf x) i a e t r" if "n \<le> 0" "transfer D (io_buf x) i a e1 t r" for r
    by (rule transfer_step [OF D _ _ stay _ t(1,2) that(2)]) (use os_only_fields [OF o] that(1) in auto)
  note st1 = sock_state_os [OF "1.prems"(1) o]
  consider "n = need_io t" | "0 < n" "n < need_io t" | "n = 0" | "n = -1" "errno e1 (Worker i) = EINTR"
    | "n = -1" "errno e1 (Worker i) \<noteq> EINTR" using b(1,2) by linarith
  then show ?case
  proof cases
    case 1
    with sock_advance_data [OF D "1.prems"(1) o t(1,2), of n] d "1.prems"(2) obtain e2 where
      e2: "upd_task a (\<lambda>t. t\<lparr>have_io := have_io t + n, need_io := need_io t - n\<rparr>) e1 = Inr e2"
        "sock_state i a e2 (t\<lparr>have_io := have_io t + n, need_io := need_io t - n\<rparr>) x ms"
        "\<And>r. transfer D (io_buf x) i a e2 (t\<lparr>have_io := have_io t + n, need_io := need_io t - n\<rparr>) r \<Longrightarrow> transfer D (io_buf x) i a e t r" by auto
    from e2(3) [OF sock_stop_transfer [OF D e2(2), of "have_io t + n" 0]]
    have "transfer D (io_buf x) i a e t (bind_res (ev_sock_stop i a (have_io t + n) 0 e2) (coroutine_notify_manager a))" by simp
    with 1 e2(1) show ?thesis by (subst eq) simp
  next
    case 2
    with sock_advance_data [OF D "1.prems"(1) o t(1,2), of n] d obtain e2 where
      e2: "upd_task a (\<lambda>t. t\<lparr>have_io := have_io t + n, need_io := need_io t - n\<rparr>) e1 = Inr e2"
        "sock_state i a e2 (t\<lparr>have_io := have_io t + n, need_io := need_io t - n\<rparr>) x ms"
        "\<And>r. transfer D (io_buf x) i a e2 (t\<lparr>have_io := have_io t + n, need_io := need_io t - n\<rparr>) r \<Longrightarrow> transfer D (io_buf x) i a e t r" by auto
    from "1.hyps" [OF _ e2(2)] 2 obtain r where r: "sock_go io i a e2 = Some r"
      "transfer D (io_buf x) i a e2 (t\<lparr>have_io := have_io t + n, need_io := need_io t - n\<rparr>) r" by auto
    with 2 e2(1) e2(3) [OF r(2)] show ?thesis by (subst eq) simp
  next
    case 3
    have "transfer D (io_buf x) i a e t (bind_res (ev_sock_stop i a v err e1) (coroutine_notify_manager a))"
      if "v = have_io t \<and> err \<in> {0, EAGAIN} \<or> v = -1" for v err
      using step sock_stop_transfer [OF D st1 that] 3 "1.prems"(2) by simp
    with 3 "1.prems"(2) show ?thesis by (subst eq) (simp add: EWOULDBLOCK_def EAGAIN_def)
  next
    case 4
    from "1.hyps" [OF _ st1 "1.prems"(2)] 4 b(3) obtain r where
      r: "sock_go io i a e1 = Some r" "transfer D (io_buf x) i a e1 t r" by auto
    with 4 step [OF _ r(2)] "1.prems"(2) show ?thesis by (subst eq) simp
  next
    case 5
    have "transfer D (io_buf x) i a e t (bind_res (ev_sock_stop i a (-1) err e1) (coroutine_notify_manager a))" for err
      using step sock_stop_transfer [OF D st1, of "-1" err] 5 "1.prems"(2) by simp
    moreover have "transfer D (io_buf x) i a e t (Inr e1)"
      unfolding transfer_def using os_only_fields [OF o] "1.prems" stay 5(1)
      by (intro exI [of _ e1] exI [of _ t]) (auto simp: sock_state_def)
    ultimately show ?thesis using 5 "1.prems"(2) by (subst eq) simp
  qed
qed

text \<open>Starting the watcher of a descriptor and, when a timeout is asked for, a timer.\<close>

lemma start_both_ok:
  assumes lp: "lp_inv is_timer (worker_ev e i)" "\<not> engaged (worker_ev e i) (IoW a)" "\<not> engaged (worker_ev e i) (TimerW a)"
    and fd: "0 \<le> fd" "io_mask evs"
  shows "\<exists>e1 e2. start_io i a f fd evs e = Inr e1 \<and>
    (if ms \<noteq> 0 then start_timer i a g after e1 else Inr e1) = Inr e2 \<and>
    frame i a e e2 \<and> tasks e2 = tasks e \<and> lp_inv is_timer (worker_ev e2 i) \<and>
    loop_frame (task_ws a) (worker_ev e i) (worker_ev e2 i) \<and> IoW a \<in> watching (worker_ev e2 i) \<and>
    IoW a \<notin> errs (worker_ev e2 i) \<and> io_watch (worker_ev e2 i) a f evs \<and> timer_watch (worker_ev e2 i) a g ms"
proof -
  from start_io_ok [OF lp(1,2) fd, of f] obtain e1 where e1: "start_io i a f fd evs e = Inr e1" "frame i a e e1"
    "tasks e1 = tasks e" "lp_inv is_timer (worker_ev e1 i)" "loop_frame {IoW a} (worker_ev e i) (worker_ev e1 i)"
    "IoW a \<in> watching (worker_ev e1 i)" "IoW a \<notin> errs (worker_ev e1 i)" "io_watch (worker_ev e1 i) a f evs" by blast
  have f1: "loop_frame (task_ws a) (worker_ev e i) (worker_ev e1 i)" using loop_frame_mono [OF e1(5)] by simp
  have nt: "\<not> engaged (worker_ev e1 i) (TimerW a)" using lp(3) loop_frame_engaged [OF e1(5), of "TimerW a"] by simp
  show ?thesis
  proof (cases "ms = 0")
    case True
    with e1 f1 nt show ?thesis by (auto simp: timer_watch_def)
  next
    case False
    from start_timer_ok [OF e1(4) nt, of g after] obtain e2 where e2: "start_timer i a g after e1 = Inr e2" "frame i a e1 e2"
      "tasks e2 = tasks e1" "lp_inv is_timer (worker_ev e2 i)" "loop_frame {TimerW a} (worker_ev e1 i) (worker_ev e2 i)"
      "cb (ws (worker_ev e2 i) (TimerW a)) = g" by blast
    have "loop_frame (task_ws a) (worker_ev e i) (worker_ev e2 i)"
      using loop_frame_trans [OF f1 loop_frame_mono [OF e2(5)]] by simp
    moreover have "IoW a \<in> watching (worker_ev e2 i)" "IoW a \<notin> errs (worker_ev e2 i)" "io_watch (worker_ev e2 i) a f evs"
      using e2(5) e1(6-8) by (auto simp: loop_frame_def io_watch_def)
    ultimately show ?thesis using False e1 e2 frame_trans [OF e1(2) e2(2)] by (auto simp: timer_watch_def)
  qed
qed

lemma do_sock_io_ok:
  assumes h: "in_hand NB i a e t"
    and act: "(action t, f, evs) \<in> {(act_sock_read, Cb_ev_sock_read, EV_READ), (act_sock_write, Cb_ev_sock_write, EV_WRITE)}"
  shows "\<exists>e'. do_sock_io f evs i a e = Inr e' \<and> parked NB i a e e'"
proof -
  have "sock_request NB t" using h act by (auto simp: in_hand_def request_ok_def)
  then obtain x ms where x: "args t = Io_arg x" "timeout_ms x = Some ms" "0 \<le> io_fd x" "io_fd x \<in> NB"
    "uint (io_count x) < 2 ^ 63" by (auto simp: sock_request_def)
  have m: "io_mask evs" using act by (auto simp: io_mask_def)
  have h': "tasks e a = Some t" "lp_inv is_timer (worker_ev e i)" "\<not> engaged (worker_ev e i) (IoW a)"
    "\<not> engaged (worker_ev e i) (TimerW a)" using h by (auto simp: in_hand_def)
  from start_both_ok [OF h'(2-4) x(3) m, of f ms Cb_ev_sock_timeout "real_of_int ms / 1000"] obtain e1 e2 where
    e: "start_io i a f (io_fd x) evs e = Inr e1"
      "(if ms \<noteq> 0 then start_timer i a Cb_ev_sock_timeout (real_of_int ms / 1000) e1 else Inr e1) = Inr e2"
      "frame i a e e2" "tasks e2 = tasks e" "lp_inv is_timer (worker_ev e2 i)"
      "loop_frame (task_ws a) (worker_ev e i) (worker_ev e2 i)" "IoW a \<in> watching (worker_ev e2 i)"
      "io_watch (worker_ev e2 i) a f evs" "timer_watch (worker_ev e2 i) a Cb_ev_sock_timeout ms" by blast
  let ?f = "\<lambda>t. t\<lparr>have_io := 0, need_io := to_ssize (uint (io_count x))\<rparr>"
  from upd_task_ok [of e2 a t ?f i] e(4) h'(1) obtain e3 where e3: "upd_task a ?f e2 = Inr e3" "frame i a e2 e3"
    "tasks e3 a = Some (?f t)" "worker_ev e3 = worker_ev e2" by auto
  have "to_ssize (uint (io_count x)) = uint (io_count x)" using x(5) by (intro to_ssize_id) (auto intro: order_trans [of _ 0])
  then have "sock_parked NB (worker_ev e2 i) a (?f t) f evs" using x e(8,9) by (auto simp: sock_parked_def)
  then have "parked_ok NB (worker_ev e2 i) a (?f t)"
    using act e(7) by (auto simp: parked_ok_def parked_conf_def engaged_def)
  moreover have "do_sock_io f evs i a e = Inr e3"
    using e(1,2) e3(1) x h'(1) by (simp add: do_sock_io_def get_task_def the_init_def)
  ultimately show ?thesis using e3 e(5,6) frame_trans [OF e(3) e3(2)] by (auto simp: parked_def)
qed

section \<open>Callbacks\<close>

text \<open>A task whose watcher's callback has been called.\<close>

definition called :: "int set \<Rightarrow> nat \<Rightarrow> addr \<Rightarrow> 'w coroutine_env_s \<Rightarrow> task \<Rightarrow> bool" where
  "called NB i a e t \<longleftrightarrow> tasks e a = Some t \<and> lp_inv is_timer (worker_ev e i) \<and> parked_conf NB (worker_ev e i) a t"

lemma completed_handled: "completed i a e e1 \<Longrightarrow> handled NB i a e (coroutine_notify_manager a e1)"
  by (auto simp: handled_def)

lemma transfer_handled:
  assumes t: "transfer D b i a e t r" and c: "called NB i a e t" and w: "IoW a \<in> watching (worker_ev e i)"
    and act: "action t \<in> {act_sock_read, act_sock_write}"
  shows "handled NB i a e r"
  using t [unfolded transfer_def]
proof (elim disjE exE conjE)
  fix e1 t1
  assume r: "r = Inr e1" "frame i a e e1" "worker_ev e1 = worker_ev e" "tasks e1 a = Some t1" "moved_data D b e t e1 t1"
    "0 < need_io t1" "action t1 = action t"
  have "parked_conf NB (worker_ev e1 i) a t1"
    using c act r(3,5-7) by (auto simp: called_def parked_conf_def sock_parked_def moved_data_def moved_def)
  then have "parked_ok NB (worker_ev e1 i) a t1"
    using act r(3,7) w by (auto simp: parked_ok_def engaged_def)
  with r c show ?thesis by (auto simp: handled_def parked_def called_def)
qed (auto simp: handled_def)

lemma called_sock_state:
  assumes "called NB i a e t" and "action t \<in> {act_sock_read, act_sock_write}"
  obtains x ms where "sock_state i a e t x ms" "io_fd x \<in> NB"
proof -
  from assms obtain f evs where "sock_parked NB (worker_ev e i) a t f evs"
    by (auto simp: called_def parked_conf_def)
  then obtain x ms where "sock_state i a e t x ms" "io_fd x \<in> NB"
    using assms(1) by (auto simp: sock_state_def sock_parked_def timer_watch_def called_def)
  then show ?thesis by (rule that)
qed

lemma sock_stop_handled:
  assumes "sock_state i a e t x ms" and "os_only e e1"
  shows "handled NB i a e (bind_res (ev_sock_stop i a v err e1) (coroutine_notify_manager a))"
proof -
  from ev_sock_stop_ok [of e1 a t x ms i v err] sock_state_os [OF assms] obtain e' where
    e': "ev_sock_stop i a v err e1 = Inr e'" "completed i a e1 e'" by (auto simp: sock_state_def)
  have "completed i a e e'"
    using completed_trans [OF os_only_fields(3) [OF assms(2)] _ e'(2)] os_only_fields(2) [OF assms(2)] by simp
  with e'(1) show ?thesis by (simp add: completed_handled)
qed

text \<open>The callback of a socket transfer, called for the event its watcher asked for.\<close>

lemma sock_event_transfer:
  assumes P: "posix_ok m NB P" and io: "rw_ok m io" and D: "moves D (io_fd x) io" and fl: "\<And>w p fd en. D w p 0 (snd (snd (sys_getfl P fd en w)))"
    and st: "sock_state i a e t x ms" "io_fd x \<in> NB" and act: "action t = act" and ev: "event AND want \<noteq> 0" "event AND EV_ERROR = 0"
  shows "\<exists>r. sock_event want act io P i a event e = Some r \<and> transfer D (io_buf x) i a e t r"
proof -
  obtain fl e1 where s: "sys (Worker i) (sys_getfl P (io_fd x)) e = (fl, e1)" by fastforce
  have nb: "fl AND O_NONBLOCK \<noteq> 0"
    using P st(2) s by (auto simp: posix_ok_def sys_def split: prod.splits) (metis fst_conv)
  have o: "os_only e e1" by (rule os_only_sys [OF s])
  have eq: "sock_event want act io P i a event e =
      (if need_io t = 0 then Some (bind_res (ev_sock_stop i a (have_io t) 0 e1) (coroutine_notify_manager a))
       else sock_go io i a e1)"
    using ev st s nb act by (auto simp: sock_event_def sock_state_def get_task_def)
  note st1 = sock_state_os [OF st(1) o]
  have "\<exists>r. sock_event want act io P i a event e = Some r \<and> transfer D (io_buf x) i a e1 t r"
  proof (cases "need_io t = 0")
    case True
    with eq sock_stop_transfer [OF D st1, of "have_io t" 0] show ?thesis by simp
  next
    case False
    then have "0 < need_io t" using st by (simp add: sock_state_def)
    from sock_go_ok [OF io D st1 this] eq False show ?thesis by simp
  qed
  then obtain r where r: "sock_event want act io P i a event e = Some r" "transfer D (io_buf x) i a e1 t r" by blast
  have "D (world e) (io_buf x + of_int (have_io t)) 0 (world e1)"
    using fl [of "world e"] s by (auto simp: sys_def split: prod.splits) (metis snd_conv)
  then have "moved_data D (io_buf x) e t e1 t" using st by (simp add: moved_data_def moved_def sock_state_def)
  from transfer_step [OF D _ _ this _ _ _ r(2)] os_only_fields [OF o] st r(1) show ?thesis by (simp add: sock_state_def)
qed

lemma sock_event_ok:
  assumes P: "posix_ok m NB P" and io: "rw_ok m io" and c: "called NB i a e t" and act: "action t = act"
    and acts: "act \<in> {act_sock_read, act_sock_write}"
    and ev: "event AND want \<noteq> 0 \<or> event AND EV_ERROR \<noteq> 0"
    and w: "event AND EV_ERROR = 0 \<Longrightarrow> IoW a \<in> watching (worker_ev e i)"
  shows "\<exists>r. sock_event want act io P i a event e = Some r \<and> handled NB i a e r"
proof -
  from called_sock_state [OF c] act acts obtain x ms where st: "sock_state i a e t x ms" and nb: "io_fd x \<in> NB" by blast
  show ?thesis
  proof (cases "event AND EV_ERROR = 0")
    case False
    with ev sock_stop_handled [OF st os_only_refl] show ?thesis by (auto simp: sock_event_def)
  next
    case True
    with ev have "event AND want \<noteq> 0" by simp
    from sock_event_transfer [OF P io moves_any _ st nb act this True] obtain r where
      "sock_event want act io P i a event e = Some r" "transfer (\<lambda>_ _ _ _. True) (io_buf x) i a e t r" by blast
    with transfer_handled [OF _ c w] True act acts show ?thesis by blast
  qed
qed

lemma ev_sock_timeout_ok:
  assumes c: "called NB i a e t" and act: "action t \<in> {act_sock_read, act_sock_write}"
  shows "handled NB i a e (ev_sock_timeout i a EV_TIMER e)"
proof -
  from called_sock_state [OF c act] obtain x ms where st: "sock_state i a e t x ms" by blast
  then have "get_task a e = Inr t" by (simp add: sock_state_def get_task_def)
  with sock_stop_handled [OF st os_only_refl] show ?thesis by (simp add: ev_sock_timeout_def ev_consts)
qed

lemma called_connect:
  assumes "called NB i a e t" and "action t = act_tcp_timeout_connect"
  obtains x fd where "args t = Connect_arg x" "c_fd x = Some fd"
    "engaged (worker_ev e i) (TimerW a) \<Longrightarrow> c_timeout_ms x \<noteq> 0"
  using assms by (auto simp: called_def parked_conf_def timer_watch_def)

lemma connect_stop_result:
  assumes t: "tasks e a = Some t" "args t = Connect_arg x" and lp: "lp_inv is_timer (worker_ev e i)"
    and tm: "engaged (worker_ev e i) (TimerW a) \<Longrightarrow> c_timeout_ms x \<noteq> 0"
  shows "\<exists>e'. ev_sock_connect_stop i a v err e = coroutine_notify_manager a e' \<and> completed i a e e' \<and> world e' = world e \<and>
    tasks e' a = Some (t\<lparr>ret_val := Some v, ret_err_code := Some err, action := act_tcp_timeout_connect_done\<rparr>)"
proof -
  from stop_both_ok [OF lp tm] obtain e2 e3 where e: "on_loop i (ev_io_stop (IoW a)) e = Inr e2" "tasks e2 = tasks e"
    "(if c_timeout_ms x \<noteq> 0 then on_loop i (ev_timer_stop (TimerW a)) e2 else Inr e2) = Inr e3"
    "frame i a e e3" "tasks e3 = tasks e" "lp_inv is_timer (worker_ev e3 i)"
    "loop_frame (task_ws a) (worker_ev e i) (worker_ev e3 i)"
    "\<not> engaged (worker_ev e3 i) (IoW a)" "\<not> engaged (worker_ev e3 i) (TimerW a)" by blast
  from set_ret_ok [of e3 a t v err act_tcp_timeout_connect_done i] e(5) t(1) obtain e4 where
    e4: "set_ret a v err act_tcp_timeout_connect_done e3 = Inr e4" "frame i a e3 e4" "worker_ev e4 = worker_ev e3"
    "tasks e4 a = Some (t\<lparr>ret_val := Some v, ret_err_code := Some err, action := act_tcp_timeout_connect_done\<rparr>)" by auto
  have "ev_sock_connect_stop i a v err e = coroutine_notify_manager a e4"
    using e(1,2,3) e4(1) t by (simp add: ev_sock_connect_stop_def get_task_def split: if_splits)
  moreover have "completed i a e e4"
    using e4 e(6-) frame_trans [OF e(4) e4(2)] by (auto simp: completed_def resumable_def)
  moreover have "world e4 = world e"
    using world_simps(1) [OF e(1)] world_simps(1) [of i "ev_timer_stop (TimerW a)" e2 e3] world_simps(3) [OF e4(1)] e(3)
    by (auto split: if_splits)
  ultimately show ?thesis using e4(4) by auto
qed

lemma ev_sock_connect_stop_ok:
  assumes t: "tasks e1 a = Some t" "args t = Connect_arg x" and lp: "lp_inv is_timer (worker_ev e1 i)"
    and tm: "engaged (worker_ev e1 i) (TimerW a) \<Longrightarrow> c_timeout_ms x \<noteq> 0"
    and fr: "frame i a e e1" "worker_ev e1 = worker_ev e"
  shows "handled NB i a e (ev_sock_connect_stop i a v err e1)"
proof -
  from connect_stop_result [OF t lp tm] obtain e4 where
    "ev_sock_connect_stop i a v err e1 = coroutine_notify_manager a e4" "completed i a e1 e4" by blast
  with completed_trans [OF fr(1)] fr(2) show ?thesis by (simp add: completed_handled)
qed

lemma ev_sock_connect_timeout_ok:
  assumes c: "called NB i a e t" and act: "action t = act_tcp_timeout_connect"
  shows "handled NB i a e (ev_sock_connect_timeout i a EV_TIMER e)"
proof -
  from called_connect [OF assms] obtain x fd where x: "args t = Connect_arg x" "c_fd x = Some fd"
    "engaged (worker_ev e i) (TimerW a) \<Longrightarrow> c_timeout_ms x \<noteq> 0" by blast
  from c ev_sock_connect_stop_ok [of e a t x i e, OF _ x(1) _ x(3)] show ?thesis
    by (auto simp: ev_sock_connect_timeout_def ev_consts called_def)
qed

lemma ev_sock_connect_ok:
  assumes c: "called NB i a e t" and act: "action t = act_tcp_timeout_connect"
    and ev: "event AND EV_READ \<noteq> 0 \<or> event AND EV_WRITE \<noteq> 0 \<or> event AND EV_ERROR \<noteq> 0"
  shows "handled NB i a e (ev_sock_connect P i a event e)"
proof -
  from called_connect [OF c act] obtain x fd where x: "args t = Connect_arg x" "c_fd x = Some fd"
    "engaged (worker_ev e i) (TimerW a) \<Longrightarrow> c_timeout_ms x \<noteq> 0" by blast
  have t: "tasks e a = Some t" and lp: "lp_inv is_timer (worker_ev e i)" using c by (auto simp: called_def)
  have stop: "handled NB i a e (ev_sock_connect_stop i a v err e1)"
    if "frame i a e e1" "worker_ev e1 = worker_ev e" "tasks e1 a = Some t1" "args t1 = args t" for e1 t1 v err
    using ev_sock_connect_stop_ok [OF that(3) _ _ _ that(1,2)] x(1,3) lp that(2,4) by auto
  have stop_os: "handled NB i a e (ev_sock_connect_stop i a v err e2)"
    if "frame i a e e1" "worker_ev e1 = worker_ev e" "tasks e1 a = Some t1" "args t1 = args t" "os_only e1 e2" for e1 e2 t1 v err
    using stop [of e2 t1] that os_only_fields [OF that(5)] frame_trans by metis
  let ?f = "\<lambda>t. t\<lparr>action := act_tcp_timeout_connect\<rparr>"
  from upd_task_ok [OF t, of ?f i] obtain e1 where
    e1: "upd_task a ?f e = Inr e1" "frame i a e e1" "tasks e1 a = Some (?f t)" "worker_ev e1 = worker_ev e" by auto
  obtain c0 f0 where c0: "sys (Worker i) (sys_close P fd) e = (c0, f0)" by fastforce
  obtain r so e2 where s: "sys (Worker i) (sys_so_error P fd) e1 = ((r, so), e2)"
    by (metis prod.collapse)
  obtain c2 f2 where c2: "sys (Worker i) (sys_close P fd) e2 = (c2, f2)" by fastforce
  have o: "os_only e f0" "os_only e1 e2" "os_only e1 f2"
    using c0 s c2 by (blast intro: os_only_sys os_only_trans)+
  have "handled NB i a e (ev_sock_connect_stop i a v err f0)" for v err
    by (rule stop_os [OF frame_refl _ t _ o(1)]) simp_all
  moreover have "handled NB i a e (ev_sock_connect_stop i a v err e2)" "handled NB i a e (ev_sock_connect_stop i a v err f2)" for v err
    by (rule stop_os [OF e1(2,4,3) _ o(2)], simp) (rule stop_os [OF e1(2,4,3) _ o(3)], simp)
  ultimately show ?thesis
    using ev t x(1,2) e1(1) c0 s c2 by (auto simp: ev_sock_connect_def get_task_def the_init_def Let_def)
qed

lemma connect_done_handled:
  assumes h: "in_hand NB i a e t" and o: "os_only e e1"
  shows "handled NB i a e (bind_res (upd_task a (\<lambda>t. t\<lparr>ret_val := Some v, ret_err_code := Some err\<rparr>) e1) (connect_done a))"
    and "handled NB i a e (bind_res (set_ret a v err act_tcp_timeout_connect_done e1) (connect_done a))"
proof -
  have r: "resumable act_tcp_timeout_connect_done" by (simp add: resumable_def)
  from two_step_completed [OF h o r, where v = v and err = err] obtain e2
    where e2: "upd_task a (\<lambda>t. t\<lparr>ret_val := Some v, ret_err_code := Some err\<rparr>) e1 = Inr e2"
      "\<exists>e4. upd_task a (\<lambda>t. t\<lparr>action := act_tcp_timeout_connect_done\<rparr>) e2 = Inr e4 \<and> completed i a e e4"
    using os_only_refl by blast
  then show "handled NB i a e (bind_res (upd_task a (\<lambda>t. t\<lparr>ret_val := Some v, ret_err_code := Some err\<rparr>) e1) (connect_done a))"
    by (auto simp: connect_done_def completed_handled)
  from set_ret_completed [OF h o r, of v err] obtain e3 where e3: "set_ret a v err act_tcp_timeout_connect_done e1 = Inr e3"
    "completed i a e e3" "tasks e3 a = Some (t\<lparr>ret_val := Some v, ret_err_code := Some err, action := act_tcp_timeout_connect_done\<rparr>)"
    by blast
  then have "upd_task a (\<lambda>t. t\<lparr>action := act_tcp_timeout_connect_done\<rparr>) e3 = Inr e3"
    by (simp add: upd_task_def fun_upd_idem)
  with e3 show "handled NB i a e (bind_res (set_ret a v err act_tcp_timeout_connect_done e1) (connect_done a))"
    by (simp add: connect_done_def completed_handled)
qed

text \<open>The connection goes on in the background.\<close>

lemma connect_parked:
  assumes h: "in_hand NB i a e t" and o: "os_only e e1" and t: "args t = Connect_arg x" "action t = act_tcp_timeout_connect"
    and fd: "0 \<le> fd"
  shows "handled NB i a e
    (bind_res (upd_task a (\<lambda>t. t\<lparr>args := Connect_arg (x\<lparr>c_fd := Some fd\<rparr>)\<rparr>) e1) (\<lambda>e5.
     bind_res (start_io i a Cb_ev_sock_connect fd (EV_READ OR EV_WRITE) e5) (\<lambda>e6.
       if c_timeout_ms x \<noteq> 0 then start_timer i a Cb_ev_sock_connect_timeout (real_of_int (c_timeout_ms x) / 1000) e6
       else Inr e6)))"
proof -
  note f = os_only_fields [OF o]
  let ?f = "\<lambda>t. t\<lparr>args := Connect_arg (x\<lparr>c_fd := Some fd\<rparr>)\<rparr>"
  have "tasks e1 a = Some t" using h f(1) by (simp add: in_hand_def)
  from upd_task_ok [OF this, of ?f i] obtain e5 where
    e5: "upd_task a ?f e1 = Inr e5" "frame i a e1 e5" "tasks e5 a = Some (?f t)" "worker_ev e5 = worker_ev e1" by auto
  have lp: "lp_inv is_timer (worker_ev e5 i)" "\<not> engaged (worker_ev e5 i) (IoW a)" "\<not> engaged (worker_ev e5 i) (TimerW a)"
    using h f(2) e5(4) by (auto simp: in_hand_def)
  have m: "io_mask (EV_READ OR EV_WRITE)" by (simp add: io_mask_def)
  from start_both_ok [OF lp fd m, of Cb_ev_sock_connect "c_timeout_ms x" Cb_ev_sock_connect_timeout
      "real_of_int (c_timeout_ms x) / 1000"] obtain e6 e7 where
    e: "start_io i a Cb_ev_sock_connect fd (EV_READ OR EV_WRITE) e5 = Inr e6"
      "(if c_timeout_ms x \<noteq> 0 then start_timer i a Cb_ev_sock_connect_timeout (real_of_int (c_timeout_ms x) / 1000) e6
        else Inr e6) = Inr e7"
      "frame i a e5 e7" "tasks e7 = tasks e5" "lp_inv is_timer (worker_ev e7 i)"
      "loop_frame (task_ws a) (worker_ev e5 i) (worker_ev e7 i)" "IoW a \<in> watching (worker_ev e7 i)"
      "io_watch (worker_ev e7 i) a Cb_ev_sock_connect (EV_READ OR EV_WRITE)"
      "timer_watch (worker_ev e7 i) a Cb_ev_sock_connect_timeout (c_timeout_ms x)" by blast
  have "parked_ok NB (worker_ev e7 i) a (?f t)"
    using t e(7-9) by (auto simp: parked_ok_def parked_conf_def engaged_def)
  moreover have "frame i a e e7" using frame_trans f(3) e5(2) e(3) by blast
  ultimately have "parked NB i a e e7" using e e5(3,4) f(2) by (auto simp: parked_def)
  with e(1,2) e5(1) show ?thesis by (auto simp: handled_def)
qed

lemma do_tcp_timeout_connect_ok:
  assumes h: "in_hand NB i a e t" and act: "action t = act_tcp_timeout_connect" and P: "posix_ok m NB P"
  shows "handled NB i a e (do_tcp_timeout_connect P i a e)"
proof -
  from assms obtain x where x: "args t = Connect_arg x" by (auto simp: in_hand_def request_ok_def)
  obtain fd e1 where s1: "sys (Worker i) (sys_socket P) e = (fd, e1)" by fastforce
  obtain r2 e2 where s2: "sys (Worker i) (sys_reuseaddr P fd) e1 = (r2, e2)" by fastforce
  obtain q e3 where s3: "crt_set_nonblock P (Worker i) fd e2 = (q, e3)" by fastforce
  obtain r4 e4 where s4: "sys (Worker i) (sys_connect P fd (c_ip x) (c_port x)) e3 = (r4, e4)" by fastforce
  obtain c2 f2 where c2: "sys (Worker i) (sys_close P fd) e2 = (c2, f2)" by fastforce
  obtain c4 f4 where c4: "sys (Worker i) (sys_close P fd) e4 = (c4, f4)" by fastforce
  note o1 = os_only_sys [OF s1]
  note o2 = os_only_trans [OF o1 os_only_sys [OF s2]]
  note o4 = os_only_trans [OF os_only_trans [OF o2 os_only_nonblock [OF s3]] os_only_sys [OF s4]]
  note o = o1 o2 o4 os_only_trans [OF o2 os_only_sys [OF c2]] os_only_trans [OF o4 os_only_sys [OF c4]]
  have r4: "r4 \<le> 0" using P s4 by (auto simp: posix_ok_def sys_def split: prod.splits) (metis fst_conv)
  note eq = do_tcp_timeout_connect_def s1 s2 s3 s4 c2 c4 x get_task_in_hand [OF h]
  consider "fd < 0" | "fd \<ge> 0" "r2 < 0" | "fd \<ge> 0" "r2 \<ge> 0" "r4 < 0" "errno e4 (Worker i) \<noteq> EINPROGRESS"
    | "fd \<ge> 0" "r2 \<ge> 0" "r4 = 0" | "fd \<ge> 0" "r2 \<ge> 0" "r4 < 0" "errno e4 (Worker i) = EINPROGRESS"
    using r4 by linarith
  then show ?thesis
  proof cases
    case 1
    with connect_done_handled(2) [OF h o(1)] show ?thesis by (simp add: eq Let_def)
  next
    case 2
    with connect_done_handled(2) [OF h o(4)] show ?thesis by (simp add: eq Let_def)
  next
    case 3
    with connect_done_handled(1) [OF h o(5)] show ?thesis by (simp add: eq Let_def)
  next
    case 4
    with connect_done_handled(1) [OF h o(3)] show ?thesis by (simp add: eq Let_def)
  next
    case 5
    with connect_parked [OF h o(3) x act 5(1)] show ?thesis by (simp add: eq Let_def)
  qed
qed

lemma timer_timeout_ok:
  assumes c: "called NB i a e t" and act: "action t = act_msleep"
  shows "handled NB i a e (timer_timeout i a EV_TIMER e)"
proof -
  have t: "tasks e a = Some t" and lp: "lp_inv is_timer (worker_ev e i)" and n: "\<not> engaged (worker_ev e i) (IoW a)"
    using assms by (auto simp: called_def parked_conf_def)
  from stop_timer_ok [OF lp, of a] obtain e1 where e1: "on_loop i (ev_timer_stop (TimerW a)) e = Inr e1"
    "frame i a e e1" "tasks e1 = tasks e" "lp_inv is_timer (worker_ev e1 i)"
    "loop_frame {TimerW a} (worker_ev e i) (worker_ev e1 i)" "\<not> engaged (worker_ev e1 i) (TimerW a)" by blast
  from set_ret_ok [of e1 a t 0 0 act_msleep_done i] e1(3) t obtain e2 where
    e2: "set_ret a 0 0 act_msleep_done e1 = Inr e2" "frame i a e1 e2" "worker_ev e2 = worker_ev e1"
    "tasks e2 a = Some (t\<lparr>ret_val := Some 0, ret_err_code := Some 0, action := act_msleep_done\<rparr>)" by auto
  have "loop_frame (task_ws a) (worker_ev e i) (worker_ev e1 i)" using loop_frame_mono [OF e1(5)] by simp
  moreover have "\<not> engaged (worker_ev e1 i) (IoW a)" using n loop_frame_engaged [OF e1(5), of "IoW a"] by simp
  ultimately have "completed i a e e2"
    using e1(4,6) e2 frame_trans [OF e1(2) e2(2)] by (auto simp: completed_def resumable_def)
  with e1(1) e2(1) show ?thesis by (simp add: timer_timeout_def completed_handled)
qed

lemma do_msleep_ok:
  assumes h: "in_hand NB i a e t" and act: "action t = act_msleep"
  shows "\<exists>e'. do_msleep i a e = Inr e' \<and> parked NB i a e e'"
proof -
  from assms obtain x where x: "args t = General_arg x" by (auto simp: in_hand_def request_ok_def)
  have h': "tasks e a = Some t" "lp_inv is_timer (worker_ev e i)" "\<not> engaged (worker_ev e i) (IoW a)"
    "\<not> engaged (worker_ev e i) (TimerW a)" using h by (auto simp: in_hand_def)
  from start_timer_ok [OF h'(2,4), of Cb_timer_timeout "real_of_int (uint (g_u64 x)) / 1000"] obtain e' where
    e': "start_timer i a Cb_timer_timeout (real_of_int (uint (g_u64 x)) / 1000) e = Inr e'" "frame i a e e'"
      "tasks e' = tasks e" "lp_inv is_timer (worker_ev e' i)" "loop_frame {TimerW a} (worker_ev e i) (worker_ev e' i)"
      "TimerW a \<in> watching (worker_ev e' i)" "cb (ws (worker_ev e' i) (TimerW a)) = Cb_timer_timeout" by blast
  have "parked_ok NB (worker_ev e' i) a t"
    using act e'(6,7) h'(3) loop_frame_engaged [OF e'(5), of "IoW a"]
    by (auto simp: parked_ok_def parked_conf_def engaged_def)
  moreover have "loop_frame (task_ws a) (worker_ev e i) (worker_ev e' i)" using loop_frame_mono [OF e'(5)] by simp
  ultimately have "parked NB i a e e'" using e' h'(1) by (auto simp: parked_def)
  with e'(1) x h'(1) show ?thesis by (simp add: do_msleep_def get_task_def)
qed

lemma do_tcp_accept_ok:
  assumes h: "in_hand NB i a e t" and act: "action t = act_tcp_accept"
  shows "\<exists>e'. do_tcp_accept i a e = Inr e' \<and> parked NB i a e e'"
proof -
  from assms obtain x where x: "args t = Tcp_accept_arg x" "0 \<le> sockfd x" by (auto simp: in_hand_def request_ok_def)
  have h': "tasks e a = Some t" "lp_inv is_timer (worker_ev e i)" "\<not> engaged (worker_ev e i) (IoW a)"
    "\<not> engaged (worker_ev e i) (TimerW a)" using h by (auto simp: in_hand_def)
  have m: "io_mask EV_READ" by (simp add: io_mask_def)
  from start_io_ok [OF h'(2,3) x(2) m, of Cb_ev_tcp_accept] obtain e' where
    e': "start_io i a Cb_ev_tcp_accept (sockfd x) EV_READ e = Inr e'" "frame i a e e'" "tasks e' = tasks e"
      "lp_inv is_timer (worker_ev e' i)" "loop_frame {IoW a} (worker_ev e i) (worker_ev e' i)"
      "IoW a \<in> watching (worker_ev e' i)" "IoW a \<notin> errs (worker_ev e' i)" "io_watch (worker_ev e' i) a Cb_ev_tcp_accept EV_READ"
    by blast
  have "parked_ok NB (worker_ev e' i) a t"
    using act x(1) e'(6-8) h'(4) loop_frame_engaged [OF e'(5), of "TimerW a"]
    by (auto simp: parked_ok_def parked_conf_def engaged_def)
  moreover have "loop_frame (task_ws a) (worker_ev e i) (worker_ev e' i)" using loop_frame_mono [OF e'(5)] by simp
  ultimately have "parked NB i a e e'" using e' h'(1) by (auto simp: parked_def)
  with e'(1) x h'(1) act show ?thesis by (simp add: do_tcp_accept_def get_task_def)
qed

lemma ev_tcp_accept_ok:
  assumes P: "posix_ok m NB P" and c: "called NB i a e t" and act: "action t = act_tcp_accept"
    and ev: "event AND EV_READ \<noteq> 0" "event AND EV_ERROR = 0"
  shows "handled NB i a e (ev_tcp_accept P i a event e)"
proof -
  from c act obtain x where x: "args t = Tcp_accept_arg x" and n: "\<not> engaged (worker_ev e i) (TimerW a)"
    by (auto simp: called_def parked_conf_def)
  have t: "tasks e a = Some t" and lp: "lp_inv is_timer (worker_ev e i)" using c by (auto simp: called_def)
  obtain fd e1 where s: "sys (Worker i) (sys_accept P (sockfd x) (a_addr x) (a_addrlen x)) e = (fd, e1)" by fastforce
  have fd: "-1 \<le> fd" using P s by (auto simp: posix_ok_def sys_def split: prod.splits) (metis fst_conv)
  note o = os_only_fields [OF os_only_sys [OF s]]
  have lp1: "lp_inv is_timer (worker_ev e1 i)" using lp o(2) by simp
  from stop_io_ok [OF lp1, of a] obtain e2 where e2: "on_loop i (ev_io_stop (IoW a)) e1 = Inr e2" "frame i a e1 e2"
    "tasks e2 = tasks e1" "lp_inv is_timer (worker_ev e2 i)" "loop_frame {IoW a} (worker_ev e1 i) (worker_ev e2 i)"
    "\<not> engaged (worker_ev e2 i) (IoW a)" by blast
  let ?f = "\<lambda>t. t\<lparr>action := act_tcp_accept_done, ret_val := Some fd\<rparr>"
  from upd_task_ok [of e2 a t ?f i] e2(3) o(1) t obtain e3 where
    e3: "upd_task a ?f e2 = Inr e3" "frame i a e2 e3" "tasks e3 a = Some (?f t)" "worker_ev e3 = worker_ev e2" by auto
  have fr: "frame i a e e3" using frame_trans o(3) e2(2) e3(2) by blast
  have lf: "loop_frame (task_ws a) (worker_ev e i) (worker_ev e3 i)"
    using loop_frame_mono [OF e2(5), of "task_ws a"] o(2) e3(4) by simp
  have nt: "\<not> engaged (worker_ev e3 i) (TimerW a)"
    using n o(2) e3(4) loop_frame_engaged [OF e2(5), of "TimerW a"] by simp
  have fin: "\<exists>e5. upd_task a (\<lambda>t. t\<lparr>ret_err_code := Some err\<rparr>) e4 = Inr e5 \<and> completed i a e e5"
    if "os_only e3 e4" for e4 err
  proof -
    note o4 = os_only_fields [OF that]
    from upd_task_ok [of e4 a "?f t" "\<lambda>t. t\<lparr>ret_err_code := Some err\<rparr>" i] e3(3) o4(1) obtain e5 where
      e5: "upd_task a (\<lambda>t. t\<lparr>ret_err_code := Some err\<rparr>) e4 = Inr e5" "frame i a e4 e5"
        "tasks e5 a = Some (t\<lparr>action := act_tcp_accept_done, ret_val := Some fd, ret_err_code := Some err\<rparr>)"
        "worker_ev e5 = worker_ev e4" by auto
    have "frame i a e e5" using frame_trans fr o4(3) e5(2) by blast
    then have "completed i a e e5"
      using e5 lf nt e2(4,6) e3(4) o4(2) by (auto simp: completed_def resumable_def)
    with e5(1) show ?thesis by blast
  qed
  obtain q e4 where q: "crt_set_nonblock P (Worker i) fd e3 = (q, e4)" by fastforce
  from fin [OF os_only_refl, of "errno e3 (Worker i)"] fin [OF os_only_nonblock [OF q], of 0] show ?thesis
    using ev t x act s e2(1) e3(1) q fd
    by (auto simp: ev_tcp_accept_def get_task_def completed_handled Let_def)
qed

section \<open>Dispatch\<close>

text \<open>Running a request never faults, and completes or parks its task.\<close>

lemma event_run_ok:
  assumes P: "posix_ok m NB P" and h: "in_hand NB i a e t"
  shows "handled NB i a e (event_run P i a e)"
proof -
  note g = get_task_in_hand [OF h]
  have r: "request_ok NB t" using h by (simp add: in_hand_def)
  consider "action t = act_disk_open" | "action t = act_disk_read" | "action t = act_disk_write"
    | "action t = act_sock_read" | "action t = act_sock_write" | "action t = act_tcp_blocked_connect"
    | "action t = act_tcp_timeout_connect" | "action t = act_msleep" | "action t = act_bg_run" | "action t = act_tcp_accept"
    using r by (cases "action t") (auto simp: request_ok_def)
  then show ?thesis
  proof cases
    case 1
    with do_disk_open_ok [OF h 1, of P] g show ?thesis by (auto simp: event_run_def do_task_def completed_handled)
  next
    case 2
    with do_disk_read_ok [OF h 2, of P] g show ?thesis by (auto simp: event_run_def do_task_def completed_handled)
  next
    case 3
    with do_disk_write_ok [OF h 3, of P] g show ?thesis by (auto simp: event_run_def do_task_def completed_handled)
  next
    case 4
    with do_sock_io_ok [OF h, of Cb_ev_sock_read EV_READ] g show ?thesis
      by (auto simp: event_run_def do_task_def do_sock_read_def handled_def)
  next
    case 5
    with do_sock_io_ok [OF h, of Cb_ev_sock_write EV_WRITE] g show ?thesis
      by (auto simp: event_run_def do_task_def do_sock_write_def handled_def)
  next
    case 6
    with do_tcp_blocked_connect_ok [OF h 6, of P] g show ?thesis
      by (auto simp: event_run_def do_task_def completed_handled)
  next
    case 7
    have "event_run P i a e = do_tcp_timeout_connect P i a e"
      using 7 g by (cases "do_tcp_timeout_connect P i a e") (auto simp: event_run_def do_task_def)
    with do_tcp_timeout_connect_ok [OF h 7 P] show ?thesis by simp
  next
    case 8
    with do_msleep_ok [OF h 8] g show ?thesis by (auto simp: event_run_def do_task_def handled_def)
  next
    case 9
    with do_bg_run_ok [OF h 9, of P] g show ?thesis by (auto simp: event_run_def do_task_def completed_handled)
  next
    case 10
    with do_tcp_accept_ok [OF h 10] g show ?thesis by (auto simp: event_run_def do_task_def handled_def)
  qed
qed

text \<open>A callback the loop calls: the watcher was pending and belongs to a parked task.\<close>

lemma parked_conf_mono:
  assumes "parked_conf NB l a t"
    and "\<And>v. v \<in> task_ws a \<Longrightarrow> cb (ws l' v) = cb (ws l v) \<and> w_events (ws l' v) = w_events (ws l v) \<and>
      (engaged l' v \<longrightarrow> engaged l v)"
    and "action t = act_tcp_accept \<Longrightarrow> IoW a \<in> errs l' \<Longrightarrow> IoW a \<in> errs l"
  shows "parked_conf NB l' a t"
proof -
  have io: "cb (ws l' (IoW a)) = cb (ws l (IoW a))" "w_events (ws l' (IoW a)) = w_events (ws l (IoW a))"
    "engaged l' (IoW a) \<Longrightarrow> engaged l (IoW a)"
    and tm: "cb (ws l' (TimerW a)) = cb (ws l (TimerW a))" "engaged l' (TimerW a) \<Longrightarrow> engaged l (TimerW a)"
    using assms(2) by auto
  have "sock_parked NB l a t f evs \<Longrightarrow> sock_parked NB l' a t f evs" for f evs
    using io tm unfolding sock_parked_def io_watch_def timer_watch_def by metis
  then show ?thesis
    using assms(1,3) io tm unfolding parked_conf_def io_watch_def timer_watch_def
    by (cases "action t") auto
qed

lemma ev_valid_io:
  assumes "ev_valid is_timer m (IoW a) event" and "event AND EV_ERROR = 0"
  shows "event AND m \<noteq> 0" "event AND m = event"
  using assms by (auto simp: ev_valid_def)

text \<open>The callbacks of the two watchers of a parked task, and the events the descriptor is watched for.\<close>

fun io_cb :: "action_t \<Rightarrow> (callback \<times> events) option" where
  "io_cb act_sock_read = Some (Cb_ev_sock_read, EV_READ)"
| "io_cb act_sock_write = Some (Cb_ev_sock_write, EV_WRITE)"
| "io_cb act_tcp_timeout_connect = Some (Cb_ev_sock_connect, EV_READ OR EV_WRITE)"
| "io_cb act_tcp_accept = Some (Cb_ev_tcp_accept, EV_READ)"
| "io_cb _ = None"

fun timer_cb :: "action_t \<Rightarrow> callback option" where
  "timer_cb act_sock_read = Some Cb_ev_sock_timeout"
| "timer_cb act_sock_write = Some Cb_ev_sock_timeout"
| "timer_cb act_tcp_timeout_connect = Some Cb_ev_sock_connect_timeout"
| "timer_cb act_msleep = Some Cb_timer_timeout"
| "timer_cb _ = None"

lemma parked_callbacks:
  assumes "parked_conf NB l a t"
  shows "engaged l (IoW a) \<Longrightarrow> io_cb (action t) = Some (cb (ws l (IoW a)), w_events (ws l (IoW a)))"
    and "engaged l (TimerW a) \<Longrightarrow> timer_cb (action t) = Some (cb (ws l (TimerW a)))"
    and "action t = act_tcp_accept \<Longrightarrow> IoW a \<notin> errs l"
  using assms by (cases "action t"; auto simp: parked_conf_def sock_parked_def io_watch_def timer_watch_def)+

text \<open>What a callback of a parked task can rely on when the loop has taken it out of the queue.\<close>

lemma popped_callback:
  assumes t: "tasks e a = Some t" and lp: "lp_inv is_timer (worker_ev e i)" and pk: "parked_ok NB (worker_ev e i) a t"
    and pop: "pending_pop pri (worker_ev e i) = Some ((Some w, event), l')" and w: "w \<in> task_ws a"
    and e': "e' = e\<lparr>worker_ev := (worker_ev e)(i := l')\<rparr>"
  shows "called NB i a e' t"
    and "w = IoW a \<and> (\<exists>evs. io_cb (action t) = Some (cb (ws l' w), evs) \<and> (event AND evs \<noteq> 0 \<or> event AND EV_ERROR \<noteq> 0)) \<and>
         (event AND EV_ERROR = 0 \<longrightarrow> IoW a \<in> watching (worker_ev e' i)) \<and> (action t = act_tcp_accept \<longrightarrow> event AND EV_ERROR = 0) \<or>
       w = TimerW a \<and> timer_cb (action t) = Some (cb (ws l' w)) \<and> event = EV_TIMER"
proof -
  let ?l = "worker_ev e i"
  note p = lp_pop(1) [OF lp pop] lp_pop(2) [OF lp pop] lp_pop(3) [OF lp pop refl]
  have conf: "parked_conf NB ?l a t" using pk by (simp add: parked_ok_def)
  have "parked_conf NB l' a t"
    by (rule parked_conf_mono [OF conf])
      (use p(2,3) errs_pending [of l'] in \<open>auto simp: loop_frame_def engaged_def\<close>)
  with p(1) t show "called NB i a e' t" by (simp add: called_def e')
  have en: "engaged ?l w" using p(3) by (simp add: engaged_def)
  have valid: "ev_valid is_timer (w_events (ws l' w)) w event" using p(3) by simp
  have cbl: "cb (ws l' w) = cb (ws ?l w)" "w_events (ws l' w) = w_events (ws ?l w)" using p(3) by auto
  note pc = parked_callbacks [OF conf]
  show "w = IoW a \<and> (\<exists>evs. io_cb (action t) = Some (cb (ws l' w), evs) \<and> (event AND evs \<noteq> 0 \<or> event AND EV_ERROR \<noteq> 0)) \<and>
         (event AND EV_ERROR = 0 \<longrightarrow> IoW a \<in> watching (worker_ev e' i)) \<and> (action t = act_tcp_accept \<longrightarrow> event AND EV_ERROR = 0) \<or>
       w = TimerW a \<and> timer_cb (action t) = Some (cb (ws l' w)) \<and> event = EV_TIMER"
  proof (cases "w = IoW a")
    case True
    moreover have "event AND w_events (ws ?l w) \<noteq> 0 \<or> event AND EV_ERROR \<noteq> 0"
      using valid True cbl(2) ev_valid_io(1) by metis
    moreover have "event AND EV_ERROR = 0 \<longrightarrow> IoW a \<in> watching (worker_ev e' i)" using p(3) True by (auto simp: e')
    moreover have "action t = act_tcp_accept \<longrightarrow> event AND EV_ERROR = 0" using pc(3) p(3) True by auto
    ultimately show ?thesis using pc(1) en cbl by simp
  next
    case False
    then have "w = TimerW a" using w by simp
    then show ?thesis using pc(2) en cbl valid by (auto simp: ev_valid_def)
  qed
qed

lemma call_cb_ok:
  assumes P: "posix_ok m NB P" and t: "tasks e a = Some t" and lp: "lp_inv is_timer (worker_ev e i)"
    and pk: "parked_ok NB (worker_ev e i) a t"
    and pop: "pending_pop pri (worker_ev e i) = Some ((Some w, event), l')" and w: "w \<in> task_ws a"
    and e': "e' = e\<lparr>worker_ev := (worker_ev e)(i := l')\<rparr>"
  shows "cb (ws l' w) \<noteq> Cb_new_event_handler \<and>
    (\<exists>r. call_cb P i (cb (ws l' w)) w event e' = Some r \<and> handled NB i a e' r)"
proof -
  note c = popped_callback(1) [OF t lp pk pop w e']
  have rw: "rw_ok m (sys_read P)" "rw_ok m (sys_write P)" using P by (auto simp: posix_ok_def)
  from popped_callback(2) [OF t lp pk pop w e'] consider
    (io) evs where "w = IoW a" "io_cb (action t) = Some (cb (ws l' w), evs)" "event AND evs \<noteq> 0 \<or> event AND EV_ERROR \<noteq> 0"
      "event AND EV_ERROR = 0 \<longrightarrow> IoW a \<in> watching (worker_ev e' i)" "action t = act_tcp_accept \<longrightarrow> event AND EV_ERROR = 0"
    | (timer) "w = TimerW a" "timer_cb (action t) = Some (cb (ws l' w))" "event = EV_TIMER" by blast
  then show ?thesis
  proof cases
    case io
    note wi = io(1) and m = io(2) and ev = io(3) and wt = io(4) and ne = io(5)
    consider "action t = act_sock_read" | "action t = act_sock_write" | "action t = act_tcp_timeout_connect"
      | "action t = act_tcp_accept" using m by (cases "action t") auto
    then show ?thesis
    proof cases
      case 1
      with sock_event_ok [OF P rw(1) c 1, of event EV_READ] m ev wt wi show ?thesis
        by (auto simp: call_cb_def ev_sock_read_def)
    next
      case 2
      with sock_event_ok [OF P rw(2) c 2, of event EV_WRITE] m ev wt wi show ?thesis
        by (auto simp: call_cb_def ev_sock_write_def)
    next
      case 3
      then have "event AND EV_READ \<noteq> 0 \<or> event AND EV_WRITE \<noteq> 0 \<or> event AND EV_ERROR \<noteq> 0"
        using m ev by (auto simp: bit.conj_disj_distrib)
      from ev_sock_connect_ok [OF c 3 this] m 3 wi show ?thesis by (auto simp: call_cb_def)
    next
      case 4
      with ev_tcp_accept_ok [OF P c 4] m ev ne wi show ?thesis by (auto simp: call_cb_def)
    qed
  next
    case timer
    then show ?thesis
      using ev_sock_timeout_ok [OF c] ev_sock_connect_timeout_ok [OF c] timer_timeout_ok [OF c]
      by (cases "action t") (auto simp: call_cb_def)
  qed
qed

end
