(* ===== verification/Acoro_Init.thy ===== *)
theory Acoro_Init
  imports Acoro_Manager
begin

text \<open>
  The life cycle of the coroutine environment of \<^verbatim>\<open>src/src/acoro.c\<close>: \<open>init_coroutine_env\<close>,
  \<open>destroy_coroutine_env\<close>, and the calls of the interface that run in the calling thread
  without a background worker (\<open>crt_tcp_prepare_sock\<close>, closing a descriptor, the mutex macros).

  The descriptors of the pipes are the pairs of a list, in the order of \<open>pipe_channel\<close>; the
  bytes in a pipe are a field of the environment. \<open>init_coroutine_env\<close> starts the threads while
  it still creates pipes, but a worker reads its own pipe only, which exists by then, and the
  manager waits for the first \<open>crt_create\<close>; so the model starts them afterwards.
\<close>

section \<open>Starting\<close>

text \<open>
  The environment after \<open>memset\<close>, with its queues and the semaphore made. \<open>malloc\<close> gives the
  three arrays; the loops in \<open>worker_ev\<close> are not read before a worker has made them.
\<close>

definition env_zero :: "nat \<Rightarrow> (thread \<Rightarrow> int) \<Rightarrow> 'w \<Rightarrow> 'w coroutine_env_s" where
  "env_zero worker_count en w =
     \<lparr>tasks = (\<lambda>_. None), stacks = {}, nxt = (\<lambda>_. None), todo_queue = list_new, doing_queue = list_new,
      queue_heads = UNIV,
      manager_sem = 0, pipe_channel = (\<lambda>_. []),
      background_worker_count = (if worker_count = 0 then BACKGROUND_WORKER_CNT else worker_count),
      cid = 0, ran = 0, bg_worker_id = 0, curr_task_ptr = None, worker_ev = (\<lambda>_. ev_loop_new 0),
      errno = en, world = w\<rparr>"

text \<open>Making one end of a pipe non-blocking, with the assertions on both calls.\<close>

definition init_nonblock :: "'w posix \<Rightarrow> thread \<Rightarrow> int \<Rightarrow> 'w coroutine_env_s \<Rightarrow> 'w coroutine_env_s res" where
  "init_nonblock P th fd e =
     (let (flag, e1) = sys th (sys_getfl P fd) e
      in bind_res (assert_c (flag \<ge> 0)) (\<lambda>_.
           let (ret, e2) = sys th (sys_setfl P fd (flag OR O_NONBLOCK)) e1
           in bind_res (assert_c (ret = 0)) (\<lambda>_. Inr e2)))"

text \<open>
  The loop over the workers. The result of \<open>pipe\<close> is not tested: if it fails, the descriptors
  that \<open>fcntl\<close> gets are what \<open>malloc\<close> left in the array.
\<close>

fun init_pipes :: "'w posix \<Rightarrow> thread \<Rightarrow> nat \<Rightarrow> 'w coroutine_env_s \<Rightarrow> ((int \<times> int) list \<times> 'w coroutine_env_s) res" where
  "init_pipes P th 0 e = Inr ([], e)"
| "init_pipes P th (Suc n) e =
     (case sys th (sys_pipe P) e of
        (None, e1) \<Rightarrow> Inl Uninitialised
      | (Some (rd, wr), e1) \<Rightarrow>
          bind_res (init_nonblock P th rd e1) (\<lambda>e2.
          bind_res (init_nonblock P th wr e2) (\<lambda>e3.
          bind_res (init_pipes P th n e3) (\<lambda>(fds, e4). Inr ((rd, wr) # fds, e4)))))"

definition init_coroutine_env ::
  "'w posix \<Rightarrow> thread \<Rightarrow> nat \<Rightarrow> (thread \<Rightarrow> int) \<Rightarrow> 'w \<Rightarrow> ((int \<times> int) list \<times> 'w coroutine_env_s) res" where
  "init_coroutine_env P th worker_count en w =
     (let e = env_zero worker_count en w in init_pipes P th (background_worker_count e) e)"

section \<open>Stopping\<close>

text \<open>
  What \<open>destroy_coroutine_env\<close> takes apart besides the environment: the manager thread, its semaphore, the worker
  threads, and the event loops the workers have made.
\<close>

record 'w process =
  p_env :: "'w coroutine_env_s"
  p_manager :: bool
  p_sem :: bool
  p_workers :: "nat set"
  p_loops :: "nat set"

text \<open>
  \<open>list_destroy\<close> frees the items of a queue, destroys its mutex and frees its head. \<open>None\<close> is a queue whose
  destruction never ends.
\<close>

definition destroy_todo :: "'w coroutine_env_s \<Rightarrow> 'w coroutine_env_s res option" where
  "destroy_todo e =
     (if Todo_head \<in> queue_heads e then
        Option.bind (list_clear (nxt e) (todo_queue e)) (\<lambda>r. Some (bind_res r (\<lambda>(freed, q).
          Inr (e\<lparr>todo_queue := q, tasks := (\<lambda>a. if a \<in> set freed then None else tasks e a),
            queue_heads := queue_heads e - {Todo_head}\<rparr>))))
      else Some (Inl UseAfterFree))"

definition destroy_doing :: "'w coroutine_env_s \<Rightarrow> 'w coroutine_env_s res option" where
  "destroy_doing e =
     (if Doing_head \<in> queue_heads e then
        Option.bind (list_clear (nxt e) (doing_queue e)) (\<lambda>r. Some (bind_res r (\<lambda>(freed, q).
          Inr (e\<lparr>doing_queue := q, tasks := (\<lambda>a. if a \<in> set freed then None else tasks e a),
            queue_heads := queue_heads e - {Doing_head}\<rparr>))))
      else Some (Inl UseAfterFree))"

text \<open>
  \<open>pthread_cancel\<close> asks a thread to end, which it does at its next cancellation point; \<open>pthread_join\<close> waits
  for that. The manager's semaphore is destroyed in between.
\<close>

definition stop_manager :: "'w process \<Rightarrow> 'w process" where
  "stop_manager p = p\<lparr>p_sem := False, p_manager := False\<rparr>"

fun stop_workers :: "nat list \<Rightarrow> 'w process \<Rightarrow> 'w process" where
  "stop_workers [] p = p"
| "stop_workers (i # is) p = stop_workers is (p\<lparr>p_workers := p_workers p - {i}\<rparr>)"

fun close_all :: "'w posix \<Rightarrow> thread \<Rightarrow> int list \<Rightarrow> 'w coroutine_env_s \<Rightarrow> 'w coroutine_env_s" where
  "close_all P th [] e = e"
| "close_all P th (fd # fds) e = close_all P th fds (snd (sys th (sys_close P fd) e))"

text \<open>
  The last loop: the pipe watcher of every worker is stopped, then its loop is destroyed. The
  pointer to the loop of a worker that was cancelled before it made one is what \<open>malloc\<close> left in
  the array.
\<close>

fun stop_loops :: "nat list \<Rightarrow> 'w process \<Rightarrow> 'w process res" where
  "stop_loops [] p = Inr p"
| "stop_loops (i # is) p =
     (if i \<in> p_loops p then
        bind_res (on_loop i (ev_io_stop PipeW) (p_env p)) (\<lambda>e.
          stop_loops is (p\<lparr>p_env := e, p_loops := p_loops p - {i}\<rparr>))
      else Inl Uninitialised)"

definition pipe_fds :: "(int \<times> int) list \<Rightarrow> int list" where
  "pipe_fds fds = concat (map (\<lambda>(rd, wr). [rd, wr]) fds)"

text \<open>
  \<open>destroy_coroutine_env\<close>, in the order of the code, when the other threads do nothing between its
  beginning and their end; what they can do there is the subject of \<^verbatim>\<open>Acoro_Lifecycle\<close>.
\<close>

definition destroy_coroutine_env ::
  "'w posix \<Rightarrow> thread \<Rightarrow> (int \<times> int) list \<Rightarrow> 'w process \<Rightarrow> 'w process res option" where
  "destroy_coroutine_env P th fds p =
     Option.bind (destroy_todo (p_env p)) (\<lambda>r.
       case r of
         Inl f \<Rightarrow> Some (Inl f)
       | Inr e1 \<Rightarrow>
           Option.bind (destroy_doing e1) (\<lambda>r. Some (bind_res r (\<lambda>e2.
             let is = [0..<background_worker_count e2];
                 p3 = stop_workers is (stop_manager (p\<lparr>p_env := e2\<rparr>))
             in stop_loops is (p3\<lparr>p_env := close_all P th (pipe_fds fds) (p_env p3)\<rparr>)))))"

section \<open>Calls without a background worker\<close>

definition CRT_ERR_SOCKET :: int where "CRT_ERR_SOCKET = -1"
definition CRT_ERR_BIND :: int where "CRT_ERR_BIND = -2"
definition CRT_ERR_LISTEN :: int where "CRT_ERR_LISTEN = -3"
definition CRT_ERR_SET_NONBLOCK :: int where "CRT_ERR_SET_NONBLOCK = -4"
definition CRT_ERR_SETSOCKOPT :: int where "CRT_ERR_SETSOCKOPT = -5"

text \<open>The label \<open>exception\<close> of \<open>crt_tcp_prepare_sock\<close>.\<close>

definition prepare_exception ::
  "'w posix \<Rightarrow> thread \<Rightarrow> int \<Rightarrow> int \<Rightarrow> 'w coroutine_env_s \<Rightarrow> (int \<times> 'w coroutine_env_s) res" where
  "prepare_exception P th fd ret e =
     bind_res (upd_curr (\<lambda>t. t\<lparr>ret_err_code := Some (errno e th)\<rparr>) e) (\<lambda>e1.
       if fd \<ge> 0 then let (_, e2) = sys th (sys_close P fd) e1 in Inr (ret, e2) else Inr (ret, e1))"

definition crt_tcp_prepare_sock ::
  "'w posix \<Rightarrow> thread \<Rightarrow> in_addr_t \<Rightarrow> in_port_t \<Rightarrow> 'w coroutine_env_s \<Rightarrow> (int \<times> 'w coroutine_env_s) res" where
  "crt_tcp_prepare_sock P th ip port e =
     (let (fd, e1) = sys th (sys_socket P) e
      in if fd < 0 then prepare_exception P th fd CRT_ERR_SOCKET e1
         else
           let (r, e2) = sys th (sys_reuseaddr P fd) e1
           in if r \<noteq> 0 then prepare_exception P th fd CRT_ERR_SETSOCKOPT e2
              else
                let (r, e3) = sys th (sys_bind P fd ip port) e2
                in if r < 0 then prepare_exception P th fd CRT_ERR_BIND e3
                   else
                     let (r, e4) = sys th (sys_listen P fd 128) e3
                     in if r < 0 then prepare_exception P th fd CRT_ERR_LISTEN e4
                        else
                          let (r, e5) = crt_set_nonblock P th fd e4
                          in if r \<noteq> 0 then prepare_exception P th fd CRT_ERR_SET_NONBLOCK e5
                             else Inr (fd, e5))"

definition crt_disk_close :: "'w posix \<Rightarrow> thread \<Rightarrow> int \<Rightarrow> 'w coroutine_env_s \<Rightarrow> int \<times> 'w coroutine_env_s" where
  "crt_disk_close P th fd e = sys th (sys_close P fd) e"

definition crt_sock_close :: "'w posix \<Rightarrow> thread \<Rightarrow> int \<Rightarrow> 'w coroutine_env_s \<Rightarrow> int \<times> 'w coroutine_env_s" where
  "crt_sock_close P th fd e = sys th (sys_close P fd) e"

definition crt_pthread_mutex_lock :: "uptr \<Rightarrow> int" where
  "crt_pthread_mutex_lock m = 0"

definition crt_pthread_mutex_unlock :: "uptr \<Rightarrow> int" where
  "crt_pthread_mutex_unlock m = 0"

end
