(* ===== verification/Acoro_Schedule.thy ===== *)
theory Acoro_Schedule
  imports Acoro_Env
begin

text \<open>
  What the library promises about scheduling, without its data structures: where every task is,
  and the two queues as lists. A step moves at most one task, from one place to the next. The
  running system of \<^verbatim>\<open>Acoro_System\<close> implements it: every step of every thread is a step here.
\<close>

text \<open>Where a task is.\<close>

datatype owner =
    O_none
  | O_todo
  | O_doing
  | O_hand nat
  | O_parked nat
  | O_running
  | O_sem
  | O_lost

record schedule =
  place :: "addr \<Rightarrow> owner"
  todo :: "addr list"
  doing :: "addr list"

text \<open>
  A new task goes to the end of the todo queue. The manager takes the head of the todo queue, and
  only while it runs no other task. A running task is queued for a worker, yields to the end
  of the todo queue, waits in a semaphore, ends, or returns and is left behind. While a task runs, a task that
  waits in a semaphore can be put at the end of the todo queue or at its front. A worker takes the head of the
  doing queue, and only with empty hands; it parks the task in its loop or completes it, which puts
  it at the end of the todo queue; a parked task is completed later.
\<close>

inductive sched_step :: "schedule \<Rightarrow> schedule \<Rightarrow> bool" where
  s_stay: "sched_step \<lparr>place = p, todo = xs, doing = ys\<rparr> \<lparr>place = p, todo = xs, doing = ys\<rparr>"
| s_create: "p a = O_none \<Longrightarrow>
    sched_step \<lparr>place = p, todo = xs, doing = ys\<rparr> \<lparr>place = p(a := O_todo), todo = xs @ [a], doing = ys\<rparr>"
| s_run: "\<forall>b. p b \<noteq> O_running \<Longrightarrow>
    sched_step \<lparr>place = p, todo = a # xs, doing = ys\<rparr> \<lparr>place = p(a := O_running), todo = xs, doing = ys\<rparr>"
| s_request: "p a = O_running \<Longrightarrow>
    sched_step \<lparr>place = p, todo = xs, doing = ys\<rparr> \<lparr>place = p(a := O_doing), todo = xs, doing = ys @ [a]\<rparr>"
| s_yield: "p a = O_running \<Longrightarrow>
    sched_step \<lparr>place = p, todo = xs, doing = ys\<rparr> \<lparr>place = p(a := O_todo), todo = xs @ [a], doing = ys\<rparr>"
| s_wait: "p a = O_running \<Longrightarrow>
    sched_step \<lparr>place = p, todo = xs, doing = ys\<rparr> \<lparr>place = p(a := O_sem), todo = xs, doing = ys\<rparr>"
| s_finish: "p a = O_running \<Longrightarrow>
    sched_step \<lparr>place = p, todo = xs, doing = ys\<rparr> \<lparr>place = p(a := O_none), todo = xs, doing = ys\<rparr>"
| s_return: "p a = O_running \<Longrightarrow>
    sched_step \<lparr>place = p, todo = xs, doing = ys\<rparr> \<lparr>place = p(a := O_lost), todo = xs, doing = ys\<rparr>"
| s_wake: "p c = O_running \<Longrightarrow> p a = O_sem \<Longrightarrow> zs \<in> {xs @ [a], a # xs} \<Longrightarrow>
    sched_step \<lparr>place = p, todo = xs, doing = ys\<rparr> \<lparr>place = p(a := O_todo), todo = zs, doing = ys\<rparr>"
| s_start: "\<forall>b. p b \<noteq> O_hand i \<Longrightarrow>
    sched_step \<lparr>place = p, todo = xs, doing = a # ys\<rparr> \<lparr>place = p(a := O_hand i), todo = xs, doing = ys\<rparr>"
| s_park: "p a \<in> {O_hand i, O_parked i} \<Longrightarrow>
    sched_step \<lparr>place = p, todo = xs, doing = ys\<rparr> \<lparr>place = p(a := O_parked i), todo = xs, doing = ys\<rparr>"
| s_complete: "p a \<in> {O_hand i, O_parked i} \<Longrightarrow>
    sched_step \<lparr>place = p, todo = xs, doing = ys\<rparr> \<lparr>place = p(a := O_todo), todo = xs @ [a], doing = ys\<rparr>"

inductive_cases sched_stepE: "sched_step S S'"

text \<open>The scheduler starts with no tasks.\<close>

definition sched_init :: schedule where
  "sched_init = \<lparr>place = (\<lambda>_. O_none), todo = [], doing = []\<rparr>"

inductive sched_reach :: "schedule \<Rightarrow> bool" where
  sched_start: "sched_reach sched_init"
| sched_next: "sched_reach S \<Longrightarrow> sched_step S S' \<Longrightarrow> sched_reach S'"

text \<open>
  What every scheduler state satisfies: the queues are what the places say, without repetition;
  one task runs at a time, and a worker has one task in its hands.
\<close>

definition sched_ok :: "schedule \<Rightarrow> bool" where
  "sched_ok S \<longleftrightarrow>
     distinct (todo S) \<and> distinct (doing S) \<and>
     (\<forall>a. a \<in> set (todo S) \<longleftrightarrow> place S a = O_todo) \<and> (\<forall>a. a \<in> set (doing S) \<longleftrightarrow> place S a = O_doing) \<and>
     (\<forall>a b. place S a = O_running \<longrightarrow> place S b = O_running \<longrightarrow> a = b) \<and>
     (\<forall>a b i. place S a = O_hand i \<longrightarrow> place S b = O_hand i \<longrightarrow> a = b)"

lemma sched_ok_step: "sched_step S S' \<Longrightarrow> sched_ok S \<Longrightarrow> sched_ok S'"
proof (induction rule: sched_step.induct)
  case (s_run p a xs ys)
  then have "p a = O_todo" by (auto simp: sched_ok_def)
  with s_run show ?case by (auto simp: sched_ok_def)
next
  case (s_start p i xs a ys)
  then have "p a = O_doing" by (auto simp: sched_ok_def)
  with s_start show ?case by (auto simp: sched_ok_def)
qed (auto simp: sched_ok_def)

lemma sched_reach_ok: "sched_reach S \<Longrightarrow> sched_ok S"
proof (induction rule: sched_reach.induct)
  case sched_start then show ?case by (simp add: sched_ok_def sched_init_def)
next
  case (sched_next S S') then show ?case by (blast intro: sched_ok_step)
qed

text \<open>
  The order of the queues. A step adds tasks at the end of the todo queue, or takes its head to run
  it, or puts a task woken from a semaphore in front. In the doing queue nothing ever overtakes:
  tasks come at the end and a worker takes the head.
\<close>

lemma todo_order:
  assumes "sched_step S S'"
  shows "(\<exists>zs. todo S' = todo S @ zs) \<or> (\<exists>a. todo S = a # todo S' \<and> place S' a = O_running) \<or>
    (\<exists>a. place S a = O_sem \<and> todo S' = a # todo S)"
  using assms by (induction rule: sched_step.induct) auto

text \<open>While no task runs, before and after a step, tasks only come at the end of the todo queue.\<close>

lemma todo_grows:
  assumes "sched_step S S'" and "\<And>b. place S b \<noteq> O_running" and "\<And>b. place S' b \<noteq> O_running"
  shows "\<exists>zs. todo S' = todo S @ zs"
  using assms
proof (induction rule: sched_step.induct)
  case (s_run p a xs ys)
  from s_run.prems(2) [of a] show ?case by simp
qed auto

lemma doing_order:
  assumes "sched_step S S'"
  shows "(\<exists>zs. doing S' = doing S @ zs) \<or> (\<exists>a i. doing S = a # doing S' \<and> place S' a = O_hand i)"
  using assms by (induction rule: sched_step.induct) auto

end
