(* ===== verification/Acoro_System.thy ===== *)
theory Acoro_System
  imports Acoro_Handlers Acoro_Init Acoro_Schedule
begin

text \<open>
  The running system: the manager thread with the coroutine it runs, the background workers,
  the threads of the user that create coroutines, and the kernel, interleaved. A step is a
  piece of code that no other thread can come between: the functions of the library are cut at
  the places where two threads share a queue, the semaphore or a pipe (between a \<open>Push\<close> and its
  \<open>sem_post\<close>, between \<open>sem_wait\<close> and \<open>Shift\<close>, between the byte in a pipe and the task it stands
  for). The result of a step is the new state or the fault the step runs into.

  The invariant \<open>sys_inv\<close> says where every task is, that it is in one place only, and that the
  counters agree with the queues. It gives the main theorem: from the initial state no sequence
  of steps reaches a fault, and no task is lost.
\<close>

section \<open>States\<close>

text \<open>
  Where the manager thread stands: in \<open>sem_wait\<close>, before its \<open>Shift\<close>, before its switch, inside
  a coroutine, inside a request between queueing the task and writing to the pipe, before the
  \<open>swapcontext\<close> of the request, or after a coroutine has switched back.
\<close>

datatype manager_pc =
    M_wait
  | M_take
  | M_switch addr
  | M_run addr
  | M_write addr
  | M_swap addr
  | M_back addr

text \<open>
  Where a background worker stands: before the start of its loop, between two callbacks, in
  \<open>new_event_handler\<close> between the byte and the \<open>Shift\<close> or before \<open>do_task\<close>, and between the
  \<open>Push\<close> of \<open>coroutine_notify_manager\<close> and its \<open>sem_post\<close>.
\<close>

datatype worker_pc =
    W_start
  | W_loop
  | W_take
  | W_run addr
  | W_post

text \<open>
  \<open>creators\<close> is the number of user threads between the \<open>Push\<close> and the \<open>sem_post\<close> of
  \<open>crt_create\<close>; \<open>in_wait a\<close> is the semaphore inside whose \<open>crt_sem_wait\<close> the coroutine \<open>a\<close> is;
  \<open>returned\<close> are the coroutines whose routine has returned without \<open>crt_exit\<close>.
\<close>

record 'w system =
  env :: "'w coroutine_env_s"
  mpc :: manager_pc
  wpc :: "nat \<Rightarrow> worker_pc"
  creators :: nat
  sems :: "nat \<Rightarrow> crt_sem_t"
  in_wait :: "addr \<Rightarrow> nat option"
  returned :: "addr set"

abbreviation wcount :: "'w system \<Rightarrow> nat" where
  "wcount s \<equiv> background_worker_count (env s)"

section \<open>Steps\<close>

text \<open>What a coroutine may ask of the background workers, with the obligations of the caller.\<close>

inductive is_request :: "int set \<Rightarrow> ('w coroutine_env_s \<Rightarrow> 'w coroutine_env_s res) \<Rightarrow> bool" for NB where
  "is_request NB (coroutine_set_disk_open path flags va_mode)"
| "is_request NB (coroutine_set_disk_read fd ubuf cnt)"
| "is_request NB (coroutine_set_disk_write fd ubuf cnt)"
| "0 \<le> fd \<Longrightarrow> fd \<in> NB \<Longrightarrow> uint cnt < 2 ^ 63 \<Longrightarrow> is_request NB (coroutine_set_sock_read fd ubuf cnt ms)"
| "0 \<le> fd \<Longrightarrow> fd \<in> NB \<Longrightarrow> uint cnt < 2 ^ 63 \<Longrightarrow> is_request NB (coroutine_set_sock_write fd ubuf cnt ms)"
| "is_request NB (coroutine_set_sock_connect ip port ms)"
| "is_request NB (set_msleep ms64)"
| "is_request NB (set_bg_run f x res)"
| "0 \<le> fd \<Longrightarrow> is_request NB (set_accept fd ad len)"

text \<open>
  The end of a handler: if it has posted to the manager, the worker still has to do so. The
  \<open>sem_post\<close> is the last statement of every handler that notifies the manager.
\<close>

definition after_handler :: "'w system \<Rightarrow> nat \<Rightarrow> 'w coroutine_env_s res \<Rightarrow> 'w system res" where
  "after_handler s i r =
     map_sum id (\<lambda>e. s\<lparr>env := e\<lparr>manager_sem := manager_sem (env s)\<rparr>,
       wpc := (wpc s)(i := if manager_sem e > manager_sem (env s) then W_post else W_loop)\<rparr>) r"

definition set_loop :: "nat \<Rightarrow> loop_t \<Rightarrow> 'w system \<Rightarrow> 'w system" where
  "set_loop i l s = s\<lparr>env := (env s)\<lparr>worker_ev := (worker_ev (env s))(i := l)\<rparr>\<rparr>"

inductive sys_step :: "'w posix \<Rightarrow> int set \<Rightarrow> (nat \<Rightarrow> int) \<Rightarrow> 'w system \<Rightarrow> 'w system res \<Rightarrow> bool"
  for P NB pfd where
  m_wait:
    "mpc s = M_wait \<Longrightarrow> sem_wait_manager (env s) = Some e \<Longrightarrow>
     sys_step P NB pfd s (Inr (s\<lparr>env := e, mpc := M_take\<rparr>))"
| m_take:
    "mpc s = M_take \<Longrightarrow>
     sys_step P NB pfd s (map_sum id (\<lambda>(a, e). s\<lparr>env := e, mpc := M_switch a\<rparr>) (manager_take (env s)))"
| m_switch:
    "mpc s = M_switch a \<Longrightarrow>
     sys_step P NB pfd s
       (map_sum id (\<lambda>(b, e). s\<lparr>env := e, mpc := (if b then M_run a else M_wait)\<rparr>) (manager_switch sp a (env s)))"
| m_back:
    "mpc s = M_back a \<Longrightarrow>
     sys_step P NB pfd s (map_sum id (\<lambda>e. s\<lparr>env := e, mpc := M_wait\<rparr>) (manager_back a (env s)))"
| c_request:
    "mpc s = M_run a \<Longrightarrow> in_wait s a = None \<Longrightarrow> is_request NB f \<Longrightarrow>
     sys_step P NB pfd s
       (map_sum id (\<lambda>e. s\<lparr>env := e, mpc := M_write a\<rparr>) (bind_res (f (env s)) (notify_push Manager)))"
| c_write:
    "mpc s = M_write a \<Longrightarrow> length (pipe_channel (env s) (next_worker (env s))) < PIPE_CAPACITY \<Longrightarrow>
     sys_step P NB pfd s (map_sum id (\<lambda>e. s\<lparr>env := e, mpc := M_swap a\<rparr>) (notify_write (env s)))"
| c_swap:
    "mpc s = M_swap a \<Longrightarrow>
     sys_step P NB pfd s (map_sum id (\<lambda>e. s\<lparr>env := e, mpc := M_back a\<rparr>) (swap_out (env s)))"
| c_yield:
    "mpc s = M_run a \<Longrightarrow> in_wait s a = None \<Longrightarrow>
     sys_step P NB pfd s (map_sum id (\<lambda>e. s\<lparr>env := e, mpc := M_back a\<rparr>) (crt_sched_yield (env s)))"
| c_exit:
    "mpc s = M_run a \<Longrightarrow> in_wait s a = None \<Longrightarrow>
     sys_step P NB pfd s (map_sum id (\<lambda>e. s\<lparr>env := e, mpc := M_back a\<rparr>) (crt_exit (env s)))"
| c_return:
    "mpc s = M_run a \<Longrightarrow> in_wait s a = None \<Longrightarrow>
     sys_step P NB pfd s (Inr (s\<lparr>mpc := M_back a, returned := insert a (returned s)\<rparr>))"
| c_create:
    "mpc s = M_run a \<Longrightarrow> in_wait s a = None \<Longrightarrow> tasks (env s) b = None \<Longrightarrow>
     sys_step P NB pfd s
       (map_sum id (\<lambda>(id, e). s\<lparr>env := e\<rparr>) (crt_create (Some (b, junk)) attr br x (env s)))"
| c_sem_init:
    "mpc s = M_run a \<Longrightarrow> in_wait s a = None \<Longrightarrow> sem_task_ptr (sems s k) = None \<Longrightarrow> 0 \<le> sint v \<Longrightarrow>
     sys_step P NB pfd s (Inr (s\<lparr>sems := (sems s)(k := crt_sem_init v)\<rparr>))"
| c_sem_post:
    "mpc s = M_run a \<Longrightarrow> in_wait s a = None \<Longrightarrow> flag \<in> {0, 2} \<Longrightarrow> sem_value (sems s k) < 2147483647 \<Longrightarrow>
     sem_task_ptr (sems s k) \<noteq> None \<longrightarrow> sem_value (sems s k) \<le> 0 \<Longrightarrow>
     sys_step P NB pfd s
       (map_sum id (\<lambda>(sm, e). s\<lparr>env := e, sems := (sems s)(k := sm)\<rparr>)
         (crt_sem_priority_post flag (sems s k) (env s)))"
| c_sem_wait:
    "mpc s = M_run a \<Longrightarrow> in_wait s a \<in> {None, Some k} \<Longrightarrow>
     sem_value (sems s k) > 0 \<or> sem_task_ptr (sems s k) \<in> {None, Some a} \<Longrightarrow>
     sys_step P NB pfd s
       (map_sum id (\<lambda>(ret, sm, e).
          s\<lparr>env := e, sems := (sems s)(k := sm), in_wait := (in_wait s)(a := if ret then None else Some k),
            mpc := (if ret then M_run a else M_back a)\<rparr>)
         (crt_sem_wait (sems s k) (env s)))"
| f_create:
    "tasks (env s) b = None \<Longrightarrow>
     sys_step P NB pfd s
       (map_sum id (\<lambda>(id, e). s\<lparr>env := e, creators := creators s + 1\<rparr>)
         (create_push (Some (b, junk)) attr br x (env s)))"
| f_post:
    "0 < creators s \<Longrightarrow>
     sys_step P NB pfd s (Inr (s\<lparr>env := sem_post_manager (env s), creators := creators s - 1\<rparr>))"
| w_start:
    "i < wcount s \<Longrightarrow> wpc s i = W_start \<Longrightarrow>
     sys_step P NB pfd s
       (map_sum id (\<lambda>e. s\<lparr>env := e, wpc := (wpc s)(i := W_loop)\<rparr>) (new_background_worker True (pfd i) now i (env s)))"
| w_event:
    "i < wcount s \<Longrightarrow> wpc s i = W_loop \<Longrightarrow> ev AND EV_ERROR = 0 \<Longrightarrow>
     w_fd (ws (worker_ev (env s) i) PipeW) = int fd \<longrightarrow> pipe_channel (env s) i \<noteq> [] \<Longrightarrow>
     sys_step P NB pfd s (Inr (set_loop i (fd_event fd ev (worker_ev (env s) i)) s))"
| w_clock:
    "i < wcount s \<Longrightarrow> wpc s i = W_loop \<Longrightarrow> mn_now (worker_ev (env s) i) \<le> now \<Longrightarrow>
     sys_step P NB pfd s (Inr (set_loop i ((worker_ev (env s) i)\<lparr>mn_now := now\<rparr>) s))"
| w_timers:
    "i < wcount s \<Longrightarrow> wpc s i = W_loop \<Longrightarrow> timers_reify (worker_ev (env s) i) = Some r \<Longrightarrow>
     sys_step P NB pfd s (map_sum id (\<lambda>l. set_loop i l s) r)"
| w_kill:
    "i < wcount s \<Longrightarrow> wpc s i = W_loop \<Longrightarrow> fd_kill fd (worker_ev (env s) i) = Some r \<Longrightarrow>
     \<forall>w\<in>watching (worker_ev (env s) i). w_fd (ws (worker_ev (env s) i) w) = int fd \<longrightarrow>
       cb (ws (worker_ev (env s) i) w) \<notin> {Cb_new_event_handler, Cb_ev_tcp_accept} \<Longrightarrow>
     sys_step P NB pfd s (map_sum id (\<lambda>l. set_loop i l s) r)"
| w_reify:
    "i < wcount s \<Longrightarrow> wpc s i = W_loop \<Longrightarrow> fd_reify accept (worker_ev (env s) i) = Some r \<Longrightarrow>
     \<forall>w\<in>rejected is_timer accept (worker_ev (env s) i).
       cb (ws (worker_ev (env s) i) w) \<notin> {Cb_new_event_handler, Cb_ev_tcp_accept} \<Longrightarrow>
     sys_step P NB pfd s (map_sum id (\<lambda>l. set_loop i l s) r)"
| w_dummy:
    "i < wcount s \<Longrightarrow> wpc s i = W_loop \<Longrightarrow> pending_pop pri (worker_ev (env s) i) = Some ((None, ev), l) \<Longrightarrow>
     sys_step P NB pfd s (Inr (set_loop i l s))"
| w_byte:
    "i < wcount s \<Longrightarrow> wpc s i = W_loop \<Longrightarrow> pending_pop pri (worker_ev (env s) i) = Some ((Some w, ev), l) \<Longrightarrow>
     cb (ws l w) = Cb_new_event_handler \<Longrightarrow>
     sys_step P NB pfd s
       (if ev = EV_READ then
          map_sum id (\<lambda>e. s\<lparr>env := e, wpc := (wpc s)(i := W_take)\<rparr>) (event_byte i (env (set_loop i l s)))
        else Inl Aborted)"
| w_call:
    "i < wcount s \<Longrightarrow> wpc s i = W_loop \<Longrightarrow> pending_pop pri (worker_ev (env s) i) = Some ((Some w, ev), l) \<Longrightarrow>
     cb (ws l w) \<noteq> Cb_new_event_handler \<Longrightarrow>
     call_cb P i (cb (ws l w)) w ev (env (set_loop i l s)) = Some r \<Longrightarrow>
     sys_step P NB pfd s (after_handler s i r)"
| w_take:
    "i < wcount s \<Longrightarrow> wpc s i = W_take \<Longrightarrow>
     sys_step P NB pfd s
       (map_sum id (\<lambda>(a, e). s\<lparr>env := e, wpc := (wpc s)(i := W_run a)\<rparr>) (event_take (env s)))"
| w_run:
    "i < wcount s \<Longrightarrow> wpc s i = W_run a \<Longrightarrow> sys_step P NB pfd s (after_handler s i (event_run P i a (env s)))"
| w_post:
    "i < wcount s \<Longrightarrow> wpc s i = W_post \<Longrightarrow>
     sys_step P NB pfd s (Inr (s\<lparr>env := sem_post_manager (env s), wpc := (wpc s)(i := W_loop)\<rparr>))"

inductive_cases sys_stepE: "sys_step P NB pfd s r"

text \<open>The states a run of the system passes through, and the faults it can end in.\<close>

inductive sys_reach :: "'w posix \<Rightarrow> int set \<Rightarrow> (nat \<Rightarrow> int) \<Rightarrow> 'w system \<Rightarrow> 'w system res \<Rightarrow> bool"
  for P NB pfd s0 where
  reach_init: "sys_reach P NB pfd s0 (Inr s0)"
| reach_step: "sys_reach P NB pfd s0 (Inr s) \<Longrightarrow> sys_step P NB pfd s r \<Longrightarrow> sys_reach P NB pfd s0 r"

text \<open>
  The system when \<open>init_coroutine_env\<close> has set up the environment \<open>e\<close>, with the threads just
  created. The user's semaphores are initialised with \<open>v\<close>.
\<close>

definition init_system :: "'w coroutine_env_s \<Rightarrow> (nat \<Rightarrow> u32) \<Rightarrow> 'w system" where
  "init_system e v =
     \<lparr>env = e, mpc = M_wait, wpc = (\<lambda>_. W_start), creators = 0, sems = (\<lambda>k. crt_sem_init (v k)),
      in_wait = (\<lambda>_. None), returned = {}\<rparr>"

section \<open>The invariant\<close>

definition queues_ok :: "(addr \<Rightarrow> owner) \<Rightarrow> addr list \<Rightarrow> addr list \<Rightarrow> 'w coroutine_env_s \<Rightarrow> bool" where
  "queues_ok own xs ys e \<longleftrightarrow>
     queue_heads e = UNIV \<and> stailq_rep (nxt e) (todo_queue e) xs \<and> stailq_rep (nxt e) (doing_queue e) ys \<and>
     (\<forall>a. own a = O_todo \<longleftrightarrow> a \<in> set xs) \<and> (\<forall>a. own a = O_doing \<longleftrightarrow> a \<in> set ys)"

text \<open>A task the manager may take from its queue.\<close>

definition todo_ok :: "task \<Rightarrow> bool" where
  "todo_ok t \<longleftrightarrow>
     action t = act_new_coroutine \<and> (\<exists>x. args t = Init_arg x) \<or> resumable (action t) \<and> stack_ptr t \<noteq> None"

definition task_ok :: "int set \<Rightarrow> (nat \<Rightarrow> loop_t) \<Rightarrow> owner \<Rightarrow> addr \<Rightarrow> task \<Rightarrow> bool" where
  "task_ok NB loops ow a t \<longleftrightarrow>
     (case ow of
        O_none \<Rightarrow> False
      | O_todo \<Rightarrow> todo_ok t
      | O_doing \<Rightarrow> request_ok NB t \<and> stack_ptr t \<noteq> None
      | O_hand i \<Rightarrow> request_ok NB t \<and> stack_ptr t \<noteq> None
      | O_parked i \<Rightarrow> parked_ok NB (loops i) a t \<and> stack_ptr t \<noteq> None
      | O_running \<Rightarrow> True
      | O_sem \<Rightarrow> action t \<noteq> act_finished_coroutine \<and> stack_ptr t \<noteq> None
      | O_lost \<Rightarrow> action t \<noteq> act_finished_coroutine)"

definition owned_ok :: "int set \<Rightarrow> addr set \<Rightarrow> (addr \<Rightarrow> owner) \<Rightarrow> 'w coroutine_env_s \<Rightarrow> bool" where
  "owned_ok NB H own e \<longleftrightarrow>
     (\<forall>a. own a = O_none \<longleftrightarrow> tasks e a = None) \<and>
     (\<forall>a t. a \<notin> H \<longrightarrow> tasks e a = Some t \<longrightarrow> task_ok NB (worker_ev e) (own a) a t)"

definition at_place :: "(nat \<Rightarrow> worker_pc) \<Rightarrow> nat \<Rightarrow> worker_pc \<Rightarrow> nat" where
  "at_place f n p = card {i. i < n \<and> f i = p}"

definition counts_ok :: "addr list \<Rightarrow> addr list \<Rightarrow> 'w system \<Rightarrow> bool" where
  "counts_ok xs ys s \<longleftrightarrow>
     0 < wcount s \<and>
     length xs = manager_sem (env s) + creators s + at_place (wpc s) (wcount s) W_post +
       (if mpc s = M_take then 1 else 0) \<and>
     length ys = (\<Sum>i<wcount s. length (pipe_channel (env s) i)) + at_place (wpc s) (wcount s) W_take +
       (if \<exists>a. mpc s = M_write a then 1 else 0) \<and>
     (\<forall>i<wcount s. set (pipe_channel (env s) i) \<subseteq> {0xee})"

definition loop_okay :: "addr set \<Rightarrow> (addr \<Rightarrow> owner) \<Rightarrow> nat \<Rightarrow> u8 list \<Rightarrow> loop_t \<Rightarrow> bool" where
  "loop_okay H own i bytes l \<longleftrightarrow>
     lp_inv is_timer l \<and>
     (\<forall>a. a \<notin> H \<longrightarrow> engaged l (IoW a) \<or> engaged l (TimerW a) \<longrightarrow> own a = O_parked i) \<and>
     PipeW \<in> watching l \<and> cb (ws l PipeW) = Cb_new_event_handler \<and> w_events (ws l PipeW) = EV_READ \<and>
     PipeW \<notin> errs l \<and> (PipeW \<in> pending_set l \<longrightarrow> bytes \<noteq> [])"

definition workers_ok :: "addr set \<Rightarrow> (addr \<Rightarrow> owner) \<Rightarrow> 'w system \<Rightarrow> bool" where
  "workers_ok H own s \<longleftrightarrow>
     (\<forall>i. i < wcount s \<and> wpc s i \<noteq> W_start \<longrightarrow>
        loop_okay H own i (pipe_channel (env s) i) (worker_ev (env s) i)) \<and>
     (\<forall>a i. own a = O_parked i \<longrightarrow> i < wcount s \<and> wpc s i \<noteq> W_start) \<and>
     (\<forall>a i. a \<notin> H \<longrightarrow> (own a = O_hand i \<longleftrightarrow> i < wcount s \<and> wpc s i = W_run a))"

definition manager_ok :: "(addr \<Rightarrow> owner) \<Rightarrow> 'w system \<Rightarrow> bool" where
  "manager_ok own s \<longleftrightarrow>
     (case mpc s of
        M_wait \<Rightarrow> \<forall>b. own b \<noteq> O_running
      | M_take \<Rightarrow> \<forall>b. own b \<noteq> O_running
      | M_switch a \<Rightarrow> (\<forall>b. own b = O_running \<longleftrightarrow> b = a) \<and> (\<exists>t. tasks (env s) a = Some t \<and> todo_ok t)
      | M_run a \<Rightarrow> (\<forall>b. own b = O_running \<longleftrightarrow> b = a) \<and> curr_task_ptr (env s) = Some a \<and>
          (\<exists>t. tasks (env s) a = Some t \<and> stack_ptr t \<noteq> None \<and> action t \<noteq> act_finished_coroutine)
      | M_write a \<Rightarrow> (\<forall>b. own b \<noteq> O_running) \<and> curr_task_ptr (env s) = Some a \<and> own a \<noteq> O_none
      | M_swap a \<Rightarrow> (\<forall>b. own b \<noteq> O_running) \<and> curr_task_ptr (env s) = Some a \<and> own a \<noteq> O_none
      | M_back a \<Rightarrow> curr_task_ptr (env s) = Some a \<and>
          (\<exists>t. tasks (env s) a = Some t \<and>
            (\<forall>b. own b = O_running \<longleftrightarrow> b = a \<and> action t = act_finished_coroutine) \<and>
            (action t = act_finished_coroutine \<longrightarrow> stack_ptr t \<noteq> None)))"

definition sems_ok :: "(addr \<Rightarrow> owner) \<Rightarrow> 'w system \<Rightarrow> bool" where
  "sems_ok own s \<longleftrightarrow>
     (\<forall>k. 0 \<le> sem_value (sems s k)) \<and>
     (\<forall>k b. sem_task_ptr (sems s k) = Some b \<longrightarrow> in_wait s b = Some k \<and> (sem_value (sems s k) = 0 \<longrightarrow> own b = O_sem)) \<and>
     (\<forall>b. own b = O_sem \<longrightarrow> (\<exists>k. sem_task_ptr (sems s k) = Some b \<and> sem_value (sems s k) = 0)) \<and>
     (\<forall>a k. in_wait s a = Some k \<longrightarrow> own a \<in> {O_sem, O_todo, O_running}) \<and>
     (\<forall>a k. mpc s = M_back a \<longrightarrow> in_wait s a = Some k \<longrightarrow> own a \<noteq> O_running) \<and>
     (\<forall>a. a \<in> returned s \<longleftrightarrow> own a = O_lost)"

definition inv_with :: "int set \<Rightarrow> addr set \<Rightarrow> (addr \<Rightarrow> owner) \<Rightarrow> addr list \<Rightarrow> addr list \<Rightarrow> 'w system \<Rightarrow> bool" where
  "inv_with NB H own xs ys s \<longleftrightarrow>
     queues_ok own xs ys (env s) \<and> owned_ok NB H own (env s) \<and> counts_ok xs ys s \<and> workers_ok H own s \<and>
     manager_ok own s \<and> sems_ok own s"

definition sys_inv :: "int set \<Rightarrow> 'w system \<Rightarrow> bool" where
  "sys_inv NB s \<longleftrightarrow> (\<exists>own xs ys. inv_with NB {} own xs ys s)"

section \<open>The parts of the invariant under updates\<close>

lemma live_todo: "queues_ok own xs ys e \<Longrightarrow> owned_ok NB H own e \<Longrightarrow> a \<in> set xs \<or> a \<in> set ys \<Longrightarrow> live e a"
  unfolding queues_ok_def owned_ok_def live_def by (metis owner.distinct(1,3))

lemma last_live:
  assumes "stailq_rep nx q zs" and "\<And>a. a \<in> set zs \<Longrightarrow> live e a"
  shows "(case stqh_last q of AtFirst \<Rightarrow> True | AtNext b \<Rightarrow> live e b)"
  using assms by (auto simp: stailq_rep_def last_slot_def)

lemma push_todo_ok:
  assumes q: "queues_ok own xs ys e" and w: "owned_ok NB H own e"
    and a: "own a \<noteq> O_none" "own a \<noteq> O_todo" "own a \<noteq> O_doing"
  shows "\<exists>nx q. Push_todo a e = Inr (e\<lparr>nxt := nx, todo_queue := q\<rparr>) \<and>
    queues_ok (own(a := O_todo)) (xs @ [a]) ys (e\<lparr>nxt := nx, todo_queue := q\<rparr>)"
proof -
  obtain nx h where p: "list_push (nxt e) (todo_queue e) a = (nx, h)" by fastforce
  have r: "stailq_rep (nxt e) (todo_queue e) xs" "stailq_rep (nxt e) (doing_queue e) ys" and n: "a \<notin> set xs" "a \<notin> set ys"
    and d: "set xs \<inter> set ys = {}" using q a(2,3) unfolding queues_ok_def by (auto, metis owner.distinct)
  have "live e a" using w a(1) by (auto simp: owned_ok_def live_def)
  moreover have "(case stqh_last (todo_queue e) of AtFirst \<Rightarrow> True | AtNext b \<Rightarrow> live e b)"
    by (rule last_live [OF r(1)]) (rule live_todo [OF q w], simp)
  ultimately have "Push_todo a e = Inr (e\<lparr>nxt := nx, todo_queue := h\<rparr>)" 
    using q by (simp add: Push_todo_def queue_push_def p queues_ok_def)
  moreover have "stailq_rep nx h (xs @ [a])" by (rule stq.rep_push [OF r(1) n(1) p])
  moreover have "stailq_rep nx (doing_queue e) ys" by (rule stq.push_other [OF r p n(2) d])
  ultimately show ?thesis using q n unfolding queues_ok_def by auto
qed

lemma push_doing_ok:
  assumes q: "queues_ok own xs ys e" and w: "owned_ok NB H own e"
    and a: "own a \<noteq> O_none" "own a \<noteq> O_todo" "own a \<noteq> O_doing"
  shows "\<exists>nx q. Push_doing a e = Inr (e\<lparr>nxt := nx, doing_queue := q\<rparr>) \<and>
    queues_ok (own(a := O_doing)) xs (ys @ [a]) (e\<lparr>nxt := nx, doing_queue := q\<rparr>)"
proof -
  obtain nx h where p: "list_push (nxt e) (doing_queue e) a = (nx, h)" by fastforce
  have r: "stailq_rep (nxt e) (doing_queue e) ys" "stailq_rep (nxt e) (todo_queue e) xs" and n: "a \<notin> set ys" "a \<notin> set xs"
    and d: "set ys \<inter> set xs = {}" using q a(2,3) unfolding queues_ok_def by (auto, metis owner.distinct)
  have "live e a" using w a(1) by (auto simp: owned_ok_def live_def)
  moreover have "(case stqh_last (doing_queue e) of AtFirst \<Rightarrow> True | AtNext b \<Rightarrow> live e b)"
    by (rule last_live [OF r(1)]) (rule live_todo [OF q w], simp)
  ultimately have "Push_doing a e = Inr (e\<lparr>nxt := nx, doing_queue := h\<rparr>)" 
    using q by (simp add: Push_doing_def queue_push_def p queues_ok_def)
  moreover have "stailq_rep nx h (ys @ [a])" by (rule stq.rep_push [OF r(1) n(1) p])
  moreover have "stailq_rep nx (todo_queue e) xs" by (rule stq.push_other [OF r p n(2) d])
  ultimately show ?thesis using q n unfolding queues_ok_def by auto
qed

lemma unshift_todo_ok:
  assumes q: "queues_ok own xs ys e" and w: "owned_ok NB H own e"
    and a: "own a \<noteq> O_none" "own a \<noteq> O_todo" "own a \<noteq> O_doing"
  shows "\<exists>nx q. Unshift_todo a e = Inr (e\<lparr>nxt := nx, todo_queue := q\<rparr>) \<and>
    queues_ok (own(a := O_todo)) (a # xs) ys (e\<lparr>nxt := nx, todo_queue := q\<rparr>)"
proof -
  obtain nx h where p: "list_unshift (nxt e) (todo_queue e) a = (nx, h)" by fastforce
  have r: "stailq_rep (nxt e) (todo_queue e) xs" "stailq_rep (nxt e) (doing_queue e) ys" and n: "a \<notin> set xs" "a \<notin> set ys"
    and d: "set xs \<inter> set ys = {}" using q a(2,3) unfolding queues_ok_def by (auto, metis owner.distinct)
  have "live e a" using w a(1) by (auto simp: owned_ok_def live_def)
  then have "Unshift_todo a e = Inr (e\<lparr>nxt := nx, todo_queue := h\<rparr>)" using q by (simp add: Unshift_todo_def p queues_ok_def)
  moreover have "stailq_rep nx h (a # xs)" by (rule stq.rep_unshift [OF r(1) n(1) p])
  moreover have "stailq_rep nx (doing_queue e) ys" by (rule stq.unshift_other [OF r p n(2) d])
  ultimately show ?thesis using q n unfolding queues_ok_def by auto
qed

lemma rep_first_live:
  assumes "stailq_rep nx q (x # zs)" and "live e x"
  shows "(case STAILQ_FIRST q of None \<Rightarrow> True | Some b \<Rightarrow> live e b)"
  using assms rep_first [OF assms(1)] by simp

lemma shift_todo_ok:
  assumes q: "queues_ok own (x # xs) ys e" and w: "owned_ok NB H own e" and o: "ow \<noteq> O_todo" "ow \<noteq> O_doing"
  shows "\<exists>q. Shift_todo e = Inr (Some x, e\<lparr>todo_queue := q\<rparr>) \<and>
    queues_ok (own(x := ow)) xs ys (e\<lparr>todo_queue := q\<rparr>)"
proof -
  have r: "stailq_rep (nxt e) (todo_queue e) (x # xs)" using q by (simp add: queues_ok_def)
  from stq.rep_shift_Cons [OF this] obtain h where h: "list_shift (nxt e) (todo_queue e) = Inr (Some x, h)"
    "stailq_rep (nxt e) h xs" by blast
  have "live e x" by (rule live_todo [OF q w]) simp
  from rep_first_live [OF r this] h(1) have "Shift_todo e = Inr (Some x, e\<lparr>todo_queue := h\<rparr>)"
    using q by (simp add: Shift_todo_def queue_shift_def queues_ok_def)
  moreover have "x \<notin> set xs" "x \<notin> set ys"
    using stq.rep_dist [OF r] q unfolding queues_ok_def by (auto, metis list.set_intros(1) owner.distinct(15))
  ultimately show ?thesis using q h(2) o unfolding queues_ok_def by auto
qed

lemma shift_doing_ok:
  assumes q: "queues_ok own xs (y # ys) e" and w: "owned_ok NB H own e" and o: "ow \<noteq> O_todo" "ow \<noteq> O_doing"
  shows "\<exists>q. Shift_doing e = Inr (Some y, e\<lparr>doing_queue := q\<rparr>) \<and>
    queues_ok (own(y := ow)) xs ys (e\<lparr>doing_queue := q\<rparr>)"
proof -
  have r: "stailq_rep (nxt e) (doing_queue e) (y # ys)" using q by (simp add: queues_ok_def)
  from stq.rep_shift_Cons [OF this] obtain h where h: "list_shift (nxt e) (doing_queue e) = Inr (Some y, h)"
    "stailq_rep (nxt e) h ys" by blast
  have "live e y" by (rule live_todo [OF q w]) simp
  from rep_first_live [OF r this] h(1) have "Shift_doing e = Inr (Some y, e\<lparr>doing_queue := h\<rparr>)"
    using q by (simp add: Shift_doing_def queue_shift_def queues_ok_def)
  moreover have "y \<notin> set ys" "y \<notin> set xs"
    using stq.rep_dist [OF r] q unfolding queues_ok_def by (auto, metis list.set_intros(1) owner.distinct(15))
  ultimately show ?thesis using q h(2) o unfolding queues_ok_def by auto
qed

lemma queues_own:
  "queues_ok own xs ys e \<Longrightarrow> own a \<noteq> O_todo \<Longrightarrow> own a \<noteq> O_doing \<Longrightarrow> ow \<noteq> O_todo \<Longrightarrow> ow \<noteq> O_doing \<Longrightarrow>
   queues_ok (own(a := ow)) xs ys e"
  unfolding queues_ok_def by auto

text \<open>The invariant on the tasks after one task has been written.\<close>

lemma owned_upd:
  assumes "owned_ok NB H own e" and "tasks e' = (tasks e)(a \<mapsto> t)" and "worker_ev e' = worker_ev e"
    and "ow \<noteq> O_none" and "a \<notin> H' \<Longrightarrow> task_ok NB (worker_ev e) ow a t" and "H \<subseteq> insert a H'"
  shows "owned_ok NB H' (own(a := ow)) e'"
  using assms unfolding owned_ok_def by auto

lemma owned_same:
  assumes "owned_ok NB H own e" and "tasks e' = tasks e" and "worker_ev e' = worker_ev e"
  shows "owned_ok NB H own e'"
  using assms by (simp add: owned_ok_def)

text \<open>An owner that is neither a hand nor a loop changes: the workers do not notice.\<close>

definition workerless :: "owner \<Rightarrow> bool" where
  "workerless ow \<longleftrightarrow> (\<forall>i. ow \<noteq> O_hand i \<and> ow \<noteq> O_parked i)"

lemma workerless_simps [simp]:
  "workerless O_none" "workerless O_todo" "workerless O_doing" "workerless O_running" "workerless O_sem" "workerless O_lost"
  "\<not> workerless (O_hand i)" "\<not> workerless (O_parked i)"
  by (simp_all add: workerless_def)

lemma workers_own:
  assumes "workers_ok H own s" and "workerless (own a)" and "workerless ow"
    and "wpc s' = wpc s" and "wcount s' = wcount s" and "pipe_channel (env s') = pipe_channel (env s)"
    and "worker_ev (env s') = worker_ev (env s)"
  shows "workers_ok H (own(a := ow)) s'"
proof -
  have n: "own a \<noteq> O_parked i" "own a \<noteq> O_hand i" "ow \<noteq> O_parked i" "ow \<noteq> O_hand i" for i
    using assms(2,3) by (auto simp: workerless_def)
  have "loop_okay H own i bs l \<Longrightarrow> loop_okay H (own(a := ow)) i bs l" for i bs l
    using n(1) [of i] by (auto simp: loop_okay_def)
  then show ?thesis using assms(1,4-7) n unfolding workers_ok_def by (auto split: if_splits)
qed

lemma workers_same:
  assumes "workers_ok H own s" and "wpc s' = wpc s" and "wcount s' = wcount s"
    and "pipe_channel (env s') = pipe_channel (env s)" and "worker_ev (env s') = worker_ev (env s)"
  shows "workers_ok H own s'"
  using assms unfolding workers_ok_def by simp

text \<open>A step of another thread keeps what the manager relies on.\<close>

lemma manager_other:
  assumes m: "manager_ok own s" and "mpc s' = mpc s" and "curr_task_ptr (env s') = curr_task_ptr (env s)"
    and run: "\<And>b. own' b = O_running \<longleftrightarrow> own b = O_running"
    and "\<And>b. own b = O_running \<Longrightarrow> tasks (env s') b = tasks (env s) b"
    and "\<And>b. own b \<noteq> O_none \<Longrightarrow> own' b \<noteq> O_none"
    and act: "\<And>b t. own b \<noteq> O_running \<Longrightarrow> tasks (env s) b = Some t \<Longrightarrow> action t \<noteq> act_finished_coroutine \<Longrightarrow>
      \<exists>t'. tasks (env s') b = Some t' \<and> action t' \<noteq> act_finished_coroutine"
  shows "manager_ok own' s'"
proof (cases "mpc s")
  case (M_back a)
  then obtain t where t: "tasks (env s) a = Some t" "curr_task_ptr (env s) = Some a"
    "\<And>b. own b = O_running \<longleftrightarrow> b = a \<and> action t = act_finished_coroutine"
    "action t = act_finished_coroutine \<Longrightarrow> stack_ptr t \<noteq> None" using m by (auto simp: manager_ok_def)
  show ?thesis
  proof (cases "action t = act_finished_coroutine")
    case True
    then have "tasks (env s') a = Some t" using t assms(5) by simp
    then show ?thesis using M_back assms(2,3) run t True by (auto simp: manager_ok_def)
  next
    case False
    then have "own a \<noteq> O_running" using t(3) by simp
    from act [OF this t(1) False] obtain t' where "tasks (env s') a = Some t'" "action t' \<noteq> act_finished_coroutine" by blast
    then show ?thesis using M_back assms(2,3) run t False by (auto simp: manager_ok_def)
  qed
qed (use assms in \<open>auto simp: manager_ok_def\<close>)

lemma manager_task:
  assumes m: "manager_ok own s" and s': "mpc s' = mpc s" "curr_task_ptr (env s') = curr_task_ptr (env s)"
    and a: "own a \<noteq> O_running" "ow \<noteq> O_running" "ow \<noteq> O_none"
    and t: "\<And>b. b \<noteq> a \<Longrightarrow> tasks (env s') b = tasks (env s) b" "tasks (env s') a = Some t1" "action t1 \<noteq> act_finished_coroutine"
  shows "manager_ok (own(a := ow)) s'"
proof (rule manager_other [OF m s'])
  fix b
  show "((own(a := ow)) b = O_running) = (own b = O_running)" using a by auto
  show "own b = O_running \<Longrightarrow> tasks (env s') b = tasks (env s) b" using t(1) [of b] a(1) by auto
  show "own b \<noteq> O_none \<Longrightarrow> (own(a := ow)) b \<noteq> O_none" using a(3) by auto
  fix t assume "tasks (env s) b = Some t" "action t \<noteq> act_finished_coroutine"
  then show "\<exists>t'. tasks (env s') b = Some t' \<and> action t' \<noteq> act_finished_coroutine"
    using assms(7-9) by (cases "b = a") auto
qed

lemma sems_other:
  assumes "sems_ok own s" and "sems s' = sems s" and "in_wait s' = in_wait s"
    and "\<And>b. own' b = O_sem \<longleftrightarrow> own b = O_sem"
    and "\<And>b k. in_wait s b = Some k \<Longrightarrow> own' b \<in> {O_sem, O_todo, O_running}"
    and "\<And>a k. mpc s' = M_back a \<Longrightarrow> in_wait s a = Some k \<Longrightarrow> own' a \<noteq> O_running"
    and "returned s' = returned s" and "\<And>b. own' b = O_lost \<longleftrightarrow> own b = O_lost"
  shows "sems_ok own' s'"
  using assms unfolding sems_ok_def by simp

lemma in_wait_own: "sems_ok own s \<Longrightarrow> in_wait s b = Some k \<Longrightarrow> own b \<in> {O_sem, O_todo, O_running}"
  unfolding sems_ok_def by blast

lemma not_finished:
  assumes "owned_ok NB H own e" and "a \<notin> H" and "tasks e a = Some t" and "own a \<noteq> O_running"
  shows "action t \<noteq> act_finished_coroutine"
proof -
  have "task_ok NB (worker_ev e) (own a) a t" using assms by (simp add: owned_ok_def)
  then show ?thesis
    using assms(4) by (cases "own a")
      (auto simp: task_ok_def todo_ok_def resumable_def request_ok_def parked_ok_def parked_conf_def)
qed

lemma owned_task:
  assumes "owned_ok NB H own e" and "own a \<noteq> O_none"
  obtains t where "tasks e a = Some t" "a \<notin> H \<Longrightarrow> task_ok NB (worker_ev e) (own a) a t"
  using assms unfolding owned_ok_def by (cases "tasks e a") auto

lemma owned_own:
  assumes "owned_ok NB H own e" and "tasks e a = Some t" and "task_ok NB (worker_ev e) ow a t" and "ow \<noteq> O_none"
    and "tasks e' = tasks e" and "worker_ev e' = worker_ev e"
  shows "owned_ok NB H (own(a := ow)) e'"
  using assms unfolding owned_ok_def by auto

text \<open>
  The state \<open>s\<close> is good, and its tasks are where one step of the abstract scheduler brings them
  from the places \<open>own\<close> and the queues \<open>xs\<close> and \<open>ys\<close>.
\<close>

definition inv_to :: "int set \<Rightarrow> (addr \<Rightarrow> owner) \<Rightarrow> addr list \<Rightarrow> addr list \<Rightarrow> 'w system \<Rightarrow> bool" where
  "inv_to NB own xs ys s \<longleftrightarrow>
     (\<exists>own' xs' ys'. inv_with NB {} own' xs' ys' s \<and>
        sched_step \<lparr>place = own, todo = xs, doing = ys\<rparr> \<lparr>place = own', todo = xs', doing = ys'\<rparr>)"

lemma inv_toI:
  "sched_step \<lparr>place = own, todo = xs, doing = ys\<rparr> \<lparr>place = own', todo = xs', doing = ys'\<rparr> \<Longrightarrow>
   queues_ok own' xs' ys' (env s) \<Longrightarrow> owned_ok NB {} own' (env s) \<Longrightarrow> counts_ok xs' ys' s \<Longrightarrow> workers_ok {} own' s \<Longrightarrow>
   manager_ok own' s \<Longrightarrow> sems_ok own' s \<Longrightarrow> inv_to NB own xs ys s"
  unfolding inv_to_def inv_with_def by blast

lemmas inv_stay = inv_toI [OF s_stay]

section \<open>The steps of the manager\<close>

lemma inv_withD:
  assumes "inv_with NB H own xs ys s"
  shows "queues_ok own xs ys (env s)" "owned_ok NB H own (env s)" "counts_ok xs ys s" "workers_ok H own s"
    "manager_ok own s" "sems_ok own s"
  using assms by (simp_all add: inv_with_def)

lemma m_wait_inv:
  assumes i: "inv_with NB {} own xs ys s" and m: "mpc s = M_wait" and e: "sem_wait_manager (env s) = Some e"
  shows "inv_to NB own xs ys (s\<lparr>env := e, mpc := M_take\<rparr>)"
proof -
  note d = inv_withD [OF i]
  have e': "e = (env s)\<lparr>manager_sem := manager_sem (env s) - 1\<rparr>" "manager_sem (env s) \<noteq> 0"
    using e by (auto simp: sem_wait_manager_def split: if_splits)
  let ?s = "s\<lparr>env := e, mpc := M_take\<rparr>"
  have "queues_ok own xs ys e" using d(1) by (simp add: e' queues_ok_def)
  moreover have "owned_ok NB {} own e" by (rule owned_same [OF d(2)]) (simp_all add: e')
  moreover have "counts_ok xs ys ?s" using d(3) m e'(2) by (simp add: counts_ok_def e'(1))
  moreover have "workers_ok {} own ?s" by (rule workers_same [OF d(4)]) (simp_all add: e')
  moreover have "manager_ok own ?s" using d(5) m by (simp add: manager_ok_def)
  moreover have "sems_ok own ?s" using d(6) m by (simp add: sems_ok_def)
  ultimately show ?thesis by (intro inv_stay [of own xs ys]) simp_all
qed

lemma m_take_inv:
  assumes i: "inv_with NB {} own xs ys s" and m: "mpc s = M_take"
  shows "\<exists>a e. manager_take (env s) = Inr (a, e) \<and> inv_to NB own xs ys (s\<lparr>env := e, mpc := M_switch a\<rparr>)"
proof -
  note d = inv_withD [OF i]
  obtain x zs where xs: "xs = x # zs" using d(3) m by (cases xs) (auto simp: counts_ok_def)
  from shift_todo_ok [OF d(1)[unfolded xs] d(2), of O_running] obtain q where
    q: "Shift_todo (env s) = Inr (Some x, (env s)\<lparr>todo_queue := q\<rparr>)"
      "queues_ok (own(x := O_running)) zs ys ((env s)\<lparr>todo_queue := q\<rparr>)" by auto
  let ?e = "(env s)\<lparr>todo_queue := q\<rparr>"
  let ?s = "s\<lparr>env := ?e, mpc := M_switch x\<rparr>" and ?own = "own(x := O_running)"
  have x: "own x = O_todo" using d(1) xs by (simp add: queues_ok_def)
  then obtain t where t: "tasks (env s) x = Some t" and tok: "todo_ok t"
    using owned_task [OF d(2), of x] by (auto simp: task_ok_def)
  have "owned_ok NB {} ?own ?e" using d(2) t by (auto simp: owned_ok_def task_ok_def)
  moreover have "counts_ok zs ys ?s" using d(3) m by (simp add: counts_ok_def xs)
  moreover have "workers_ok {} ?own ?s" by (rule workers_own [OF d(4)]) (simp_all add: x)
  moreover have "manager_ok ?own ?s" using d(5) m t tok by (auto simp: manager_ok_def)
  moreover have "sems_ok ?own ?s" using d(6) x by (auto simp: sems_ok_def)
  ultimately have "inv_to NB own xs ys ?s" using q(2) d(5) m
    by (intro inv_toI [OF s_run [where a = x and xs = zs and ys = ys], folded xs]) (simp_all add: manager_ok_def)
  moreover have "manager_take (env s) = Inr (x, ?e)" using q(1) by (simp add: manager_take_def deref_def)
  ultimately show ?thesis by blast
qed

text \<open>The switch never finds a task it cannot run, and always enters the coroutine.\<close>

lemma m_switch_ok:
  assumes "tasks e a = Some t" and "todo_ok t"
  shows "\<exists>t' st. manager_switch sp a e = Inr (True, e\<lparr>tasks := (tasks e)(a \<mapsto> t'), stacks := st, curr_task_ptr := Some a\<rparr>) \<and>
    stack_ptr t' \<noteq> None \<and> action t' \<noteq> act_finished_coroutine"
proof (cases "action t = act_new_coroutine")
  case True
  then obtain x where "args t = Init_arg x" using assms(2) by (auto simp: todo_ok_def resumable_def)
  then show ?thesis using assms(1) True
    by (auto simp: manager_switch_def get_task_def upd_task_def transporter_def)
next
  case False
  then have r: "resumable (action t)" "stack_ptr t \<noteq> None" using assms(2) by (auto simp: todo_ok_def)
  have "e = e\<lparr>tasks := (tasks e)(a \<mapsto> t), stacks := stacks e\<rparr>" using assms(1) by (simp add: fun_upd_idem)
  moreover have "manager_switch sp a e = Inr (True, e\<lparr>curr_task_ptr := Some a\<rparr>)"
    using r(1) assms(1) by (auto simp: manager_switch_def get_task_def resumable_def)
  ultimately show ?thesis using r
    by (intro exI [of _ t] exI [of _ "stacks e"]) (auto simp: resumable_def)
qed

lemma m_switch_inv:
  assumes i: "inv_with NB {} own xs ys s" and m: "mpc s = M_switch a"
  shows "\<exists>b e. manager_switch sp a (env s) = Inr (b, e) \<and> inv_to NB own xs ys (s\<lparr>env := e, mpc := (if b then M_run a else M_wait)\<rparr>)"
proof -
  note d = inv_withD [OF i]
  from d(5) m obtain t where t: "tasks (env s) a = Some t" "todo_ok t" and r: "\<And>b. own b = O_running \<longleftrightarrow> b = a"
    by (auto simp: manager_ok_def)
  from m_switch_ok [OF t, of sp] obtain t' st where
    sw: "manager_switch sp a (env s) =
        Inr (True, (env s)\<lparr>tasks := (tasks (env s))(a \<mapsto> t'), stacks := st, curr_task_ptr := Some a\<rparr>)"
      "stack_ptr t' \<noteq> None" "action t' \<noteq> act_finished_coroutine" by blast
  let ?e = "(env s)\<lparr>tasks := (tasks (env s))(a \<mapsto> t'), stacks := st, curr_task_ptr := Some a\<rparr>"
  let ?s = "s\<lparr>env := ?e, mpc := M_run a\<rparr>"
  have ow: "own = own(a := O_running)" using r [of a] by (simp add: fun_upd_idem)
  have "queues_ok own xs ys ?e" using d(1) by (simp add: queues_ok_def)
  moreover have "owned_ok NB {} own ?e"
    by (subst ow, rule owned_upd [OF d(2)]) (auto simp: task_ok_def)
  moreover have "counts_ok xs ys ?s" using d(3) m by (simp add: counts_ok_def)
  moreover have "workers_ok {} own ?s" by (rule workers_same [OF d(4)]) simp_all
  moreover have "manager_ok own ?s" using r sw(2,3) by (auto simp: manager_ok_def)
  moreover have "sems_ok own ?s" using d(6) by (simp add: sems_ok_def)
  ultimately have "inv_to NB own xs ys ?s"by (intro inv_stay [of own xs ys]) simp_all
  with sw(1) show ?thesis by auto
qed

lemma m_back_inv:
  assumes i: "inv_with NB {} own xs ys s" and m: "mpc s = M_back a"
  shows "\<exists>e. manager_back a (env s) = Inr e \<and> inv_to NB own xs ys (s\<lparr>env := e, mpc := M_wait\<rparr>)"
proof -
  note d = inv_withD [OF i]
  from d(5) m obtain t where t: "tasks (env s) a = Some t" "curr_task_ptr (env s) = Some a"
    and r: "\<And>b. own b = O_running \<longleftrightarrow> b = a \<and> action t = act_finished_coroutine"
    and st: "action t = act_finished_coroutine \<Longrightarrow> stack_ptr t \<noteq> None"
    by (auto simp: manager_ok_def)
  show ?thesis
  proof (cases "action t = act_finished_coroutine")
    case False
    let ?s = "s\<lparr>mpc := M_wait\<rparr>"
    have "counts_ok xs ys ?s" using d(3) m by (simp add: counts_ok_def)
    moreover have "workers_ok {} own ?s" by (rule workers_same [OF d(4)]) simp_all
    moreover have "manager_ok own ?s" using r False by (simp add: manager_ok_def)
    moreover have "sems_ok own ?s" using d(6) by (simp add: sems_ok_def)
    ultimately have "inv_to NB own xs ys ?s" using d(1,2)
    by (intro inv_stay [of own xs ys]) simp_all
    moreover have "s\<lparr>env := env s, mpc := M_wait\<rparr> = ?s" by simp
    ultimately show ?thesis using False t by (auto simp: manager_back_def get_task_def)
  next
    case True
    from st [OF True] obtain sp where sp: "stack_ptr t = Some sp" by auto
    let ?e = "(env s)\<lparr>stacks := stacks (env s) - {sp}, tasks := (tasks (env s))(a := None), ran := ran (env s) + 1\<rparr>"
    let ?s = "s\<lparr>env := ?e, mpc := M_wait\<rparr>" and ?own = "own(a := O_none)"
    have a: "own a = O_running" using r True by simp
    have "queues_ok ?own xs ys ?e" using queues_own [OF d(1), of a O_none] a by (simp add: queues_ok_def)
    moreover have "owned_ok NB {} ?own ?e" using d(2) by (auto simp: owned_ok_def)
    moreover have "counts_ok xs ys ?s" using d(3) m by (simp add: counts_ok_def)
    moreover have "workers_ok {} ?own ?s" by (rule workers_own [OF d(4)]) (simp_all add: a)
    moreover have "manager_ok ?own ?s" using r by (simp add: manager_ok_def)
    moreover have "in_wait s a = None" using d(6) m a unfolding sems_ok_def by (metis not_None_eq)
    then have "sems_ok ?own ?s" using d(6) a unfolding sems_ok_def by auto
    ultimately have "inv_to NB own xs ys ?s" by (intro inv_toI [OF s_finish [of own a, OF a]]) simp_all
    moreover have "manager_back a (env s) = Inr ?e"
      using True t sp by (simp add: manager_back_def finish_coroutine_def get_task_def deref_def the_init_def)
    ultimately show ?thesis by blast
  qed
qed

section \<open>The steps of the running coroutine\<close>

lemma upd_curr_eq:
  "curr_task_ptr e = Some a \<Longrightarrow> tasks e a = Some t \<Longrightarrow> upd_curr f e = Inr (e\<lparr>tasks := (tasks e)(a \<mapsto> f t)\<rparr>)"
  by (simp add: upd_curr_def get_curr_def deref_def upd_task_def)

lemmas request_defs =
  coroutine_set_disk_open_def coroutine_set_disk_read_def coroutine_set_disk_write_def set_disk_io_def
  coroutine_set_sock_read_def coroutine_set_sock_write_def set_sock_io_def coroutine_set_sock_connect_def
  set_msleep_def set_bg_run_def set_accept_def

lemma request_updI:
  "request_ok NB (g t) \<Longrightarrow> stack_ptr (g t) = stack_ptr t \<Longrightarrow>
   \<exists>h. upd_curr g e = upd_curr h e \<and> request_ok NB (h t) \<and> stack_ptr (h t) = stack_ptr t"
  by blast

lemma is_request_upd:
  assumes "is_request NB f"
  shows "\<exists>g. f e = upd_curr g e \<and> request_ok NB (g t) \<and> stack_ptr (g t) = stack_ptr t"
  by (rule is_request.cases [OF assms]; hypsubst; unfold request_defs; rule request_updI)
    (simp_all add: request_ok_def sock_request_def)

lemma is_request_ok:
  assumes "is_request NB f" and "curr_task_ptr e = Some a" and "tasks e a = Some t"
  shows "\<exists>t'. f e = Inr (e\<lparr>tasks := (tasks e)(a \<mapsto> t')\<rparr>) \<and> request_ok NB t' \<and> stack_ptr t' = stack_ptr t"
  using is_request_upd [OF assms(1), of e t] upd_curr_eq [OF assms(2,3)] by auto

lemma running:
  assumes "manager_ok own s" and "mpc s = M_run a"
  obtains t where "\<And>b. own b = O_running \<longleftrightarrow> b = a" "curr_task_ptr (env s) = Some a" "tasks (env s) a = Some t"
    "stack_ptr t \<noteq> None" "action t \<noteq> act_finished_coroutine"
  using assms by (auto simp: manager_ok_def)

text \<open>Writing the task of the running coroutine.\<close>

lemma running_upd:
  assumes "queues_ok own xs ys e" and "owned_ok NB H own e" and "own a = O_running"
  shows "queues_ok own xs ys (e\<lparr>tasks := (tasks e)(a \<mapsto> t)\<rparr>)" "owned_ok NB H own (e\<lparr>tasks := (tasks e)(a \<mapsto> t)\<rparr>)"
proof -
  show "queues_ok own xs ys (e\<lparr>tasks := (tasks e)(a \<mapsto> t)\<rparr>)" using assms(1) by (simp add: queues_ok_def)
  show "owned_ok NB H own (e\<lparr>tasks := (tasks e)(a \<mapsto> t)\<rparr>)"
    using owned_upd [OF assms(2), of "e\<lparr>tasks := (tasks e)(a \<mapsto> t)\<rparr>" a t O_running H] assms(3)
    by (auto simp: task_ok_def fun_upd_idem)
qed

lemma not_waiting:
  "sems_ok own s \<Longrightarrow> in_wait s a = None \<Longrightarrow> own a = O_running \<Longrightarrow> ow \<noteq> O_sem \<Longrightarrow>
   sems s' = sems s \<Longrightarrow> in_wait s' = in_wait s \<Longrightarrow> (\<And>b. mpc s' = M_back b \<Longrightarrow> b = a) \<Longrightarrow>
   returned s' = (if ow = O_lost then insert a (returned s) else returned s) \<Longrightarrow> sems_ok (own(a := ow)) s'"
  unfolding sems_ok_def by auto

lemma c_request_inv:
  assumes i: "inv_with NB {} own xs ys s" and m: "mpc s = M_run a" and w: "in_wait s a = None" and f: "is_request NB f"
  shows "\<exists>e. bind_res (f (env s)) (notify_push Manager) = Inr e \<and> inv_to NB own xs ys (s\<lparr>env := e, mpc := M_write a\<rparr>)"
proof -
  note d = inv_withD [OF i]
  obtain t where r: "\<And>b. own b = O_running \<longleftrightarrow> b = a" "curr_task_ptr (env s) = Some a" "tasks (env s) a = Some t"
    "stack_ptr t \<noteq> None" using running [OF d(5) m] by metis
  from is_request_ok [OF f r(2,3)] obtain t' where t': "f (env s) = Inr ((env s)\<lparr>tasks := (tasks (env s))(a \<mapsto> t')\<rparr>)"
    "request_ok NB t'" "stack_ptr t' = stack_ptr t" by blast
  let ?e1 = "(env s)\<lparr>tasks := (tasks (env s))(a \<mapsto> t')\<rparr>"
  have oa: "own a = O_running" using r(1) by simp
  note u = running_upd [OF d(1,2) oa, of t']
  from push_doing_ok [OF u, of a] oa obtain nx q where
    p: "Push_doing a ?e1 = Inr (?e1\<lparr>nxt := nx, doing_queue := q\<rparr>)"
      "queues_ok (own(a := O_doing)) xs (ys @ [a]) (?e1\<lparr>nxt := nx, doing_queue := q\<rparr>)" by auto
  let ?e = "?e1\<lparr>nxt := nx, doing_queue := q\<rparr>"
  let ?s = "s\<lparr>env := ?e, mpc := M_write a\<rparr>" and ?own = "own(a := O_doing)"
  have "owned_ok NB {} ?own ?e"
    by (rule owned_upd [OF d(2)]) (use t'(2,3) r(4) in \<open>auto simp: task_ok_def\<close>)
  moreover have "counts_ok xs (ys @ [a]) ?s" using d(3) m by (simp add: counts_ok_def)
  moreover have "workers_ok {} ?own ?s" by (rule workers_own [OF d(4)]) (simp_all add: oa)
  moreover have "manager_ok ?own ?s" using r(1,2) by (simp add: manager_ok_def)
  moreover have "sems_ok ?own ?s" by (rule not_waiting [OF d(6) w oa]) simp_all
  ultimately have "inv_to NB own xs ys ?s" using p(2) by (intro inv_toI [OF s_request [of own a, OF oa]]) simp_all
  with t'(1) p(1) r(2) show ?thesis by (simp add: notify_push_def get_curr_def deref_def)
qed

lemma pipe_sum:
  fixes p :: "nat \<Rightarrow> 'a list"
  assumes "k < n"
  shows "(\<Sum>i<n. length ((p(k := q)) i)) + length (p k) = (\<Sum>i<n. length (p i)) + length q"
proof -
  have "(\<Sum>i<n. length (p i)) = length (p k) + (\<Sum>i\<in>{..<n} - {k}. length (p i))"
    using assms by (simp add: sum.remove)
  moreover have "(\<Sum>i<n. length ((p(k := q)) i)) = length q + (\<Sum>i\<in>{..<n} - {k}. length ((p(k := q)) i))"
    using assms by (simp add: sum.remove)
  moreover have "(\<Sum>i\<in>{..<n} - {k}. length ((p(k := q)) i)) = (\<Sum>i\<in>{..<n} - {k}. length (p i))"
    by (rule sum.cong) auto
  ultimately show ?thesis by simp
qed

lemma loop_okay_bytes: "loop_okay H own i bs l \<Longrightarrow> (bs \<noteq> [] \<Longrightarrow> bs' \<noteq> []) \<Longrightarrow> loop_okay H own i bs' l"
  unfolding loop_okay_def by blast

lemma workers_pipe:
  assumes "workers_ok H own s" and "wpc s' = wpc s" and "wcount s' = wcount s"
    and "worker_ev (env s') = worker_ev (env s)"
    and "\<And>i. pipe_channel (env s) i \<noteq> [] \<Longrightarrow> pipe_channel (env s') i \<noteq> []"
  shows "workers_ok H own s'"
  using assms(1) loop_okay_bytes [OF _ assms(5)] unfolding workers_ok_def assms(2-4) by blast

lemma c_write_inv:
  assumes i: "inv_with NB {} own xs ys s" and m: "mpc s = M_write a"
    and cap: "length (pipe_channel (env s) (next_worker (env s))) < PIPE_CAPACITY"
  shows "\<exists>e. notify_write (env s) = Inr e \<and> inv_to NB own xs ys (s\<lparr>env := e, mpc := M_swap a\<rparr>)"
proof -
  note d = inv_withD [OF i]
  let ?k = "next_worker (env s)" and ?p = "pipe_channel (env s)"
  let ?e = "(env s)\<lparr>bg_worker_id := bg_worker_id (env s) + 1, pipe_channel := ?p(?k := ?p ?k @ [0xee])\<rparr>"
  let ?s = "s\<lparr>env := ?e, mpc := M_swap a\<rparr>"
  have k: "?k < wcount s" using d(3) by (simp add: next_worker_def counts_ok_def)
  have "queues_ok own xs ys ?e" using d(1) by (simp add: queues_ok_def)
  moreover have "owned_ok NB {} own ?e" by (rule owned_same [OF d(2)]) simp_all
  moreover have "counts_ok xs ys ?s"
    using d(3) m pipe_sum [OF k, of ?p "?p ?k @ [0xee]"] by (auto simp: counts_ok_def)
  moreover have "workers_ok {} own ?s" by (rule workers_pipe [OF d(4)]) simp_all
  moreover have "manager_ok own ?s" using d(5) m by (simp add: manager_ok_def)
  moreover have "sems_ok own ?s" using d(6) by (simp add: sems_ok_def)
  ultimately have "inv_to NB own xs ys ?s" by (intro inv_stay [of own xs ys]) simp_all
  moreover have "notify_write (env s) = Inr ?e" using cap by (simp add: notify_write_def pipe_write_def)
  ultimately show ?thesis by auto
qed

text \<open>Saving the context of a task, wherever the task is by then, keeps the invariant.\<close>

lemma task_ok_context [simp]:
  "task_ok NB loops ow a (t\<lparr>task_context := c\<rparr>) = task_ok NB loops ow a t"
proof -
  have "request_ok NB (t\<lparr>task_context := c\<rparr>) = request_ok NB t"
    by (cases "action t") (simp_all add: request_ok_def sock_request_def)
  moreover have "parked_ok NB l a (t\<lparr>task_context := c\<rparr>) = parked_ok NB l a t" for l
    by (cases "action t") (simp_all add: parked_ok_def parked_conf_def sock_parked_def)
  ultimately show ?thesis by (cases ow) (simp_all add: task_ok_def todo_ok_def)
qed

lemma swap_out_parts:
  assumes "curr_task_ptr e = Some a" and "tasks e a = Some t" and "queues_ok own xs ys e" and "owned_ok NB {} own e"
  shows "\<exists>e'. swap_out e = Inr e' \<and> e' = e\<lparr>tasks := (tasks e)(a \<mapsto> t\<lparr>task_context := Ctx_saved\<rparr>)\<rparr> \<and>
    queues_ok own xs ys e' \<and> owned_ok NB {} own e'"
  using assms upd_curr_eq [OF assms(1,2), of "\<lambda>t. t\<lparr>task_context := Ctx_saved\<rparr>"]
  by (auto simp: swap_out_def queues_ok_def owned_ok_def)

lemma c_swap_inv:
  assumes i: "inv_with NB {} own xs ys s" and m: "mpc s = M_swap a"
  shows "\<exists>e. swap_out (env s) = Inr e \<and> inv_to NB own xs ys (s\<lparr>env := e, mpc := M_back a\<rparr>)"
proof -
  note d = inv_withD [OF i]
  have r: "\<And>b. own b \<noteq> O_running" "curr_task_ptr (env s) = Some a" "own a \<noteq> O_none"
    using d(5) m by (auto simp: manager_ok_def)
  obtain t where t: "tasks (env s) a = Some t" using owned_task [OF d(2) r(3)] by blast
  have nf: "action t \<noteq> act_finished_coroutine" using not_finished [OF d(2) _ t] r(1) by simp
  from swap_out_parts [OF r(2) t d(1,2)] obtain e where e: "swap_out (env s) = Inr e"
    "e = (env s)\<lparr>tasks := (tasks (env s))(a \<mapsto> t\<lparr>task_context := Ctx_saved\<rparr>)\<rparr>"
    "queues_ok own xs ys e" "owned_ok NB {} own e" by blast
  let ?s = "s\<lparr>env := e, mpc := M_back a\<rparr>"
  have "counts_ok xs ys ?s" using d(3) m by (simp add: counts_ok_def e(2))
  moreover have "workers_ok {} own ?s" by (rule workers_same [OF d(4)]) (simp_all add: e(2))
  moreover have "manager_ok own ?s" using r nf by (simp add: manager_ok_def e(2))
  moreover have "sems_ok own ?s" using d(6) r(1) by (simp add: sems_ok_def)
  ultimately have "inv_to NB own xs ys ?s" using e(3,4) by (intro inv_stay [of own xs ys]) simp_all
  with e(1) show ?thesis by blast
qed

lemma c_exit_inv:
  assumes i: "inv_with NB {} own xs ys s" and m: "mpc s = M_run a" and w: "in_wait s a = None"
  shows "\<exists>e. crt_exit (env s) = Inr e \<and> inv_to NB own xs ys (s\<lparr>env := e, mpc := M_back a\<rparr>)"
proof -
  note d = inv_withD [OF i]
  obtain t where r: "\<And>b. own b = O_running \<longleftrightarrow> b = a" "curr_task_ptr (env s) = Some a" "tasks (env s) a = Some t"
    "stack_ptr t \<noteq> None" using running [OF d(5) m] by metis
  let ?e = "(env s)\<lparr>tasks := (tasks (env s))(a \<mapsto> t\<lparr>action := act_finished_coroutine\<rparr>)\<rparr>"
  let ?s = "s\<lparr>env := ?e, mpc := M_back a\<rparr>"
  note u = running_upd [OF d(1,2), of a "t\<lparr>action := act_finished_coroutine\<rparr>"]
  have "counts_ok xs ys ?s" using d(3) m by (simp add: counts_ok_def)
  moreover have "workers_ok {} own ?s" by (rule workers_same [OF d(4)]) simp_all
  moreover have "manager_ok own ?s" using r by (simp add: manager_ok_def)
  moreover have "sems_ok own ?s" using d(6) w by (simp add: sems_ok_def)
  ultimately have "inv_to NB own xs ys ?s" using u r(1) by (intro inv_stay [of own xs ys]) simp_all
  moreover have "crt_exit (env s) = Inr ?e"
    using upd_curr_eq [OF r(2,3)] by (simp add: crt_exit_def coroutine_set_finished_coroutine_def)
  ultimately show ?thesis by blast
qed

lemma c_return_inv:
  assumes i: "inv_with NB {} own xs ys s" and m: "mpc s = M_run a" and w: "in_wait s a = None"
  shows "inv_to NB own xs ys (s\<lparr>mpc := M_back a, returned := insert a (returned s)\<rparr>)"
proof -
  note d = inv_withD [OF i]
  obtain t where r: "\<And>b. own b = O_running \<longleftrightarrow> b = a" "curr_task_ptr (env s) = Some a" "tasks (env s) a = Some t"
    "action t \<noteq> act_finished_coroutine" using running [OF d(5) m] by metis
  let ?s = "s\<lparr>mpc := M_back a, returned := insert a (returned s)\<rparr>" and ?own = "own(a := O_lost)"
  have oa: "own a = O_running" using r(1) by simp
  have "queues_ok ?own xs ys (env s)" by (rule queues_own [OF d(1)]) (simp_all add: oa)
  moreover have "owned_ok NB {} ?own (env s)" using d(2) r(3,4) by (auto simp: owned_ok_def task_ok_def)
  moreover have "counts_ok xs ys ?s" using d(3) m by (simp add: counts_ok_def)
  moreover have "workers_ok {} ?own ?s" by (rule workers_own [OF d(4)]) (simp_all add: oa)
  moreover have "manager_ok ?own ?s" using r by (simp add: manager_ok_def)
  moreover have "sems_ok ?own ?s" by (rule not_waiting [OF d(6) w oa]) simp_all
  ultimately show ?thesis by (intro inv_toI [OF s_return [of own a, OF oa]]) simp_all
qed

lemma c_yield_inv:
  assumes i: "inv_with NB {} own xs ys s" and m: "mpc s = M_run a" and w: "in_wait s a = None"
  shows "\<exists>e. crt_sched_yield (env s) = Inr e \<and> inv_to NB own xs ys (s\<lparr>env := e, mpc := M_back a\<rparr>)"
proof -
  note d = inv_withD [OF i]
  obtain t where r: "\<And>b. own b = O_running \<longleftrightarrow> b = a" "curr_task_ptr (env s) = Some a" "tasks (env s) a = Some t"
    "stack_ptr t \<noteq> None" using running [OF d(5) m] by metis
  let ?t = "t\<lparr>action := act_sched_yield\<rparr>"
  let ?e1 = "(env s)\<lparr>tasks := (tasks (env s))(a \<mapsto> ?t)\<rparr>" and ?own = "own(a := O_todo)"
  have oa: "own a = O_running" using r(1) by simp
  note u = running_upd [OF d(1,2) oa, of ?t]
  from push_todo_ok [OF u, of a] oa obtain nx q where
    p: "Push_todo a ?e1 = Inr (?e1\<lparr>nxt := nx, todo_queue := q\<rparr>)"
      "queues_ok ?own (xs @ [a]) ys (?e1\<lparr>nxt := nx, todo_queue := q\<rparr>)" by auto
  let ?e2 = "sem_post_manager (?e1\<lparr>nxt := nx, todo_queue := q\<rparr>)"
  have q2: "queues_ok ?own (xs @ [a]) ys ?e2" using p(2) by (simp add: queues_ok_def sem_post_manager_def)
  have o2: "owned_ok NB {} ?own ?e2"
    by (rule owned_upd [OF d(2), of _ a ?t]) (use r(4) in \<open>auto simp: sem_post_manager_def task_ok_def todo_ok_def resumable_def\<close>)
  have "curr_task_ptr ?e2 = Some a" "tasks ?e2 a = Some ?t" using r(2) by (simp_all add: sem_post_manager_def)
  from swap_out_parts [OF this q2 o2] obtain e where e: "swap_out ?e2 = Inr e"
    "e = ?e2\<lparr>tasks := (tasks ?e2)(a \<mapsto> ?t\<lparr>task_context := Ctx_saved\<rparr>)\<rparr>" "queues_ok ?own (xs @ [a]) ys e" "owned_ok NB {} ?own e" by blast
  let ?s = "s\<lparr>env := e, mpc := M_back a\<rparr>"
  have "counts_ok (xs @ [a]) ys ?s" using d(3) m by (simp add: counts_ok_def e(2) sem_post_manager_def)
  moreover have "workers_ok {} ?own ?s" by (rule workers_own [OF d(4)]) (simp_all add: oa e(2) sem_post_manager_def)
  moreover have "manager_ok ?own ?s" using r(1,2) by (simp add: manager_ok_def e(2) sem_post_manager_def)
  moreover have "sems_ok ?own ?s" by (rule not_waiting [OF d(6) w oa]) simp_all
  ultimately have "inv_to NB own xs ys ?s" using e(3,4) by (intro inv_toI [OF s_yield [of own a, OF oa]]) simp_all
  moreover have "crt_sched_yield (env s) = Inr e"
    using upd_curr_eq [OF r(2,3)] r(2) p(1) e(1) by (simp add: crt_sched_yield_def get_curr_def deref_def)
  ultimately show ?thesis by blast
qed

section \<open>Creating coroutines\<close>

lemma create_push_ok:
  assumes q: "queues_ok own xs ys e" and w: "owned_ok NB {} own e" and b: "tasks e b = None"
  shows "\<exists>id t nx q. create_push (Some (b, junk)) attr br x e =
      Inr (id, e\<lparr>cid := cid e + 1, tasks := (tasks e)(b \<mapsto> t), nxt := nx, todo_queue := q\<rparr>) \<and>
    queues_ok (own(b := O_todo)) (xs @ [b]) ys
      (e\<lparr>cid := cid e + 1, tasks := (tasks e)(b \<mapsto> t), nxt := nx, todo_queue := q\<rparr>) \<and> todo_ok t"
proof -
  let ?size = "case attr of None \<Rightarrow> COROUTINE_STACK_SIZE | Some s \<Rightarrow> if s \<noteq> 0 then s else COROUTINE_STACK_SIZE"
  let ?t = "junk\<lparr>ret_val := None, ret_err_code := None, task_context := Ctx_none, stack_ptr := None,
    action := act_new_coroutine, args := Init_arg \<lparr>func = br, stack_size = ?size, func_arg = x\<rparr>\<rparr>"
  let ?e2 = "e\<lparr>cid := cid e + 1, tasks := (tasks e)(b \<mapsto> ?t)\<rparr>" and ?own = "own(b := O_lost)"
  have n: "own b = O_none" using w b by (simp add: owned_ok_def)
  have "queues_ok ?own xs ys e" by (rule queues_own [OF q]) (simp_all add: n)
  then have q2: "queues_ok ?own xs ys ?e2" by (simp add: queues_ok_def)
  have w2: "owned_ok NB {b} ?own ?e2" by (rule owned_upd [OF w]) auto
  from push_todo_ok [OF q2 w2, of b] obtain nx h where
    p: "Push_todo b ?e2 = Inr (?e2\<lparr>nxt := nx, todo_queue := h\<rparr>)"
      "queues_ok (own(b := O_todo)) (xs @ [b]) ys (?e2\<lparr>nxt := nx, todo_queue := h\<rparr>)" by auto
  have "todo_ok ?t" by (simp add: todo_ok_def)
  with p show ?thesis by (auto simp: create_push_def Let_def)
qed

lemma create_others:
  assumes d: "inv_with NB {} own xs ys s" and b: "tasks (env s) b = None" and t: "todo_ok t"
    and e: "e = (env s)\<lparr>cid := c, tasks := (tasks (env s))(b \<mapsto> t), nxt := nx, todo_queue := q, manager_sem := n\<rparr>"
    and s': "env s' = e" "mpc s' = mpc s" "wpc s' = wpc s" "sems s' = sems s" "in_wait s' = in_wait s"
      "returned s' = returned s"
  shows "owned_ok NB {} (own(b := O_todo)) e" "workers_ok {} (own(b := O_todo)) s'" "manager_ok (own(b := O_todo)) s'"
    "sems_ok (own(b := O_todo)) s'"
proof -
  note d = inv_withD [OF d]
  have n: "own b = O_none" using d(2) b by (simp add: owned_ok_def)
  show "owned_ok NB {} (own(b := O_todo)) e"
    by (rule owned_upd [OF d(2)]) (use t in \<open>auto simp: e task_ok_def\<close>)
  show "workers_ok {} (own(b := O_todo)) s'" by (rule workers_own [OF d(4)]) (simp_all add: n s' e)
  show "manager_ok (own(b := O_todo)) s'"
  proof (rule manager_other [OF d(5)])
    show "\<And>c t. own c \<noteq> O_running \<Longrightarrow> tasks (env s) c = Some t \<Longrightarrow> action t \<noteq> act_finished_coroutine \<Longrightarrow>
      \<exists>t'. tasks (env s') c = Some t' \<and> action t' \<noteq> act_finished_coroutine" using b by (auto simp: s' e)
  qed (use n in \<open>auto simp: s' e\<close>)
  have "in_wait s b = None" using in_wait_own [OF d(6), of b] n by (cases "in_wait s b") auto
  then show "sems_ok (own(b := O_todo)) s'" using d(6) n s' unfolding sems_ok_def by auto
qed

lemma c_create_inv:
  assumes i: "inv_with NB {} own xs ys s" and m: "mpc s = M_run a" and b: "tasks (env s) b = None"
  shows "\<exists>id e. crt_create (Some (b, junk)) attr br x (env s) = Inr (id, e) \<and> inv_to NB own xs ys (s\<lparr>env := e\<rparr>)"
proof -
  note d = inv_withD [OF i]
  have n: "own b = O_none" using d(2) b by (simp add: owned_ok_def)
  from create_push_ok [OF d(1,2) b, of junk attr br x] obtain id t nx q where
    p: "create_push (Some (b, junk)) attr br x (env s) =
        Inr (id, (env s)\<lparr>cid := cid (env s) + 1, tasks := (tasks (env s))(b \<mapsto> t), nxt := nx, todo_queue := q\<rparr>)"
      "queues_ok (own(b := O_todo)) (xs @ [b]) ys
        ((env s)\<lparr>cid := cid (env s) + 1, tasks := (tasks (env s))(b \<mapsto> t), nxt := nx, todo_queue := q\<rparr>)" "todo_ok t" by blast
  let ?e = "(env s)\<lparr>cid := cid (env s) + 1, tasks := (tasks (env s))(b \<mapsto> t), nxt := nx, todo_queue := q,
    manager_sem := manager_sem (env s) + 1\<rparr>" and ?own = "own(b := O_todo)"
  let ?s = "s\<lparr>env := ?e\<rparr>"
  note o = create_others [OF i b p(3) refl, of ?s]
  have "queues_ok ?own (xs @ [b]) ys ?e" using p(2) by (simp add: queues_ok_def)
  moreover have "counts_ok (xs @ [b]) ys ?s" using d(3) m by (simp add: counts_ok_def)
  ultimately have "inv_to NB own xs ys ?s" using o by (intro inv_toI [OF s_create [of own b, OF n]]) simp_all
  moreover have "crt_create (Some (b, junk)) attr br x (env s) = Inr (id, ?e)"
    using p(1) by (simp add: crt_create_def sem_post_manager_def)
  ultimately show ?thesis by blast
qed

lemma f_create_inv:
  assumes i: "inv_with NB {} own xs ys s" and b: "tasks (env s) b = None"
  shows "\<exists>id e. create_push (Some (b, junk)) attr br x (env s) = Inr (id, e) \<and>
    inv_to NB own xs ys (s\<lparr>env := e, creators := creators s + 1\<rparr>)"
proof -
  note d = inv_withD [OF i]
  have n: "own b = O_none" using d(2) b by (simp add: owned_ok_def)
  from create_push_ok [OF d(1,2) b, of junk attr br x] obtain id t nx q where
    p: "create_push (Some (b, junk)) attr br x (env s) =
        Inr (id, (env s)\<lparr>cid := cid (env s) + 1, tasks := (tasks (env s))(b \<mapsto> t), nxt := nx, todo_queue := q\<rparr>)"
      "queues_ok (own(b := O_todo)) (xs @ [b]) ys
        ((env s)\<lparr>cid := cid (env s) + 1, tasks := (tasks (env s))(b \<mapsto> t), nxt := nx, todo_queue := q\<rparr>)" "todo_ok t" by blast
  let ?e = "(env s)\<lparr>cid := cid (env s) + 1, tasks := (tasks (env s))(b \<mapsto> t), nxt := nx, todo_queue := q\<rparr>"
  let ?own = "own(b := O_todo)" and ?s = "s\<lparr>env := ?e, creators := creators s + 1\<rparr>"
  have e: "?e = (env s)\<lparr>cid := cid (env s) + 1, tasks := (tasks (env s))(b \<mapsto> t), nxt := nx, todo_queue := q,
    manager_sem := manager_sem (env s)\<rparr>" by simp
  note o = create_others [OF i b p(3) e, of ?s]
  have "counts_ok (xs @ [b]) ys ?s" using d(3) by (simp add: counts_ok_def)
  then have "inv_to NB own xs ys ?s" using o p(2) by (intro inv_toI [OF s_create [of own b, OF n]]) simp_all
  with p(1) show ?thesis by blast
qed

lemma f_post_inv:
  assumes i: "inv_with NB {} own xs ys s" and c: "0 < creators s"
  shows "inv_to NB own xs ys (s\<lparr>env := sem_post_manager (env s), creators := creators s - 1\<rparr>)"
proof -
  note d = inv_withD [OF i]
  let ?s = "s\<lparr>env := sem_post_manager (env s), creators := creators s - 1\<rparr>"
  have "queues_ok own xs ys (env ?s)" using d(1) by (simp add: queues_ok_def sem_post_manager_def)
  moreover have "owned_ok NB {} own (env ?s)" by (rule owned_same [OF d(2)]) (simp_all add: sem_post_manager_def)
  moreover have "counts_ok xs ys ?s" using d(3) c by (simp add: counts_ok_def sem_post_manager_def)
  moreover have "workers_ok {} own ?s" by (rule workers_same [OF d(4)]) (simp_all add: sem_post_manager_def)
  moreover have "manager_ok own ?s" by (rule manager_other [OF d(5)]) (simp_all add: sem_post_manager_def)
  moreover have "sems_ok own ?s" using d(6) by (simp add: sems_ok_def)
  ultimately show ?thesis by (rule inv_stay)
qed

section \<open>Semaphores\<close>

lemma sem_ptrD:
  assumes "sems_ok own s" and "sem_task_ptr (sems s k) = Some b"
  shows "in_wait s b = Some k" "sem_value (sems s k) = 0 \<Longrightarrow> own b = O_sem"
  using assms unfolding sems_ok_def by blast+

lemma c_sem_init_inv:
  assumes i: "inv_with NB {} own xs ys s" and k: "sem_task_ptr (sems s k) = None" and v: "0 \<le> sint v"
  shows "inv_to NB own xs ys (s\<lparr>sems := (sems s)(k := crt_sem_init v)\<rparr>)"
proof -
  note d = inv_withD [OF i]
  let ?s = "s\<lparr>sems := (sems s)(k := crt_sem_init v)\<rparr>"
  have "queues_ok own xs ys (env ?s)" "owned_ok NB {} own (env ?s)" using d(1,2) by simp_all
  moreover have "counts_ok xs ys ?s" using d(3) by (simp add: counts_ok_def)
  moreover have "workers_ok {} own ?s" by (rule workers_same [OF d(4)]) simp_all
  moreover have "manager_ok own ?s" by (rule manager_other [OF d(5)]) simp_all
  moreover have "sems_ok own ?s"
    using d(6) k v unfolding sems_ok_def crt_sem_init_def by (auto; metis option.distinct(1))
  ultimately show ?thesis by (rule inv_stay)
qed

text \<open>Waking the coroutine that waits: its task goes from the semaphore to the queue.\<close>

lemma sem_wake_inv:
  assumes i: "inv_with NB {} own xs ys s" and m: "mpc s = M_run a"
    and k: "sem_task_ptr (sems s k) = Some b" "sem_value (sems s k) \<le> 0"
    and push: "\<And>e. queues_ok own xs ys e \<Longrightarrow> owned_ok NB {} own e \<Longrightarrow>
      \<exists>nx q. push b e = Inr (e\<lparr>nxt := nx, todo_queue := q\<rparr>) \<and> queues_ok (own(b := O_todo)) zs ys (e\<lparr>nxt := nx, todo_queue := q\<rparr>)"
    and zs: "zs \<in> {xs @ [b], b # xs}"
  shows "\<exists>e1 e2. upd_task b (\<lambda>t. t\<lparr>action := act_sem_activation\<rparr>) (env s) = Inr e1 \<and> push b e1 = Inr e2 \<and>
    inv_to NB own xs ys (s\<lparr>env := sem_post_manager e2, sems := (sems s)(k := (sems s k)\<lparr>sem_value := 1\<rparr>)\<rparr>)"
proof -
  note d = inv_withD [OF i]
  have run: "own a = O_running" using d(5) m by (simp add: manager_ok_def)
  have v0: "sem_value (sems s k) = 0" using k(2) d(6) unfolding sems_ok_def by (metis order_antisym)
  note ob = sem_ptrD(2) [OF d(6) k(1) v0] sem_ptrD(1) [OF d(6) k(1)]
  obtain t where t: "tasks (env s) b = Some t" "task_ok NB (worker_ev (env s)) (own b) b t"
    using owned_task [OF d(2), of b] ob(1) by (metis empty_iff owner.distinct(11))
  then have st: "stack_ptr t \<noteq> None" using ob(1) by (simp add: task_ok_def)
  let ?t = "t\<lparr>action := act_sem_activation\<rparr>"
  let ?e1 = "(env s)\<lparr>tasks := (tasks (env s))(b \<mapsto> ?t)\<rparr>" and ?own = "own(b := O_todo)"
  have q1: "queues_ok own xs ys ?e1" using d(1) by (simp add: queues_ok_def)
  have "owned_ok NB {} (own(b := O_sem)) ?e1"
    by (rule owned_upd [OF d(2)]) (use st in \<open>auto simp: task_ok_def\<close>)
  then have o1: "owned_ok NB {} own ?e1" using ob(1) by (simp add: fun_upd_idem)
  from push [OF q1 o1] obtain nx q where p: "push b ?e1 = Inr (?e1\<lparr>nxt := nx, todo_queue := q\<rparr>)"
    "queues_ok ?own zs ys (?e1\<lparr>nxt := nx, todo_queue := q\<rparr>)" by blast
  let ?e = "sem_post_manager (?e1\<lparr>nxt := nx, todo_queue := q\<rparr>)"
  let ?s = "s\<lparr>env := ?e, sems := (sems s)(k := (sems s k)\<lparr>sem_value := 1\<rparr>)\<rparr>"
  have "queues_ok ?own zs ys (env ?s)" using p(2) by (simp add: queues_ok_def sem_post_manager_def)
  moreover have "owned_ok NB {} ?own (env ?s)"
    by (rule owned_upd [OF d(2), of _ b ?t])
      (use st in \<open>auto simp: sem_post_manager_def task_ok_def todo_ok_def resumable_def\<close>)
  moreover have "counts_ok zs ys ?s" using d(3) m zs by (auto simp: counts_ok_def sem_post_manager_def)
  moreover have "workers_ok {} ?own ?s" by (rule workers_own [OF d(4)]) (simp_all add: ob sem_post_manager_def)
  moreover have "manager_ok ?own ?s"
    by (rule manager_other [OF d(5)]) (use ob(1) in \<open>auto simp: sem_post_manager_def\<close>)
  moreover have "sems_ok ?own ?s" using d(6) k(1) ob m unfolding sems_ok_def by (auto; metis option.inject)
  ultimately have "inv_to NB own xs ys ?s" by (rule inv_toI [OF s_wake [of own a b, OF run ob(1) zs]])
  with p(1) t(1) show ?thesis by (auto simp: upd_task_def)
qed

lemma sem_inc_inv:
  assumes i: "inv_with NB {} own xs ys s" and k: "sem_task_ptr (sems s k) = None"
  shows "inv_to NB own xs ys (s\<lparr>sems := (sems s)(k := (sems s k)\<lparr>sem_value := sem_value (sems s k) + 1\<rparr>)\<rparr>)"
proof -
  note d = inv_withD [OF i]
  let ?s = "s\<lparr>sems := (sems s)(k := (sems s k)\<lparr>sem_value := sem_value (sems s k) + 1\<rparr>)\<rparr>"
  have "queues_ok own xs ys (env ?s)" "owned_ok NB {} own (env ?s)" using d(1,2) by simp_all
  moreover have "counts_ok xs ys ?s" using d(3) by (simp add: counts_ok_def)
  moreover have "workers_ok {} own ?s" by (rule workers_same [OF d(4)]) simp_all
  moreover have "manager_ok own ?s" by (rule manager_other [OF d(5)]) simp_all
  moreover have "sems_ok own ?s"
  proof -
    have "0 \<le> sem_value (sems s k)" using d(6) by (simp add: sems_ok_def)
    then show ?thesis using d(6) k unfolding sems_ok_def by (auto; metis option.distinct(1))
  qed
  ultimately show ?thesis by (rule inv_stay)
qed

lemma c_sem_post_inv:
  assumes i: "inv_with NB {} own xs ys s" and m: "mpc s = M_run a" and f: "flag \<in> {0, 2}"
    and mx: "sem_value (sems s k) < 2147483647" and k: "sem_task_ptr (sems s k) \<noteq> None \<longrightarrow> sem_value (sems s k) \<le> 0"
  shows "\<exists>sm e. crt_sem_priority_post flag (sems s k) (env s) = Inr (sm, e) \<and>
    inv_to NB own xs ys (s\<lparr>env := e, sems := (sems s)(k := sm)\<rparr>)"
proof -
  note d = inv_withD [OF i]
  have v: "0 \<le> sem_value (sems s k)" using d(6) by (simp add: sems_ok_def)
  then have inc: "to_int (sem_value (sems s k) + 1) = sem_value (sems s k) + 1" using mx by simp
  show ?thesis
  proof (cases "sem_task_ptr (sems s k)")
    case None
    let ?sm = "(sems s k)\<lparr>sem_value := sem_value (sems s k) + 1\<rparr>"
    have "crt_sem_priority_post flag (sems s k) (env s) = Inr (?sm, env s)"
      using None f inc by (cases "flag = 0") (simp_all add: crt_sem_priority_post_def crt_sem_post_def Let_def)
    moreover have "inv_to NB own xs ys (s\<lparr>env := env s, sems := (sems s)(k := ?sm)\<rparr>)" using sem_inc_inv [OF i None] by simp
    ultimately show ?thesis by blast
  next
    case (Some b)
    then have k0: "sem_value (sems s k) \<le> 0" using k by simp
    then have v1: "sem_value (sems s k) + 1 = 1" using v by simp
    have ob: "own b = O_sem" using sem_ptrD(2) [OF d(6) Some] k0 v by simp
    show ?thesis
    proof (cases "flag = 0")
      case True
      from sem_wake_inv [OF i m Some k0, of Push_todo "xs @ [b]"] push_todo_ok [of own xs ys _ NB "{}" b] ob
      obtain e1 e2 where "upd_task b (\<lambda>t. t\<lparr>action := act_sem_activation\<rparr>) (env s) = Inr e1" "Push_todo b e1 = Inr e2"
        "inv_to NB own xs ys (s\<lparr>env := sem_post_manager e2, sems := (sems s)(k := (sems s k)\<lparr>sem_value := 1\<rparr>)\<rparr>)" by auto
      then show ?thesis using True Some inc v1 by (simp add: crt_sem_priority_post_def crt_sem_post_def Let_def)
    next
      case False
      then have "flag = 2" using f by simp
      from sem_wake_inv [OF i m Some k0, of Unshift_todo "b # xs"] unshift_todo_ok [of own xs ys _ NB "{}" b] ob
      obtain e1 e2 where "upd_task b (\<lambda>t. t\<lparr>action := act_sem_activation\<rparr>) (env s) = Inr e1" "Unshift_todo b e1 = Inr e2"
        "inv_to NB own xs ys (s\<lparr>env := sem_post_manager e2, sems := (sems s)(k := (sems s k)\<lparr>sem_value := 1\<rparr>)\<rparr>)" by auto
      then show ?thesis using \<open>flag = 2\<close> Some inc v1 by (simp add: crt_sem_priority_post_def Let_def)
    qed
  qed
qed

lemma c_sem_wait_inv:
  assumes i: "inv_with NB {} own xs ys s" and m: "mpc s = M_run a" and w: "in_wait s a \<in> {None, Some k}"
    and k: "sem_value (sems s k) > 0 \<or> sem_task_ptr (sems s k) \<in> {None, Some a}"
  shows "\<exists>ret sm e. crt_sem_wait (sems s k) (env s) = Inr (ret, sm, e) \<and>
    inv_to NB own xs ys (s\<lparr>env := e, sems := (sems s)(k := sm), in_wait := (in_wait s)(a := if ret then None else Some k),
      mpc := (if ret then M_run a else M_back a)\<rparr>)"
proof -
  note d = inv_withD [OF i]
  obtain t where r: "\<And>b. own b = O_running \<longleftrightarrow> b = a" "curr_task_ptr (env s) = Some a" "tasks (env s) a = Some t"
    "stack_ptr t \<noteq> None" "action t \<noteq> act_finished_coroutine" using running [OF d(5) m] by metis
  have oa: "own a = O_running" using r(1) by simp
  show ?thesis
  proof (cases "sem_value (sems s k) > 0")
    case True
    let ?sm = "(sems s k)\<lparr>sem_task_ptr := None, sem_value := sem_value (sems s k) - 1\<rparr>"
    let ?s = "s\<lparr>sems := (sems s)(k := ?sm), in_wait := (in_wait s)(a := None), mpc := M_run a\<rparr>"
    have "queues_ok own xs ys (env ?s)" "owned_ok NB {} own (env ?s)" using d(1,2) by simp_all
    moreover have "counts_ok xs ys ?s" using d(3) m by (simp add: counts_ok_def)
    moreover have "workers_ok {} own ?s" by (rule workers_same [OF d(4)]) simp_all
    moreover have "manager_ok own ?s" by (rule manager_other [OF d(5)]) (simp_all add: m)
    moreover have "sem_task_ptr (sems s j) \<noteq> Some a" if "j \<noteq> k" for j
      using sem_ptrD(1) [OF d(6), of j a] w that by auto
    then have "sems_ok own ?s"
      using d(6) True oa unfolding sems_ok_def by (auto; metis less_irrefl)
    ultimately have "inv_to NB own xs ys ?s" by (rule inv_stay)
    moreover have "crt_sem_wait (sems s k) (env s) = Inr (True, ?sm, env s)" using True by (simp add: crt_sem_wait_def)
    ultimately show ?thesis by (intro exI [of _ True] exI [of _ ?sm] exI [of _ "env s"]) simp
  next
    case False
    then have v0: "sem_value (sems s k) = 0" using d(6) unfolding sems_ok_def by (metis linorder_not_less order_antisym)
    have k': "sem_task_ptr (sems s k) \<in> {None, Some a}" using k False by simp
    have np: "sem_task_ptr (sems s k) = None"
      using k' sem_ptrD(2) [OF d(6) _ v0, of a] oa by auto
    have oj: "sem_task_ptr (sems s j) \<noteq> Some a" if "j \<noteq> k" for j
      using sem_ptrD(1) [OF d(6), of j a] w that by auto
    let ?own = "own(a := O_sem)" and ?sm = "(sems s k)\<lparr>sem_task_ptr := Some a\<rparr>"
    have q1: "queues_ok ?own xs ys (env s)" by (rule queues_own [OF d(1)]) (simp_all add: oa)
    have o1: "owned_ok NB {} ?own (env s)" using d(2) r(3-5) by (auto simp: owned_ok_def task_ok_def)
    from swap_out_parts [OF r(2,3) q1 o1] obtain e where e: "swap_out (env s) = Inr e"
      "e = (env s)\<lparr>tasks := (tasks (env s))(a \<mapsto> t\<lparr>task_context := Ctx_saved\<rparr>)\<rparr>"
      "queues_ok ?own xs ys e" "owned_ok NB {} ?own e" by blast
    let ?s = "s\<lparr>env := e, sems := (sems s)(k := ?sm), in_wait := (in_wait s)(a := Some k), mpc := M_back a\<rparr>"
    have "queues_ok ?own xs ys (env ?s)" "owned_ok NB {} ?own (env ?s)" using e(3,4) by simp_all
    moreover have "counts_ok xs ys ?s" using d(3) m by (simp add: counts_ok_def e(2))
    moreover have "workers_ok {} ?own ?s" by (rule workers_own [OF d(4)]) (simp_all add: oa e(2))
    moreover have "manager_ok ?own ?s" using r by (simp add: manager_ok_def e(2))
    moreover have "sems_ok ?own ?s"
      using d(6) v0 np oj oa unfolding sems_ok_def by (auto; metis option.distinct(1))
    ultimately have "inv_to NB own xs ys ?s" by (rule inv_toI [OF s_wait [of own a, OF oa]])
    moreover have "crt_sem_wait (sems s k) (env s) = Inr (False, ?sm, e)" using False e(1) r(2) by (simp add: crt_sem_wait_def)
    ultimately show ?thesis by (intro exI [of _ False] exI [of _ ?sm] exI [of _ e]) simp
  qed
qed

section \<open>The steps of the workers\<close>

text \<open>Counting the workers at a place.\<close>

lemma card_place:
  fixes f :: "nat \<Rightarrow> worker_pc" and i n :: nat
  assumes "i < n"
  shows "f i \<noteq> p \<Longrightarrow> at_place (f(i := p)) n p = Suc (at_place f n p)"
    and "f i = p \<Longrightarrow> q \<noteq> p \<Longrightarrow> Suc (at_place (f(i := q)) n p) = at_place f n p"
    and "f i \<noteq> p \<Longrightarrow> q \<noteq> p \<Longrightarrow> at_place (f(i := q)) n p = at_place f n p"
proof -
  show "at_place (f(i := p)) n p = Suc (at_place f n p)" if "f i \<noteq> p"
  proof -
    have "{j. j < n \<and> (f(i := p)) j = p} = insert i {j. j < n \<and> f j = p}" using assms by auto
    then show ?thesis using that by (simp add: at_place_def)
  qed
  show "Suc (at_place (f(i := q)) n p) = at_place f n p" if a: "f i = p" "q \<noteq> p"
  proof -
    have "{j. j < n \<and> f j = p} = insert i {j. j < n \<and> (f(i := q)) j = p}" using assms a by auto
    then show ?thesis using a by (simp add: at_place_def)
  qed
  show "at_place (f(i := q)) n p = at_place f n p" if "f i \<noteq> p" "q \<noteq> p"
  proof -
    have "{j. j < n \<and> (f(i := q)) j = p} = {j. j < n \<and> f j = p}" using that by auto
    then show ?thesis by (simp add: at_place_def)
  qed
qed

lemma w_post_inv:
  assumes i: "inv_with NB {} own xs ys s" and w: "i < wcount s" "wpc s i = W_post"
  shows "inv_to NB own xs ys (s\<lparr>env := sem_post_manager (env s), wpc := (wpc s)(i := W_loop)\<rparr>)"
proof -
  note d = inv_withD [OF i]
  let ?s = "s\<lparr>env := sem_post_manager (env s), wpc := (wpc s)(i := W_loop)\<rparr>"
  have "queues_ok own xs ys (env ?s)" using d(1) by (simp add: queues_ok_def sem_post_manager_def)
  moreover have "owned_ok NB {} own (env ?s)" by (rule owned_same [OF d(2)]) (simp_all add: sem_post_manager_def)
  moreover have "counts_ok xs ys ?s"
    using d(3) card_place(2) [where f = "wpc s" and p = W_post and q = W_loop, OF w]
      card_place(3) [where f = "wpc s" and p = W_take and q = W_loop, OF w(1)] w(2)
    by (simp add: counts_ok_def sem_post_manager_def)
  moreover have "workers_ok {} own ?s"
    using d(4) w unfolding workers_ok_def sem_post_manager_def by (auto split: if_splits)
  moreover have "manager_ok own ?s" by (rule manager_other [OF d(5)]) (simp_all add: sem_post_manager_def)
  moreover have "sems_ok own ?s" using d(6) by (simp add: sems_ok_def)
  ultimately show ?thesis by (rule inv_stay)
qed

text \<open>
  A step of worker \<open>i\<close>: the other workers keep what they have. A task that was in the middle of a
  handler, in \<open>H\<close> but no longer in \<open>H'\<close>, must not be engaged or in hand elsewhere.
\<close>

lemma workers_at:
  assumes w: "workers_ok H own s" and i: "i < wcount s" and wc: "wcount s' = wcount s" and wp: "wpc s' = (wpc s)(i := p)"
    and ev: "\<And>j. j \<noteq> i \<Longrightarrow> worker_ev (env s') j = worker_ev (env s) j"
    and pc: "\<And>j. j \<noteq> i \<Longrightarrow> pipe_channel (env s') j = pipe_channel (env s) j"
    and p: "p \<noteq> W_start" and l: "loop_okay H' own' i (pipe_channel (env s') i) (worker_ev (env s') i)"
    and o: "\<And>b j. j \<noteq> i \<Longrightarrow> own' b = O_parked j \<longleftrightarrow> own b = O_parked j"
    and oh: "\<And>b j. j \<noteq> i \<Longrightarrow> own' b = O_hand j \<longleftrightarrow> own b = O_hand j"
    and h: "\<And>b. b \<notin> H' \<Longrightarrow> own' b = O_hand i \<longleftrightarrow> p = W_run b"
    and Hl: "\<And>b j. b \<in> H \<Longrightarrow> b \<notin> H' \<Longrightarrow> j \<noteq> i \<Longrightarrow> j < wcount s \<Longrightarrow> wpc s j \<noteq> W_start \<Longrightarrow>
      \<not> engaged (worker_ev (env s) j) (IoW b) \<and> \<not> engaged (worker_ev (env s) j) (TimerW b)"
    and Hh: "\<And>b j. b \<in> H \<Longrightarrow> b \<notin> H' \<Longrightarrow> j \<noteq> i \<Longrightarrow> own b = O_hand j \<longleftrightarrow> j < wcount s \<and> wpc s j = W_run b"
  shows "workers_ok H' own' s'"
  unfolding workers_ok_def
proof (intro conjI allI impI)
  fix j assume j: "j < wcount s' \<and> wpc s' j \<noteq> W_start"
  show "loop_okay H' own' j (pipe_channel (env s') j) (worker_ev (env s') j)"
  proof (cases "j = i")
    case False
    then have j': "j < wcount s" "wpc s j \<noteq> W_start" using j wc wp by auto
    then have "loop_okay H own j (pipe_channel (env s) j) (worker_ev (env s) j)" using w by (simp add: workers_ok_def)
    then show ?thesis unfolding loop_okay_def ev [OF False] pc [OF False] using o [OF False] Hl [OF _ _ False j'] by blast
  qed (use l in simp)
next
  fix b j assume b: "own' b = O_parked j"
  show "j < wcount s'" "wpc s' j \<noteq> W_start"
    using b o [of j b] w i p wc wp unfolding workers_ok_def by (cases "j = i"; auto)+
next
  fix b j assume b: "b \<notin> H'"
  show "(own' b = O_hand j) = (j < wcount s' \<and> wpc s' j = W_run b)"
  proof (cases "j = i")
    case True
    with h [OF b] i wc wp show ?thesis by auto
  next
    case False
    show ?thesis
    proof (cases "b \<in> H")
      case True
      with oh [OF False] Hh [OF True b False] wc wp False show ?thesis by simp
    next
      case nH: False
      with w have "own b = O_hand j \<longleftrightarrow> j < wcount s \<and> wpc s j = W_run b" by (simp add: workers_ok_def)
      with oh [OF False] wc wp False show ?thesis by simp
    qed
  qed
qed

text \<open>Taking the task that a byte stands for.\<close>

lemma w_take_inv:
  assumes i: "inv_with NB {} own xs ys s" and w: "i < wcount s" "wpc s i = W_take"
  shows "\<exists>a e. event_take (env s) = Inr (a, e) \<and> inv_to NB own xs ys (s\<lparr>env := e, wpc := (wpc s)(i := W_run a)\<rparr>)"
proof -
  note d = inv_withD [OF i]
  note cp = card_place(2) [where f = "wpc s" and p = W_take and q = "W_run y" for y, OF w]
  have "0 < length ys" using d(3) cp [of 0] by (simp add: counts_ok_def)
  then obtain y zs where ys: "ys = y # zs" by (cases ys) auto
  from shift_doing_ok [OF d(1)[unfolded ys] d(2), of "O_hand i"] obtain q where
    q: "Shift_doing (env s) = Inr (Some y, (env s)\<lparr>doing_queue := q\<rparr>)"
      "queues_ok (own(y := O_hand i)) xs zs ((env s)\<lparr>doing_queue := q\<rparr>)" by auto
  let ?e = "(env s)\<lparr>doing_queue := q\<rparr>" and ?own = "own(y := O_hand i)"
  let ?s = "s\<lparr>env := ?e, wpc := (wpc s)(i := W_run y)\<rparr>"
  have oy: "own y = O_doing" using d(1) ys by (simp add: queues_ok_def)
  obtain t where t: "tasks (env s) y = Some t" "task_ok NB (worker_ev (env s)) O_doing y t"
    using owned_task [OF d(2), of y] oy by auto
  have nh: "own b \<noteq> O_hand i" for b using d(4) w by (simp add: workers_ok_def)
  have "owned_ok NB {} ?own ?e"
    by (rule owned_own [OF d(2) t(1)]) (use t(2) in \<open>auto simp: task_ok_def\<close>)
  moreover have "counts_ok xs zs ?s"
    using d(3) cp [of y] card_place(3) [where f = "wpc s" and p = W_post and q = "W_run y", OF w(1)] w(2)
    by (simp add: counts_ok_def ys)
  moreover have "workers_ok {} ?own ?s"
  proof (rule workers_at [OF d(4) w(1)])
    have "loop_okay {} own i (pipe_channel (env s) i) (worker_ev (env s) i)" using d(4) w by (simp add: workers_ok_def)
    then show "loop_okay {} ?own i (pipe_channel (env ?s) i) (worker_ev (env ?s) i)"
      using oy by (auto simp: loop_okay_def)
    show "\<And>b. (?own b = O_hand i) = (W_run y = W_run b)" using nh by simp
  qed (use oy in auto)
  moreover have "manager_ok ?own ?s" by (rule manager_other [OF d(5)]) (use oy in auto)
  moreover have "in_wait s y = None" using in_wait_own [OF d(6), of y] oy by (cases "in_wait s y") auto
  then have "sems_ok ?own ?s" using d(6) oy unfolding sems_ok_def by auto
  ultimately have "inv_to NB own xs ys ?s" using q(2) nh
    by (intro inv_toI [OF s_start [where a = y and xs = xs and ys = zs], folded ys]) simp_all
  moreover have "event_take (env s) = Inr (y, ?e)" using q(1) by (simp add: event_take_def deref_def)
  ultimately show ?thesis by blast
qed

subsection \<open>Handlers\<close>

lemma parked_ok_frame:
  assumes "loop_frame W l l'" and "IoW b \<notin> W" and "TimerW b \<notin> W"
  shows "parked_ok NB l b t \<Longrightarrow> parked_ok NB l' b t"
proof -
  assume p: "parked_ok NB l b t"
  have "parked_conf NB l' b t"
    by (rule parked_conf_mono [of NB l])
      (use assms p in \<open>auto simp: loop_frame_def parked_ok_def engaged_def\<close>)
  with p loop_frame_engaged [OF assms(1,2)] loop_frame_engaged [OF assms(1,3)] show "parked_ok NB l' b t"
    by (simp add: parked_ok_def)
qed

lemma owned_frame:
  assumes o: "owned_ok NB {a} own e" and f: "frame i a e e'" and l: "loop_frame (task_ws a) (worker_ev e i) (worker_ev e' i)"
    and a: "tasks e a \<noteq> None"
  shows "owned_ok NB {a} own e'"
  unfolding owned_ok_def
proof (intro conjI allI impI)
  fix b show "(own b = O_none) = (tasks e' b = None)"
    using o f a unfolding owned_ok_def frame_def by (cases "b = a") auto
next
  fix b t assume b: "b \<notin> {a}" "tasks e' b = Some t"
  then have "task_ok NB (worker_ev e) (own b) b t" using o f by (simp add: owned_ok_def frame_def)
  moreover have "parked_ok NB (worker_ev e j) b t \<Longrightarrow> parked_ok NB (worker_ev e' j) b t" for j
    using parked_ok_frame [OF l, of b] b(1) f by (cases "j = i") (auto simp: frame_def)
  ultimately show "task_ok NB (worker_ev e') (own b) b t" by (cases "own b") (auto simp: task_ok_def)
qed

lemma loop_okay_frame:
  assumes o: "loop_okay {a} own i bs l" and l: "loop_frame (task_ws a) l l'" and lp: "lp_inv is_timer l'"
    and a: "engaged l' (IoW a) \<or> engaged l' (TimerW a) \<Longrightarrow> ow = O_parked i"
  shows "loop_okay {} (own(a := ow)) i bs l'"
proof -
  have f: "engaged l' v = engaged l v" "v \<in> watching l' \<longleftrightarrow> v \<in> watching l" "v \<in> pending_set l' \<longleftrightarrow> v \<in> pending_set l"
    "v \<in> errs l' \<longleftrightarrow> v \<in> errs l" "cb (ws l' v) = cb (ws l v)" "w_events (ws l' v) = w_events (ws l v)"
    if "v \<notin> task_ws a" for v using l that by (auto simp: loop_frame_def engaged_def)
  have "engaged l' (IoW b) \<or> engaged l' (TimerW b) \<Longrightarrow> (own(a := ow)) b = O_parked i" for b
    using a o f(1) [of "IoW b"] f(1) [of "TimerW b"] by (cases "b = a") (auto simp: loop_okay_def)
  then show ?thesis using o lp f(2-) [of PipeW] by (simp add: loop_okay_def)
qed

text \<open>
  The end of a handler on a task that no other thread holds: the state after it is good again.
\<close>

text \<open>The worker \<open>i\<close> has finished the task \<open>a\<close> and queued it for the manager.\<close>

lemma completed_inv:
  assumes i: "inv_with NB {a} own xs ys s" and w: "i < wcount s" "wpc s i \<in> {W_loop, W_run a}"
    and oa: "own a \<in> {O_hand i, O_parked i}" and t: "tasks (env s) a = Some t" "stack_ptr t \<noteq> None"
    and nl: "\<And>j. j \<noteq> i \<Longrightarrow> j < wcount s \<Longrightarrow> wpc s j \<noteq> W_start \<Longrightarrow>
      \<not> engaged (worker_ev (env s) j) (IoW a) \<and> \<not> engaged (worker_ev (env s) j) (TimerW a)"
    and nh: "\<And>j. j \<noteq> i \<Longrightarrow> j < wcount s \<Longrightarrow> wpc s j \<noteq> W_run a"
    and c: "completed i a (env s) e1"
  shows "\<exists>s'. after_handler s i (coroutine_notify_manager a e1) = Inr s' \<and> inv_to NB own xs ys s'"
proof -
  note d = inv_withD [OF i]
  have ni: "in_wait s a = None" using in_wait_own [OF d(6), of a] oa by (cases "in_wait s a") auto
  have li: "loop_okay {a} own i (pipe_channel (env s) i) (worker_ev (env s) i)" using d(4) w by (auto simp: workers_ok_def)
  have hand: "own b \<noteq> O_hand i" if "b \<noteq> a" for b using d(4) w that by (auto simp: workers_ok_def)
  have oj: "own a \<noteq> O_hand j" "own a \<noteq> O_parked j" if "j \<noteq> i" for j using oa that by auto
  note cp = card_place(3) [where f = "wpc s" and p = W_take, OF w(1)]
  have fr: "frame i a (env s) e1" and lf: "loop_frame (task_ws a) (worker_ev (env s) i) (worker_ev e1 i)"
    using c by (auto simp: completed_def)
  obtain t1 where t1: "tasks e1 a = Some t1" "resumable (action t1)" "stack_ptr t1 \<noteq> None"
    using c fr t by (auto simp: completed_def frame_def)
  have q1: "queues_ok own xs ys e1" using d(1) fr by (simp add: queues_ok_def frame_def)
  have o1: "owned_ok NB {a} own e1" using owned_frame [OF d(2) fr lf] t(1) by simp
  from push_todo_ok [OF q1 o1, of a] oa obtain nx q where p: "Push_todo a e1 = Inr (e1\<lparr>nxt := nx, todo_queue := q\<rparr>)"
    "queues_ok (own(a := O_todo)) (xs @ [a]) ys (e1\<lparr>nxt := nx, todo_queue := q\<rparr>)" by auto
  let ?own = "own(a := O_todo)"
  let ?e = "e1\<lparr>nxt := nx, todo_queue := q, manager_sem := manager_sem (env s)\<rparr>"
  let ?s = "s\<lparr>env := ?e, wpc := (wpc s)(i := W_post)\<rparr>"
  have "queues_ok ?own (xs @ [a]) ys (env ?s)" using p(2) by (simp add: queues_ok_def)
  moreover have "owned_ok NB {} ?own (env ?s)"
    by (rule owned_upd [OF o1, of _ a t1]) (use t1 in \<open>auto simp: task_ok_def todo_ok_def fun_upd_idem\<close>)
  moreover have "counts_ok (xs @ [a]) ys ?s"
    using d(3) fr cp [of W_post] card_place(1) [where f = "wpc s" and p = W_post, OF w(1)] w(2)
    by (auto simp: counts_ok_def frame_def)
  moreover have "workers_ok {} ?own ?s"
  proof (rule workers_at [OF d(4) w(1)])
    show "loop_okay {} ?own i (pipe_channel (env ?s) i) (worker_ev (env ?s) i)"
      using loop_okay_frame [OF li lf, of O_todo] c fr by (simp add: completed_def frame_def)
  qed (use fr oj nl nh hand in \<open>auto simp: frame_def\<close>)
  moreover have "action t1 \<noteq> act_finished_coroutine" using t1(2) by (auto simp: resumable_def)
  then have "manager_ok ?own ?s"
    using t1(1) fr oa by (intro manager_task [OF d(5)]) (auto simp: frame_def)
  moreover have "sems_ok ?own ?s" using d(6) oa ni unfolding sems_ok_def by auto
  ultimately have "inv_to NB own xs ys ?s" by (rule inv_toI [OF s_complete [of own a, OF oa]])
  moreover have "after_handler s i (coroutine_notify_manager a e1) = Inr ?s"
    using p(1) fr by (simp add: coroutine_notify_manager_def sem_post_manager_def after_handler_def frame_def)
  ultimately show ?thesis by blast
qed

text \<open>The worker \<open>i\<close> has parked the task \<open>a\<close> in its loop, or left it there.\<close>

lemma parked_inv:
  assumes i: "inv_with NB {a} own xs ys s" and w: "i < wcount s" "wpc s i \<in> {W_loop, W_run a}"
    and oa: "own a \<in> {O_hand i, O_parked i}" and t: "tasks (env s) a = Some t" "stack_ptr t \<noteq> None"
    and nl: "\<And>j. j \<noteq> i \<Longrightarrow> j < wcount s \<Longrightarrow> wpc s j \<noteq> W_start \<Longrightarrow>
      \<not> engaged (worker_ev (env s) j) (IoW a) \<and> \<not> engaged (worker_ev (env s) j) (TimerW a)"
    and nh: "\<And>j. j \<noteq> i \<Longrightarrow> j < wcount s \<Longrightarrow> wpc s j \<noteq> W_run a"
    and c: "parked NB i a (env s) e1"
  shows "\<exists>s'. after_handler s i (Inr e1) = Inr s' \<and> inv_to NB own xs ys s'"
proof -
  note d = inv_withD [OF i]
  have ni: "in_wait s a = None" using in_wait_own [OF d(6), of a] oa by (cases "in_wait s a") auto
  have li: "loop_okay {a} own i (pipe_channel (env s) i) (worker_ev (env s) i)" using d(4) w by (auto simp: workers_ok_def)
  have hand: "own b \<noteq> O_hand i" if "b \<noteq> a" for b using d(4) w that by (auto simp: workers_ok_def)
  have oj: "own a \<noteq> O_hand j" "own a \<noteq> O_parked j" if "j \<noteq> i" for j using oa that by auto
  note cp = card_place(3) [where f = "wpc s" and p = W_take, OF w(1)]
  have fr: "frame i a (env s) e1" and lf: "loop_frame (task_ws a) (worker_ev (env s) i) (worker_ev e1 i)"
    using c by (auto simp: parked_def)
  obtain t1 where t1: "tasks e1 a = Some t1" "parked_ok NB (worker_ev e1 i) a t1" "stack_ptr t1 \<noteq> None"
    using c fr t by (auto simp: parked_def frame_def)
  have o1: "owned_ok NB {a} own e1" using owned_frame [OF d(2) fr lf] t(1) by simp
  let ?own = "own(a := O_parked i)"
  let ?s = "s\<lparr>env := e1, wpc := (wpc s)(i := W_loop)\<rparr>"
  have "queues_ok own xs ys e1" using d(1) fr by (simp add: queues_ok_def frame_def)
  then have "queues_ok ?own xs ys (env ?s)" using queues_own [of own xs ys e1 a "O_parked i"] oa by auto
  moreover have "owned_ok NB {} ?own (env ?s)"
    by (rule owned_upd [OF o1, of _ a t1]) (use t1 in \<open>auto simp: task_ok_def fun_upd_idem\<close>)
  moreover have "counts_ok xs ys ?s"
    using d(3) fr cp [of W_loop] card_place(3) [where f = "wpc s" and p = W_post and q = W_loop, OF w(1)] w(2)
    by (auto simp: counts_ok_def frame_def)
  moreover have "workers_ok {} ?own ?s"
  proof (rule workers_at [OF d(4) w(1)])
    show "loop_okay {} ?own i (pipe_channel (env ?s) i) (worker_ev (env ?s) i)"
      using loop_okay_frame [OF li lf, of "O_parked i"] c fr by (simp add: parked_def frame_def)
  qed (use fr oj nl nh hand in \<open>auto simp: frame_def\<close>)
  moreover have "action t1 \<noteq> act_finished_coroutine" using t1(2) by (auto simp: parked_ok_def parked_conf_def)
  then have "manager_ok ?own ?s"
    using t1(1) fr oa by (intro manager_task [OF d(5)]) (auto simp: frame_def)
  moreover have "sems_ok ?own ?s" using d(6) oa ni unfolding sems_ok_def by auto
  ultimately have "inv_to NB own xs ys ?s" by (rule inv_toI [OF s_park [of own a, OF oa]])
  moreover have "after_handler s i (Inr e1) = Inr ?s" using fr by (simp add: after_handler_def frame_def)
  ultimately show ?thesis by blast
qed

lemma handled_inv:
  assumes i: "inv_with NB {a} own xs ys s" and w: "i < wcount s" "wpc s i \<in> {W_loop, W_run a}"
    and oa: "own a \<in> {O_hand i, O_parked i}" and t: "tasks (env s) a = Some t" "stack_ptr t \<noteq> None"
    and nl: "\<And>j. j \<noteq> i \<Longrightarrow> j < wcount s \<Longrightarrow> wpc s j \<noteq> W_start \<Longrightarrow>
      \<not> engaged (worker_ev (env s) j) (IoW a) \<and> \<not> engaged (worker_ev (env s) j) (TimerW a)"
    and nh: "\<And>j. j \<noteq> i \<Longrightarrow> j < wcount s \<Longrightarrow> wpc s j \<noteq> W_run a"
    and r: "handled NB i a (env s) r"
  shows "\<exists>s'. after_handler s i r = Inr s' \<and> inv_to NB own xs ys s'"
  using r completed_inv [OF i w oa t nl nh] parked_inv [OF i w oa t nl nh] unfolding handled_def by blast

lemma inv_weaken:
  assumes "inv_with NB {} own xs ys s"
  shows "inv_with NB {a} own xs ys s"
  using assms unfolding inv_with_def owned_ok_def workers_ok_def loop_okay_def by blast

text \<open>A task held by worker \<open>i\<close>, in its hand or its loop, is engaged and in hand nowhere else.\<close>

lemma held_once:
  assumes "workers_ok {} own s" and "own a \<in> {O_hand i, O_parked i}" and "j \<noteq> i" and "j < wcount s"
  shows "wpc s j \<noteq> W_start \<Longrightarrow> \<not> engaged (worker_ev (env s) j) (IoW a) \<and> \<not> engaged (worker_ev (env s) j) (TimerW a)"
    and "wpc s j \<noteq> W_run a"
proof -
  have "own a \<noteq> O_parked j" "own a \<noteq> O_hand j" using assms(2,3) by auto
  with assms(1,4) show "wpc s j \<noteq> W_start \<Longrightarrow> \<not> engaged (worker_ev (env s) j) (IoW a) \<and> \<not> engaged (worker_ev (env s) j) (TimerW a)"
    and "wpc s j \<noteq> W_run a" unfolding workers_ok_def loop_okay_def by blast+
qed

lemma w_run_inv:
  assumes P: "posix_ok m NB P" and i: "inv_with NB {} own xs ys s" and w: "i < wcount s" "wpc s i = W_run a"
  shows "\<exists>s'. after_handler s i (event_run P i a (env s)) = Inr s' \<and> inv_to NB own xs ys s'"
proof -
  note d = inv_withD [OF i]
  have oa: "own a = O_hand i" using d(4) w by (simp add: workers_ok_def)
  obtain t where t: "tasks (env s) a = Some t" "task_ok NB (worker_ev (env s)) (own a) a t"
    using owned_task [OF d(2), of a] oa by auto
  have li: "loop_okay {} own i (pipe_channel (env s) i) (worker_ev (env s) i)" using d(4) w by (simp add: workers_ok_def)
  have "in_hand NB i a (env s) t"
    using li t oa by (auto simp: in_hand_def loop_okay_def task_ok_def)
  from event_run_ok [OF P this] show ?thesis
    using handled_inv [OF inv_weaken [OF i] w(1) _ _ t(1)] w(2) oa t(2) held_once [OF d(4), of a i]
    by (simp add: task_ok_def)
qed

lemma loop_okay_popped:
  assumes o: "loop_okay {} own i bs l" and pop: "pending_pop pri l = Some ((wo, ev), l')"
  shows "loop_okay {} own i bs l'" "wo = Some PipeW \<Longrightarrow> PipeW \<notin> pending_set l'"
proof -
  have lp: "lp_inv is_timer l" using o by (simp add: loop_okay_def)
  note p = lp_pop [OF lp pop]
  have f: "engaged l' v \<Longrightarrow> engaged l v" for v
    using p(2) p(3) by (cases "wo = Some v") (auto simp: loop_frame_def engaged_def)
  have pw: "cb (ws l' PipeW) = cb (ws l PipeW)" "w_events (ws l' PipeW) = w_events (ws l PipeW)"
    "PipeW \<in> watching l' \<longleftrightarrow> PipeW \<in> watching l" "PipeW \<in> pending_set l' \<Longrightarrow> PipeW \<in> pending_set l"
    "PipeW \<in> errs l' \<Longrightarrow> PipeW \<in> errs l"
    using p(2) p(3) errs_pending [of l'] by (cases "wo = Some PipeW"; auto simp: loop_frame_def)+
  show "loop_okay {} own i bs l'" using o p(1) f pw unfolding loop_okay_def by auto
  show "wo = Some PipeW \<Longrightarrow> PipeW \<notin> pending_set l'" using p(3) by blast
qed

lemma w_call_inv:
  assumes P: "posix_ok m NB P" and i: "inv_with NB {} own xs ys s" and w: "i < wcount s" "wpc s i = W_loop"
    and pop: "pending_pop pri (worker_ev (env s) i) = Some ((Some w, ev), l)" and nc: "cb (ws l w) \<noteq> Cb_new_event_handler"
    and r: "call_cb P i (cb (ws l w)) w ev (env (set_loop i l s)) = Some r"
  shows "\<exists>s'. after_handler s i r = Inr s' \<and> inv_to NB own xs ys s'"
proof -
  note d = inv_withD [OF i]
  let ?l = "worker_ev (env s) i" and ?s = "set_loop i l s"
  have li: "loop_okay {} own i (pipe_channel (env s) i) ?l" using d(4) w by (simp add: workers_ok_def)
  then have lp: "lp_inv is_timer ?l" by (simp add: loop_okay_def)
  note p = lp_pop(1) [OF lp pop] lp_pop(2) [OF lp pop] lp_pop(3) [OF lp pop refl]
  have en: "engaged ?l w" using p(3) by (simp add: engaged_def)
  have "w \<noteq> PipeW" using nc p(3) li by (auto simp: loop_okay_def)
  then obtain a where wa: "w \<in> task_ws a" by (cases w) auto
  then have oa: "own a = O_parked i" using en li by (auto simp: loop_okay_def)
  obtain t where t: "tasks (env s) a = Some t" "task_ok NB (worker_ev (env s)) (own a) a t"
    using owned_task [OF d(2), of a] oa by auto
  then have pk: "parked_ok NB ?l a t" "stack_ptr t \<noteq> None" using oa by (auto simp: task_ok_def)
  have es: "env ?s = (env s)\<lparr>worker_ev := (worker_ev (env s))(i := l)\<rparr>" by (simp add: set_loop_def)
  from call_cb_ok [OF P t(1) lp pk(1) pop wa es] r have h: "handled NB i a (env ?s) r" by simp
  have lf: "loop_frame (task_ws a) ?l l" using loop_frame_mono [OF p(2)] wa by auto
  have "inv_with NB {a} own xs ys ?s"
    unfolding inv_with_def
  proof (intro conjI)
    show "queues_ok own xs ys (env ?s)" using d(1) by (simp add: queues_ok_def set_loop_def)
    have "owned_ok NB {a} own (env s)" using d(2) by (auto simp: owned_ok_def)
    then show "owned_ok NB {a} own (env ?s)"
      by (rule owned_frame [where i = i]) (use lf t(1) in \<open>auto simp: frame_def set_loop_def\<close>)
    show "counts_ok xs ys ?s" using d(3) by (simp add: counts_ok_def set_loop_def)
    have "workers_ok {} own ?s"
      using d(4) loop_okay_popped(1) [OF li pop] w unfolding workers_ok_def set_loop_def by auto
    then show "workers_ok {a} own ?s" unfolding workers_ok_def loop_okay_def by blast
    show "manager_ok own ?s" by (rule manager_other [OF d(5)]) (simp_all add: set_loop_def)
    show "sems_ok own ?s" using d(6) by (simp add: sems_ok_def set_loop_def)
  qed
  from handled_inv [OF this _ _ _ _ pk(2) _ _ h] have "\<exists>s'. after_handler ?s i r = Inr s' \<and> inv_to NB own xs ys s'"
    using w oa t(1) held_once [OF d(4), of a i] by (simp add: set_loop_def)
  then show ?thesis by (simp add: after_handler_def set_loop_def)
qed

subsection \<open>The worker's pipe\<close>

lemma pipe_event:
  assumes "ev_valid is_timer EV_READ PipeW ev" and "ev AND EV_ERROR = 0"
  shows "ev = EV_READ"
proof -
  have "ev \<noteq> 0" "ev AND 1 = ev" using assms by (auto simp: ev_valid_def EV_READ_def)
  moreover have "ev AND 1 = of_bool (odd ev)" by (simp add: and_one_eq odd_iff_mod_2_eq_one)
  ultimately show ?thesis unfolding EV_READ_def by (metis of_bool_eq(1) of_bool_eq(2))
qed

text \<open>Only the watcher of the pipe has the callback \<open>new_event_handler\<close>.\<close>

lemma pipe_callback:
  assumes i: "inv_with NB {} own xs ys s" and w: "i < wcount s" "wpc s i = W_loop"
    and pop: "pending_pop pri (worker_ev (env s) i) = Some ((Some v, ev), l)" and c: "cb (ws l v) = Cb_new_event_handler"
  shows "v = PipeW"
proof (rule ccontr)
  note d = inv_withD [OF i]
  let ?l = "worker_ev (env s) i"
  have li: "loop_okay {} own i (pipe_channel (env s) i) ?l" using d(4) w by (simp add: workers_ok_def)
  then have "lp_inv is_timer ?l" by (simp add: loop_okay_def)
  note p = lp_pop(3) [OF this pop refl]
  assume "v \<noteq> PipeW"
  then obtain a where a: "v \<in> task_ws a" by (cases v) auto
  moreover have "engaged ?l v" using p by (simp add: engaged_def)
  ultimately have oa: "own a = O_parked i" using li by (auto simp: loop_okay_def)
  obtain t where t: "tasks (env s) a = Some t" "task_ok NB (worker_ev (env s)) (own a) a t"
    using owned_task [OF d(2), of a] oa by auto
  then have "parked_conf NB ?l a t" using oa by (auto simp: task_ok_def parked_ok_def)
  moreover have "cb (ws ?l v) = Cb_new_event_handler" "engaged ?l v" using p c by (auto simp: engaged_def)
  ultimately show False using a
    by (cases "action t") (auto simp: parked_conf_def sock_parked_def io_watch_def timer_watch_def)
qed

lemma w_byte_inv:
  assumes i: "inv_with NB {} own xs ys s" and w: "i < wcount s" "wpc s i = W_loop"
    and pop: "pending_pop pri (worker_ev (env s) i) = Some ((Some v, ev), l)" and c: "cb (ws l v) = Cb_new_event_handler"
  shows "ev = EV_READ \<and> (\<exists>e. event_byte i (env (set_loop i l s)) = Inr e \<and> inv_to NB own xs ys (s\<lparr>env := e, wpc := (wpc s)(i := W_take)\<rparr>))"
proof -
  note d = inv_withD [OF i]
  let ?l = "worker_ev (env s) i"
  have li: "loop_okay {} own i (pipe_channel (env s) i) ?l" using d(4) w by (simp add: workers_ok_def)
  then have lp: "lp_inv is_timer ?l" by (simp add: loop_okay_def)
  note p = lp_pop(3) [OF lp pop refl]
  have v: "v = PipeW" by (rule pipe_callback [OF i w pop c])
  have ne: "ev AND EV_ERROR = 0" "w_events (ws ?l v) = EV_READ" "pipe_channel (env s) i \<noteq> []"
    using li p by (auto simp: v loop_okay_def)
  then have ev: "ev = EV_READ" using p pipe_event [of ev] by (simp add: v)
  obtain b bs where bs: "pipe_channel (env s) i = b # bs" using ne(3) by (cases "pipe_channel (env s) i") auto
  have "set (pipe_channel (env s) i) \<subseteq> {0xee}" using d(3) w(1) by (simp add: counts_ok_def)
  then have b: "b = 0xee" "set bs \<subseteq> {0xee}" using bs by simp_all
  let ?e = "(env s)\<lparr>worker_ev := (worker_ev (env s))(i := l), pipe_channel := (pipe_channel (env s))(i := bs)\<rparr>"
  let ?s = "s\<lparr>env := ?e, wpc := (wpc s)(i := W_take)\<rparr>"
  have byte: "event_byte i (env (set_loop i l s)) = Inr ?e"
    by (simp add: event_byte_def pipe_read_def set_loop_def bs b(1))
  have keep: "parked_ok NB (worker_ev (env s) j) a t \<Longrightarrow> parked_ok NB (worker_ev ?e j) a t" for a t j
    using parked_ok_frame [OF lp_pop(2) [OF lp pop], of a] v by (cases "j = i") auto
  have "queues_ok own xs ys (env ?s)" using d(1) by (simp add: queues_ok_def)
  moreover have "owned_ok NB {} own (env ?s)"
  proof -
    have "task_ok NB (worker_ev (env s)) ow a t \<Longrightarrow> task_ok NB (worker_ev ?e) ow a t" for ow a t
      using keep by (cases ow) (auto simp: task_ok_def)
    then show ?thesis using d(2) unfolding owned_ok_def by auto
  qed
  moreover have "counts_ok xs ys ?s"
    using d(3) pipe_sum [OF w(1), of "pipe_channel (env s)" bs] bs w(2) b(2)
      card_place(1) [where f = "wpc s" and p = W_take, OF w(1)] card_place(3) [where f = "wpc s" and p = W_post and q = W_take, OF w(1)]
    by (auto simp: counts_ok_def)
  moreover have "workers_ok {} own ?s"
  proof (rule workers_at [OF d(4) w(1)])
    show "loop_okay {} own i (pipe_channel (env ?s) i) (worker_ev (env ?s) i)"
      using loop_okay_popped [OF li pop] v by (simp add: loop_okay_def)
    show "\<And>b. (own b = O_hand i) = (W_take = W_run b)" using d(4) w by (simp add: workers_ok_def)
  qed auto
  moreover have "manager_ok own ?s" by (rule manager_other [OF d(5)]) simp_all
  moreover have "sems_ok own ?s" using d(6) by (simp add: sems_ok_def)
  ultimately have "inv_to NB own xs ys ?s" by (rule inv_stay)
  with ev byte show ?thesis by blast
qed

subsection \<open>The loop's own work\<close>

lemma set_loop_inv:
  assumes i: "inv_with NB {} own xs ys s" and w: "i < wcount s" "wpc s i = W_loop"
    and l: "loop_okay {} own i (pipe_channel (env s) i) l"
    and pk: "\<And>a t. parked_ok NB (worker_ev (env s) i) a t \<Longrightarrow> parked_ok NB l a t"
  shows "inv_to NB own xs ys (set_loop i l s)"
proof -
  note d = inv_withD [OF i]
  let ?s = "set_loop i l s"
  have "parked_ok NB (worker_ev (env s) j) a t \<Longrightarrow> parked_ok NB (worker_ev (env ?s) j) a t" for a t j
    using pk by (cases "j = i") (auto simp: set_loop_def)
  then have "task_ok NB (worker_ev (env s)) ow a t \<Longrightarrow> task_ok NB (worker_ev (env ?s)) ow a t" for ow a t
    by (cases ow) (auto simp: task_ok_def)
  then have "owned_ok NB {} own (env ?s)" using d(2) unfolding owned_ok_def by (auto simp: set_loop_def)
  moreover have "queues_ok own xs ys (env ?s)" using d(1) by (simp add: queues_ok_def set_loop_def)
  moreover have "counts_ok xs ys ?s" using d(3) by (simp add: counts_ok_def set_loop_def)
  moreover have "workers_ok {} own ?s" using d(4) l w unfolding workers_ok_def set_loop_def by auto
  moreover have "manager_ok own ?s" by (rule manager_other [OF d(5)]) (simp_all add: set_loop_def)
  moreover have "sems_ok own ?s" using d(6) by (simp add: sems_ok_def set_loop_def)
  ultimately show ?thesis using inv_stay [of own xs ys ?s NB] by simp
qed

lemma loop_keeps_inv:
  assumes i: "inv_with NB {} own xs ys s" and w: "i < wcount s" "wpc s i = W_loop"
    and lp: "lp_inv is_timer l" and k: "loop_keeps (worker_ev (env s) i) l"
    and er: "\<And>v. v \<in> errs l \<Longrightarrow> v \<in> errs (worker_ev (env s) i) \<or>
      v \<in> watching (worker_ev (env s) i) \<and> cb (ws (worker_ev (env s) i) v) \<notin> {Cb_new_event_handler, Cb_ev_tcp_accept}"
    and pn: "PipeW \<in> pending_set l \<Longrightarrow> PipeW \<in> pending_set (worker_ev (env s) i) \<or> pipe_channel (env s) i \<noteq> []"
  shows "inv_to NB own xs ys (set_loop i l s)"
proof -
  note d = inv_withD [OF i]
  let ?l = "worker_ev (env s) i"
  have li: "loop_okay {} own i (pipe_channel (env s) i) ?l" using d(4) w by (simp add: workers_ok_def)
  have kk: "cb (ws l v) = cb (ws ?l v)" "w_events (ws l v) = w_events (ws ?l v)" "engaged l v = engaged ?l v" for v
    using k by (auto simp: loop_keeps_def)
  have pe: "PipeW \<notin> errs l" using er [of PipeW] li by (auto simp: loop_okay_def)
  have "engaged l PipeW" using kk(3) li by (auto simp: loop_okay_def engaged_def)
  then have "PipeW \<in> watching l" using lp pe by (auto simp: engaged_def lp_inv_def)
  then have lo: "loop_okay {} own i (pipe_channel (env s) i) l"
    using li lp kk pe pn unfolding loop_okay_def by auto
  have "parked_ok NB l a t" if p: "parked_ok NB ?l a t" for a t
  proof -
    have "parked_conf NB l a t"
    proof (rule parked_conf_mono)
      show "parked_conf NB ?l a t" using p by (simp add: parked_ok_def)
      assume "action t = act_tcp_accept" "IoW a \<in> errs l"
      then show "IoW a \<in> errs ?l"
        using er [of "IoW a"] p by (auto simp: parked_ok_def parked_conf_def io_watch_def)
    qed (use kk in auto)
    with p kk show ?thesis by (simp add: parked_ok_def)
  qed
  with set_loop_inv [OF i w lo] show ?thesis by blast
qed

lemma w_dummy_inv:
  assumes i: "inv_with NB {} own xs ys s" and w: "i < wcount s" "wpc s i = W_loop"
    and pop: "pending_pop pri (worker_ev (env s) i) = Some ((None, ev), l)"
  shows "inv_to NB own xs ys (set_loop i l s)"
proof (rule set_loop_inv [OF i w])
  note d = inv_withD [OF i]
  have li: "loop_okay {} own i (pipe_channel (env s) i) (worker_ev (env s) i)" using d(4) w by (simp add: workers_ok_def)
  show "loop_okay {} own i (pipe_channel (env s) i) l" using loop_okay_popped [OF li pop] by blast
  have "lp_inv is_timer (worker_ev (env s) i)" using li by (simp add: loop_okay_def)
  from lp_pop(2) [OF this pop] show "\<And>a t. parked_ok NB (worker_ev (env s) i) a t \<Longrightarrow> parked_ok NB l a t"
    by (auto intro: parked_ok_frame)
qed

end
