(* ===== verification/Acoro_Safety.thy ===== *)
theory Acoro_Safety
  imports Acoro_System
begin

text \<open>
  The main theorems on the running system: the invariant of \<^verbatim>\<open>Acoro_System\<close> holds in every
  reachable state, so no interleaving of the threads ends in a fault, no task is lost or in two
  places, and the counters that wake the threads agree with the queues.
\<close>

section \<open>The event loop between callbacks\<close>

lemma loop_lp:
  assumes "inv_with NB {} own xs ys s" and "i < wcount s" "wpc s i = W_loop"
  shows "lp_inv is_timer (worker_ev (env s) i)"
    and "loop_okay {} own i (pipe_channel (env s) i) (worker_ev (env s) i)"
proof -
  show "loop_okay {} own i (pipe_channel (env s) i) (worker_ev (env s) i)"
    using inv_withD(4) [OF assms(1)] assms(2,3) by (simp add: workers_ok_def)
  then show "lp_inv is_timer (worker_ev (env s) i)" by (simp add: loop_okay_def)
qed

lemma w_event_inv:
  assumes i: "inv_with NB {} own xs ys s" and w: "i < wcount s" "wpc s i = W_loop" and ev: "ev AND EV_ERROR = 0"
    and pc: "w_fd (ws (worker_ev (env s) i) PipeW) = int fd \<longrightarrow> pipe_channel (env s) i \<noteq> []"
  shows "inv_to NB own xs ys (set_loop i (fd_event fd ev (worker_ev (env s) i)) s)"
proof -
  note l = lp_event [OF loop_lp(1) [OF i w] ev, of fd]
  show ?thesis by (rule loop_keeps_inv [OF i w l(1,2)]) (use l(3,4) pc in auto)
qed

lemma w_clock_inv:
  assumes i: "inv_with NB {} own xs ys s" and w: "i < wcount s" "wpc s i = W_loop" and t: "mn_now (worker_ev (env s) i) \<le> t"
  shows "inv_to NB own xs ys (set_loop i ((worker_ev (env s) i)\<lparr>mn_now := t\<rparr>) s)"
proof -
  note l = lp_clock [OF loop_lp(1) [OF i w] t]
  show ?thesis by (rule loop_keeps_inv [OF i w l(1,2)]) (use l(3,4) in auto)
qed

lemma w_timers_inv:
  assumes i: "inv_with NB {} own xs ys s" and w: "i < wcount s" "wpc s i = W_loop"
  shows "\<exists>l. timers_reify (worker_ev (env s) i) = Some (Inr l) \<and> inv_to NB own xs ys (set_loop i l s)"
proof -
  from lp_timers [OF loop_lp(1) [OF i w]] obtain l where l: "timers_reify (worker_ev (env s) i) = Some (Inr l)"
    "lp_inv is_timer l" "loop_keeps (worker_ev (env s) i) l" "errs l = errs (worker_ev (env s) i)"
    "pending_set l = pending_set (worker_ev (env s) i) \<union> expired (worker_ev (env s) i)"
    "expired (worker_ev (env s) i) \<subseteq> Collect is_timer" by blast
  have "inv_to NB own xs ys (set_loop i l s)" by (rule loop_keeps_inv [OF i w l(2,3)]) (use l(4-6) in auto)
  with l(1) show ?thesis by blast
qed

lemma w_kill_inv:
  assumes i: "inv_with NB {} own xs ys s" and w: "i < wcount s" "wpc s i = W_loop"
    and k: "\<forall>w\<in>watching (worker_ev (env s) i). w_fd (ws (worker_ev (env s) i) w) = int fd \<longrightarrow>
       cb (ws (worker_ev (env s) i) w) \<notin> {Cb_new_event_handler, Cb_ev_tcp_accept}"
  shows "\<exists>l. fd_kill fd (worker_ev (env s) i) = Some (Inr l) \<and> inv_to NB own xs ys (set_loop i l s)"
proof -
  note lo = loop_lp [OF i w]
  from lp_kill [OF lo(1), of fd] obtain l where l: "fd_kill fd (worker_ev (env s) i) = Some (Inr l)"
    "lp_inv is_timer l" "loop_keeps (worker_ev (env s) i) l"
    "errs l = errs (worker_ev (env s) i) \<union>
       {w. \<not> is_timer w \<and> w \<in> watching (worker_ev (env s) i) \<and> w_fd (ws (worker_ev (env s) i) w) = int fd}"
    "pending_set l = pending_set (worker_ev (env s) i) \<union>
       {w. \<not> is_timer w \<and> w \<in> watching (worker_ev (env s) i) \<and> w_fd (ws (worker_ev (env s) i) w) = int fd}" by blast
  have "inv_to NB own xs ys (set_loop i l s)"
    by (rule loop_keeps_inv [OF i w l(2,3)]) (use l(4,5) k lo(2) in \<open>auto simp: loop_okay_def\<close>)
  with l(1) show ?thesis by blast
qed

lemma w_reify_inv:
  assumes i: "inv_with NB {} own xs ys s" and w: "i < wcount s" "wpc s i = W_loop"
    and k: "\<forall>w\<in>rejected is_timer accept (worker_ev (env s) i).
       cb (ws (worker_ev (env s) i) w) \<notin> {Cb_new_event_handler, Cb_ev_tcp_accept}"
  shows "\<exists>l. fd_reify accept (worker_ev (env s) i) = Some (Inr l) \<and> inv_to NB own xs ys (set_loop i l s)"
proof -
  note lo = loop_lp [OF i w]
  from fd_reify_loop_ok [OF lo(1), of accept 0] obtain l where l: "fd_reify accept (worker_ev (env s) i) = Some (Inr l)"
    "reified is_timer accept (worker_ev (env s) i) l" by (auto simp: fd_reify_def)
  then have r: "lp_inv is_timer l" "loop_keeps (worker_ev (env s) i) l"
    "errs l \<subseteq> errs (worker_ev (env s) i) \<union> rejected is_timer accept (worker_ev (env s) i)"
    "pending_set l \<subseteq> pending_set (worker_ev (env s) i) \<union> rejected is_timer accept (worker_ev (env s) i)"
    by (auto simp: reified_def)
  have nr: "PipeW \<notin> rejected is_timer accept (worker_ev (env s) i)" using k lo(2) by (auto simp: loop_okay_def)
  have "inv_to NB own xs ys (set_loop i l s)"
  proof (rule loop_keeps_inv [OF i w r(1,2)])
    fix v assume "v \<in> errs l"
    with r(3) k show "v \<in> errs (worker_ev (env s) i) \<or>
        v \<in> watching (worker_ev (env s) i) \<and> cb (ws (worker_ev (env s) i) v) \<notin> {Cb_new_event_handler, Cb_ev_tcp_accept}"
      unfolding rejected_def by blast
  qed (use r(4) nr in auto)
  with l(1) show ?thesis by blast
qed

section \<open>The start of a worker\<close>

lemma ev_loop_new_inv: "lp_inv is_timer (ev_loop_new now)" "\<not> engaged (ev_loop_new now) w"
proof -
  have p: "pending_set (ev_loop_new now) = {}" "watching (ev_loop_new now) = {}"
    by (simp_all add: pending_set_def watching_def ev_loop_new_def)
  then show "\<not> engaged (ev_loop_new now) w" by (simp add: engaged_def)
  have "loop_inv is_timer (ev_loop_new now)"
    by (simp add: loop_inv_def loop_ok_def pend_ok_def io_ok_def tm_ok_def ev_ok_def ev_loop_new_def watching_def
      heap_ok_def heap_ordered_def heap_indexed_def)
  with p show "lp_inv is_timer (ev_loop_new now)" by (simp add: lp_inv_def)
qed

lemma w_start_inv:
  assumes i: "inv_with NB {} own xs ys s" and w: "i < wcount s" "wpc s i = W_start" and fd: "0 \<le> fd"
  shows "\<exists>e. new_background_worker True fd now i (env s) = Inr e \<and> inv_to NB own xs ys (s\<lparr>env := e, wpc := (wpc s)(i := W_loop)\<rparr>)"
proof -
  note d = inv_withD [OF i]
  from lp_start_io [OF ev_loop_new_inv(1) _ ev_loop_new_inv(2), where w = PipeW and fd = fd and evs = EV_READ and f = Cb_new_event_handler and now1 = now] fd obtain l where
    l: "ev_io_start PipeW (ev_io_init PipeW Cb_new_event_handler fd EV_READ (ev_loop_new now)) = Inr l"
      "lp_inv is_timer l" "loop_frame {PipeW} (ev_loop_new now) l" "PipeW \<in> watching l" "PipeW \<notin> pending_set l"
      "PipeW \<notin> errs l" "cb (ws l PipeW) = Cb_new_event_handler" "w_events (ws l PipeW) = EV_READ"
    by (auto simp: io_mask_def)
  let ?e = "(env s)\<lparr>worker_ev := (worker_ev (env s))(i := l)\<rparr>"
  let ?s = "s\<lparr>env := ?e, wpc := (wpc s)(i := W_loop)\<rparr>"
  have ne: "\<not> engaged l (IoW a)" "\<not> engaged l (TimerW a)" for a
    using l(3) ev_loop_new_inv(2) [of now] by (auto simp: loop_frame_def engaged_def)
  have np: "own a \<noteq> O_parked i" for a using d(4) w(2) by (auto simp: workers_ok_def)
  have "queues_ok own xs ys (env ?s)" using d(1) by (simp add: queues_ok_def)
  moreover have "owned_ok NB {} own (env ?s)"
  proof -
    have "task_ok NB ((worker_ev (env s))(i := l)) (own a) a t = task_ok NB (worker_ev (env s)) (own a) a t" for a t
      using np [of a] by (cases "own a") (auto simp: task_ok_def)
    with d(2) show ?thesis by (simp add: owned_ok_def)
  qed
  moreover have "counts_ok xs ys ?s"
    using d(3) card_place(3) [where f = "wpc s" and p = W_post and q = W_loop, OF w(1)]
      card_place(3) [where f = "wpc s" and p = W_take and q = W_loop, OF w(1)] w(2)
    by (simp add: counts_ok_def)
  moreover have "workers_ok {} own ?s"
  proof (rule workers_at [OF d(4) w(1)])
    show "loop_okay {} own i (pipe_channel (env ?s) i) (worker_ev (env ?s) i)"
      using l ne by (simp add: loop_okay_def)
    show "\<And>b. (own b = O_hand i) = (W_loop = W_run b)" using d(4) w(2) by (simp add: workers_ok_def)
  qed auto
  moreover have "manager_ok own ?s" by (rule manager_other [OF d(5)]) simp_all
  moreover have "sems_ok own ?s" using d(6) unfolding sems_ok_def by simp
  ultimately have "inv_to NB own xs ys ?s" by (rule inv_stay)
  moreover have "new_background_worker True fd now i (env s) = Inr ?e"
    using l(1) by (simp add: new_background_worker_def on_loop_def)
  ultimately show ?thesis by blast
qed

section \<open>Every step\<close>

text \<open>Every step of the system goes on without a fault, and is a step of the abstract scheduler.\<close>

lemma sys_step_sim:
  assumes P: "posix_ok m NB P" and fd: "\<And>i. 0 \<le> pfd i" and i: "inv_with NB {} own xs ys s" and st: "sys_step P NB pfd s r"
  shows "\<exists>s'. r = Inr s' \<and> inv_to NB own xs ys s'"
  using st
proof cases
  case m_wait then show ?thesis using m_wait_inv [OF i] by simp
next
  case m_take with m_take_inv [OF i] show ?thesis by auto
next
  case (m_switch a sp) with m_switch_inv [OF i m_switch(2), of sp] show ?thesis by auto
next
  case (m_back a) with m_back_inv [OF i m_back(2)] show ?thesis by auto
next
  case (c_request a f) with c_request_inv [OF i c_request(2-4)] show ?thesis by auto
next
  case (c_write a) with c_write_inv [OF i c_write(2,3)] show ?thesis by auto
next
  case (c_swap a) with c_swap_inv [OF i c_swap(2)] show ?thesis by auto
next
  case (c_yield a) with c_yield_inv [OF i c_yield(2,3)] show ?thesis by auto
next
  case (c_exit a) with c_exit_inv [OF i c_exit(2,3)] show ?thesis by auto
next
  case (c_return a) with c_return_inv [OF i c_return(2,3)] show ?thesis by auto
next
  case (c_create a b junk attr br x)
  with c_create_inv [OF i c_create(2,4), of junk attr br x] show ?thesis by auto
next
  case (c_sem_init a k v) with c_sem_init_inv [OF i c_sem_init(4,5)] show ?thesis by auto
next
  case (c_sem_post a flag k) with c_sem_post_inv [OF i c_sem_post(2,4-6)] show ?thesis by auto
next
  case (c_sem_wait a k) with c_sem_wait_inv [OF i c_sem_wait(2-4)] show ?thesis by auto
next
  case (f_create b junk attr br x) with f_create_inv [OF i f_create(2), of junk attr br x] show ?thesis by auto
next
  case f_post with f_post_inv [OF i f_post(2)] show ?thesis by auto
next
  case (w_start k now) with w_start_inv [OF i w_start(2,3) fd, where i1 = k and now = now] show ?thesis by auto
next
  case (w_event k ev fd) with w_event_inv [OF i w_event(2-5)] show ?thesis by auto
next
  case (w_clock k now) with w_clock_inv [OF i w_clock(2-4)] show ?thesis by auto
next
  case (w_timers k r') with w_timers_inv [OF i w_timers(2,3)] show ?thesis by auto
next
  case (w_kill k fd r') with w_kill_inv [OF i w_kill(2,3,5)] show ?thesis by auto
next
  case (w_reify k accept r') with w_reify_inv [OF i w_reify(2,3,5)] show ?thesis by auto
next
  case (w_dummy k pri ev l) with w_dummy_inv [OF i w_dummy(2-4)] show ?thesis by auto
next
  case (w_byte k pri w ev l) with w_byte_inv [OF i w_byte(2-5)] show ?thesis by auto
next
  case (w_call k pri w ev l r') with w_call_inv [OF P i w_call(2-6)] show ?thesis by auto
next
  case (w_take k) with w_take_inv [OF i w_take(2,3)] show ?thesis by auto
next
  case (w_run k a) with w_run_inv [OF P i w_run(2,3)] show ?thesis by auto
next
  case (w_post k) with w_post_inv [OF i w_post(2,3)] show ?thesis by auto
qed

section \<open>The initial state\<close>

text \<open>\<open>pipe\<close> gives two descriptors when it succeeds.\<close>

definition pipe_ok :: "'w posix \<Rightarrow> bool" where
  "pipe_ok P \<longleftrightarrow> (\<forall>en w rd wr. fst (sys_pipe P en w) = Some (rd, wr) \<longrightarrow> 0 \<le> rd \<and> 0 \<le> wr)"

lemma init_nonblock_os: "init_nonblock P th fd e = Inr e' \<Longrightarrow> os_only e e'"
  by (auto simp: init_nonblock_def Let_def bind_res_Inr_iff split: prod.splits dest!: os_only_sys intro: os_only_trans)

lemma init_pipes_ok:
  assumes "pipe_ok P" and "init_pipes P th n e = Inr (fds, e')"
  shows "os_only e e' \<and> length fds = n \<and> (\<forall>(rd, wr)\<in>set fds. 0 \<le> rd \<and> 0 \<le> wr)"
  using assms(2)
proof (induction n arbitrary: e fds)
  case (Suc n)
  obtain p e1 where p: "sys th (sys_pipe P) e = (p, e1)" by fastforce
  with Suc.prems obtain rd wr where rw: "p = Some (rd, wr)" by (cases p) auto
  from Suc.prems p rw obtain e2 e3 fds' where s: "init_nonblock P th rd e1 = Inr e2" "init_nonblock P th wr e2 = Inr e3"
    "init_pipes P th n e3 = Inr (fds', e')" "fds = (rd, wr) # fds'" by (auto simp: bind_res_Inr_iff)
  have "fst (sys_pipe P (errno e th) (world e)) = Some (rd, wr)"
    using p rw by (auto simp: sys_def split: prod.splits)
  then have "0 \<le> rd \<and> 0 \<le> wr" using assms(1) by (auto simp: pipe_ok_def)
  with Suc.IH [OF s(3)] s(4) show ?case
    using os_only_sys [OF p] init_nonblock_os [OF s(1)] init_nonblock_os [OF s(2)] by (auto intro: os_only_trans)
qed simp

lemma init_env:
  assumes "pipe_ok P" and "init_coroutine_env P th n en w = Inr (fds, e)"
  shows "os_only (env_zero n en w) e" and "length fds = (if n = 0 then BACKGROUND_WORKER_CNT else n)"
    and "\<forall>(rd, wr)\<in>set fds. 0 \<le> rd \<and> 0 \<le> wr"
proof -
  have i: "init_pipes P th (if n = 0 then BACKGROUND_WORKER_CNT else n) (env_zero n en w) = Inr (fds, e)"
    using assms(2) by (simp add: init_coroutine_env_def Let_def env_zero_def)
  note o = init_pipes_ok [OF assms(1) i]
  show "os_only (env_zero n en w) e" "length fds = (if n = 0 then BACKGROUND_WORKER_CNT else n)"
    "\<forall>(rd, wr)\<in>set fds. 0 \<le> rd \<and> 0 \<le> wr" using o by blast+
qed

lemma init_system_with:
  assumes "os_only (env_zero n en w) e" and "\<And>k. 0 \<le> sint (v k)"
  shows "inv_with NB {} (\<lambda>_. O_none) [] [] (init_system e v)"
  unfolding inv_with_def
proof (intro conjI)
  obtain en' w' where e: "e = env_zero n en' w'" using assms(1) by (auto simp: os_only_def env_zero_def)
  let ?s = "init_system e v"
  show "queues_ok (\<lambda>_. O_none) [] [] (env ?s)"
    by (simp add: queues_ok_def init_system_def e env_zero_def list_new_def rep_init)
  show "owned_ok NB {} (\<lambda>_. O_none) (env ?s)" by (simp add: owned_ok_def init_system_def e env_zero_def)
  show "counts_ok [] [] ?s"
    by (simp add: counts_ok_def init_system_def e env_zero_def at_place_def BACKGROUND_WORKER_CNT_def)
  show "workers_ok {} (\<lambda>_. O_none) ?s" by (simp add: workers_ok_def init_system_def)
  show "manager_ok (\<lambda>_. O_none) ?s" by (simp add: manager_ok_def init_system_def)
  show "sems_ok (\<lambda>_. O_none) ?s" using assms(2) by (simp add: sems_ok_def init_system_def crt_sem_init_def)
qed

lemma init_system_inv:
  assumes "os_only (env_zero n en w) e" and "\<And>k. 0 \<le> sint (v k)"
  shows "sys_inv NB (init_system e v)"
  using init_system_with [where v = v, OF assms] unfolding sys_inv_def by blast

section \<open>Reachable states\<close>

text \<open>\<open>CurrReadPipe\<close>, the read end of the pipe of worker \<open>i\<close>.\<close>

definition CurrReadPipe :: "(int \<times> int) list \<Rightarrow> nat \<Rightarrow> int" where
  "CurrReadPipe fds i = (if i < length fds then fst (fds ! i) else 0)"

text \<open>The states, and faults, of a program that has initialised the library.\<close>

definition reachable ::
  "'w posix \<Rightarrow> int set \<Rightarrow> thread \<Rightarrow> nat \<Rightarrow> (thread \<Rightarrow> int) \<Rightarrow> 'w \<Rightarrow> (nat \<Rightarrow> u32) \<Rightarrow> 'w system res \<Rightarrow> bool" where
  "reachable P NB th n en w v r \<longleftrightarrow>
     (\<exists>fds e. init_coroutine_env P th n en w = Inr (fds, e) \<and>
        sys_reach P NB (CurrReadPipe fds) (init_system e v) r)"

text \<open>A run of the system is a run of the abstract scheduler.\<close>

lemma sys_reach_sched:
  assumes "sys_reach P NB pfd s0 r" and P: "posix_ok m NB P" and fd: "\<And>i. 0 \<le> pfd i"
    and 0: "inv_with NB {} (\<lambda>_. O_none) [] [] s0"
  shows "\<exists>s own xs ys. r = Inr s \<and> inv_with NB {} own xs ys s \<and> sched_reach \<lparr>place = own, todo = xs, doing = ys\<rparr>"
  using assms(1)
proof (induction rule: sys_reach.induct)
  case reach_init
  with 0 sched_start show ?case unfolding sched_init_def by blast
next
  case (reach_step s r)
  then obtain own xs ys where i: "inv_with NB {} own xs ys s" and a: "sched_reach \<lparr>place = own, todo = xs, doing = ys\<rparr>" by blast
  from sys_step_sim [OF P fd i reach_step.hyps(2)] sched_next [OF a] show ?case unfolding inv_to_def by blast
qed

lemma reachable_sched:
  assumes "posix_ok m NB P" and p: "pipe_ok P" and v: "\<And>k. 0 \<le> sint (v k)" and r: "reachable P NB th n en w v r"
  shows "\<exists>s own xs ys. r = Inr s \<and> inv_with NB {} own xs ys s \<and> sched_reach \<lparr>place = own, todo = xs, doing = ys\<rparr>"
proof -
  from r obtain fds e where i: "init_coroutine_env P th n en w = Inr (fds, e)"
    and s: "sys_reach P NB (CurrReadPipe fds) (init_system e v) r" by (auto simp: reachable_def)
  note ie = init_env [OF p i]
  have "0 \<le> CurrReadPipe fds k" for k using ie(3) nth_mem [of k fds] by (fastforce simp: CurrReadPipe_def)
  from sys_reach_sched [OF s assms(1) this init_system_with [OF ie(1) v]] show ?thesis .
qed

lemma reachable_inv:
  assumes "posix_ok m NB P" and "pipe_ok P" and "\<And>k. 0 \<le> sint (v k)" and "reachable P NB th n en w v r"
  shows "\<exists>s. r = Inr s \<and> sys_inv NB s"
  using reachable_sched [OF assms] unfolding sys_inv_def by blast

section \<open>Steps outside the obligations\<close>

text \<open>
  \<open>sys_step\<close> has the obligations of the user's program and of the machine as conditions. What follows are the
  steps that break one of them, each with the obligation it breaks: a socket request on a descriptor that is not
  non-blocking, on a negative descriptor or for \<open>2 ^ 63\<close> bytes or more; a request while the pipe of the worker
  whose turn it is holds 65536 bytes; no memory for a task; initialising a semaphore somebody waits in, or with a
  negative number; a post with another flag than \<open>CRT_SEM_NORMAL_PRIORITY\<close> or \<open>CRT_SEM_CRITICAL_PRIORITY\<close>; a post of
  a semaphore at \<open>INT_MAX\<close>; a post of a semaphore whose waiter has been posted and has not run yet; waiting in a
  semaphore in which another coroutine waits; no memory or no \<open>epoll\<close> for an event loop; an event for an
  empty pipe, or one with the error bit; a clock that goes back; and a descriptor the kernel does not watch while
  the watcher of a pipe or of an \<open>accept\<close> is on it.
\<close>

datatype breach =
    Bad_request
  | Full_pipe
  | No_memory
  | Bad_sem_init
  | Bad_flag
  | Sem_overflow
  | Second_post
  | Second_waiter
  | No_loop
  | Spurious_event
  | Clock_back
  | Rejected_fd

text \<open>Any request, with any arguments.\<close>

inductive any_request :: "('w coroutine_env_s \<Rightarrow> 'w coroutine_env_s res) \<Rightarrow> bool" where
  "any_request (coroutine_set_disk_open path flags va_mode)"
| "any_request (coroutine_set_disk_read fd ubuf cnt)"
| "any_request (coroutine_set_disk_write fd ubuf cnt)"
| "any_request (coroutine_set_sock_read fd ubuf cnt ms)"
| "any_request (coroutine_set_sock_write fd ubuf cnt ms)"
| "any_request (coroutine_set_sock_connect ip port ms)"
| "any_request (set_msleep ms64)"
| "any_request (set_bg_run f x res)"
| "any_request (set_accept fd ad len)"

inductive any_step :: "'w posix \<Rightarrow> int set \<Rightarrow> (nat \<Rightarrow> int) \<Rightarrow> 'w system \<Rightarrow> breach option \<Rightarrow> 'w system res \<Rightarrow> bool"
  for P NB pfd where
  a_step: "sys_step P NB pfd s r \<Longrightarrow> any_step P NB pfd s None r"
| a_request:
    "mpc s = M_run a \<Longrightarrow> in_wait s a = None \<Longrightarrow> any_request f \<Longrightarrow> \<not> is_request NB f \<Longrightarrow>
     any_step P NB pfd s (Some Bad_request)
       (map_sum id (\<lambda>e. s\<lparr>env := e, mpc := M_write a\<rparr>) (bind_res (f (env s)) (notify_push Manager)))"
| a_write:
    "mpc s = M_write a \<Longrightarrow> \<not> length (pipe_channel (env s) (next_worker (env s))) < PIPE_CAPACITY \<Longrightarrow>
     any_step P NB pfd s (Some Full_pipe) (map_sum id (\<lambda>e. s\<lparr>env := e, mpc := M_swap a\<rparr>) (notify_write (env s)))"
| a_create:
    "mpc s = M_run a \<Longrightarrow> in_wait s a = None \<Longrightarrow>
     any_step P NB pfd s (Some No_memory) (map_sum id (\<lambda>(id, e). s\<lparr>env := e\<rparr>) (crt_create None attr br x (env s)))"
| a_f_create:
    "any_step P NB pfd s (Some No_memory)
       (map_sum id (\<lambda>(id, e). s\<lparr>env := e, creators := creators s + 1\<rparr>) (create_push None attr br x (env s)))"
| a_sem_init:
    "mpc s = M_run a \<Longrightarrow> in_wait s a = None \<Longrightarrow> \<not> (sem_task_ptr (sems s k) = None \<and> 0 \<le> sint v) \<Longrightarrow>
     any_step P NB pfd s (Some Bad_sem_init) (Inr (s\<lparr>sems := (sems s)(k := crt_sem_init v)\<rparr>))"
| a_flag:
    "mpc s = M_run a \<Longrightarrow> in_wait s a = None \<Longrightarrow> flag \<notin> {0, 2} \<Longrightarrow>
     any_step P NB pfd s (Some Bad_flag)
       (map_sum id (\<lambda>(sm, e). s\<lparr>env := e, sems := (sems s)(k := sm)\<rparr>) (crt_sem_priority_post flag (sems s k) (env s)))"
| a_overflow:
    "mpc s = M_run a \<Longrightarrow> in_wait s a = None \<Longrightarrow> flag \<in> {0, 2} \<Longrightarrow> \<not> sem_value (sems s k) < 2147483647 \<Longrightarrow>
     any_step P NB pfd s (Some Sem_overflow)
       (map_sum id (\<lambda>(sm, e). s\<lparr>env := e, sems := (sems s)(k := sm)\<rparr>) (crt_sem_priority_post flag (sems s k) (env s)))"
| a_second_post:
    "mpc s = M_run a \<Longrightarrow> in_wait s a = None \<Longrightarrow> flag \<in> {0, 2} \<Longrightarrow> sem_task_ptr (sems s k) \<noteq> None \<Longrightarrow> \<not> sem_value (sems s k) \<le> 0 \<Longrightarrow>
     any_step P NB pfd s (Some Second_post)
       (map_sum id (\<lambda>(sm, e). s\<lparr>env := e, sems := (sems s)(k := sm)\<rparr>) (crt_sem_priority_post flag (sems s k) (env s)))"
| a_sem_wait:
    "mpc s = M_run a \<Longrightarrow> in_wait s a \<in> {None, Some k} \<Longrightarrow>
     \<not> (sem_value (sems s k) > 0 \<or> sem_task_ptr (sems s k) \<in> {None, Some a}) \<Longrightarrow>
     any_step P NB pfd s (Some Second_waiter)
       (map_sum id (\<lambda>(ret, sm, e).
          s\<lparr>env := e, sems := (sems s)(k := sm), in_wait := (in_wait s)(a := if ret then None else Some k),
            mpc := (if ret then M_run a else M_back a)\<rparr>)
         (crt_sem_wait (sems s k) (env s)))"
| a_start:
    "i < wcount s \<Longrightarrow> wpc s i = W_start \<Longrightarrow>
     any_step P NB pfd s (Some No_loop)
       (map_sum id (\<lambda>e. s\<lparr>env := e, wpc := (wpc s)(i := W_loop)\<rparr>) (new_background_worker False (pfd i) now i (env s)))"
| a_event:
    "i < wcount s \<Longrightarrow> wpc s i = W_loop \<Longrightarrow>
     \<not> (ev AND EV_ERROR = 0 \<and> (w_fd (ws (worker_ev (env s) i) PipeW) = int fd \<longrightarrow> pipe_channel (env s) i \<noteq> [])) \<Longrightarrow>
     any_step P NB pfd s (Some Spurious_event) (Inr (set_loop i (fd_event fd ev (worker_ev (env s) i)) s))"
| a_clock:
    "i < wcount s \<Longrightarrow> wpc s i = W_loop \<Longrightarrow> \<not> mn_now (worker_ev (env s) i) \<le> now \<Longrightarrow>
     any_step P NB pfd s (Some Clock_back) (Inr (set_loop i ((worker_ev (env s) i)\<lparr>mn_now := now\<rparr>) s))"
| a_kill:
    "i < wcount s \<Longrightarrow> wpc s i = W_loop \<Longrightarrow> fd_kill fd (worker_ev (env s) i) = Some r \<Longrightarrow>
     \<not> (\<forall>w\<in>watching (worker_ev (env s) i). w_fd (ws (worker_ev (env s) i) w) = int fd \<longrightarrow>
       cb (ws (worker_ev (env s) i) w) \<notin> {Cb_new_event_handler, Cb_ev_tcp_accept}) \<Longrightarrow>
     any_step P NB pfd s (Some Rejected_fd) (map_sum id (\<lambda>l. set_loop i l s) r)"
| a_reify:
    "i < wcount s \<Longrightarrow> wpc s i = W_loop \<Longrightarrow> fd_reify accept (worker_ev (env s) i) = Some r \<Longrightarrow>
     \<not> (\<forall>w\<in>rejected is_timer accept (worker_ev (env s) i).
       cb (ws (worker_ev (env s) i) w) \<notin> {Cb_new_event_handler, Cb_ev_tcp_accept}) \<Longrightarrow>
     any_step P NB pfd s (Some Rejected_fd) (map_sum id (\<lambda>l. set_loop i l s) r)"

inductive_cases any_step_NoneE: "any_step P NB pfd s None r"
inductive_cases any_step_SomeE: "any_step P NB pfd s (Some b) r"

text \<open>A run with its breaches, in order: \<open>None\<close> for every step inside the obligations.\<close>

inductive any_reach :: "'w posix \<Rightarrow> int set \<Rightarrow> (nat \<Rightarrow> int) \<Rightarrow> 'w system \<Rightarrow> breach option list \<Rightarrow> 'w system res \<Rightarrow> bool"
  for P NB pfd s0 where
  any_init: "any_reach P NB pfd s0 [] (Inr s0)"
| any_next: "any_reach P NB pfd s0 bs (Inr s) \<Longrightarrow> any_step P NB pfd s b r \<Longrightarrow> any_reach P NB pfd s0 (bs @ [b]) r"

definition any_run ::
  "'w posix \<Rightarrow> int set \<Rightarrow> thread \<Rightarrow> nat \<Rightarrow> (thread \<Rightarrow> int) \<Rightarrow> 'w \<Rightarrow> (nat \<Rightarrow> u32) \<Rightarrow> breach option list \<Rightarrow> 'w system res \<Rightarrow> bool" where
  "any_run P NB th n en w v bs r \<longleftrightarrow>
     (\<exists>fds e. init_coroutine_env P th n en w = Inr (fds, e) \<and> any_reach P NB (CurrReadPipe fds) (init_system e v) bs r)"

lemma clean_reach: "any_reach P NB pfd s0 bs r \<Longrightarrow> set bs \<subseteq> {None} \<Longrightarrow> sys_reach P NB pfd s0 r"
proof (induction rule: any_reach.induct)
  case any_init
  show ?case by (rule reach_init)
next
  case (any_next bs s b r)
  then have "b = None" "sys_reach P NB pfd s0 (Inr s)" by auto
  with any_next.hyps(2) show ?case by (auto elim!: any_step_NoneE intro: reach_step)
qed

lemma clean_run: "any_run P NB th n en w v bs r \<Longrightarrow> set bs \<subseteq> {None} \<Longrightarrow> reachable P NB th n en w v r"
  unfolding any_run_def reachable_def using clean_reach by blast

lemma reach_clean: "sys_reach P NB pfd s0 r \<Longrightarrow> \<exists>k. any_reach P NB pfd s0 (replicate k None) r"
proof (induction rule: sys_reach.induct)
  case reach_init
  show ?case using any_init [of P NB pfd s0] by (intro exI [of _ 0]) simp
next
  case (reach_step s r)
  then obtain k where "any_reach P NB pfd s0 (replicate k None) (Inr s)" by blast
  from any_next [OF this a_step [OF reach_step.hyps(2)]] have "any_reach P NB pfd s0 (replicate (Suc k) None) r"
    by (simp add: replicate_append_same)
  then show ?case by blast
qed

text \<open>Four of the breaches are faults themselves.\<close>

lemma breach_at_once:
  assumes "any_step P NB pfd s (Some b) r"
  shows "(b = Full_pipe \<longrightarrow> r = Inl AssertFailed) \<and> (b = No_memory \<longrightarrow> r = Inl NullDeref) \<and>
    (b = Bad_flag \<longrightarrow> r = Inl Aborted) \<and> (b = No_loop \<longrightarrow> r = Inl AssertFailed)"
proof -
  have "crt_sem_priority_post flag sm e = Inl Aborted" if "flag \<notin> {0, 2}" for flag sm and e :: "'a coroutine_env_s"
    using that by (simp add: crt_sem_priority_post_def)
  with assms show ?thesis
    by cases (auto simp: notify_write_def pipe_write_def crt_create_def create_push_def new_background_worker_def simp del: insert_iff)
qed

lemma last_breach:
  assumes "any_run P NB th n en w v (bs @ [Some b]) r"
  shows "(b = Full_pipe \<longrightarrow> r = Inl AssertFailed) \<and> (b = No_memory \<longrightarrow> r = Inl NullDeref) \<and>
    (b = Bad_flag \<longrightarrow> r = Inl Aborted) \<and> (b = No_loop \<longrightarrow> r = Inl AssertFailed)"
proof -
  from assms obtain fds e where "any_reach P NB (CurrReadPipe fds) (init_system e v) (bs @ [Some b]) r" unfolding any_run_def by blast
  then obtain s where "any_step P NB (CurrReadPipe fds) s (Some b) r" by cases auto
  then show ?thesis by (rule breach_at_once)
qed

section \<open>The steps of the manager among those of the others\<close>

text \<open>
  A run with the number of the manager's moves in it: a step that changes where the manager stands
  is one of its own, every other thread leaves that alone.
\<close>

inductive manager_run :: "'w posix \<Rightarrow> int set \<Rightarrow> (nat \<Rightarrow> int) \<Rightarrow> 'w system \<Rightarrow> nat \<Rightarrow> 'w system \<Rightarrow> bool"
  for P NB pfd s where
  run_begin: "manager_run P NB pfd s 0 s"
| run_other: "manager_run P NB pfd s k s1 \<Longrightarrow> sys_step P NB pfd s1 (Inr s2) \<Longrightarrow> mpc s2 = mpc s1 \<Longrightarrow> manager_run P NB pfd s k s2"
| run_manager: "manager_run P NB pfd s k s1 \<Longrightarrow> sys_step P NB pfd s1 (Inr s2) \<Longrightarrow> mpc s2 \<noteq> mpc s1 \<Longrightarrow> manager_run P NB pfd s (Suc k) s2"

lemma frames_sem:
  "create_push m attr br x e = Inr (c, e') \<Longrightarrow> manager_sem e' = manager_sem e"
  "new_background_worker b fd now i e = Inr e' \<Longrightarrow> manager_sem e' = manager_sem e"
  "event_byte i e = Inr e' \<Longrightarrow> manager_sem e' = manager_sem e"
  "event_take e = Inr (a, e') \<Longrightarrow> manager_sem e' = manager_sem e"
  by (auto simp: create_push_def Push_todo_def new_background_worker_def on_loop_def event_byte_def pipe_read_def event_take_def
      Shift_doing_def bind_res_Inr_iff Let_def split: option.splits if_splits list.splits prod.splits)

lemma map_sum_Inr: "map_sum id f r = Inr y \<longleftrightarrow> (\<exists>x. r = Inr x \<and> y = f x)"
  by (cases r) auto

lemma Inr_map_sum: "Inr y = map_sum id f r \<longleftrightarrow> (\<exists>x. r = Inr x \<and> y = f x)"
  by (cases r) auto

lemma step_at_wait:
  assumes "sys_step P NB pfd s (Inr s')" and "mpc s = M_wait"
  shows "mpc s' = M_take \<and> nxt (env s') = nxt (env s) \<and> todo_queue (env s') = todo_queue (env s) \<or>
    mpc s' = M_wait \<and> manager_sem (env s) \<le> manager_sem (env s')"
  using assms(1)
  by (cases rule: sys_stepE)
    (use assms(2) in \<open>auto simp: Inr_map_sum sem_wait_manager_def after_handler_def sem_post_manager_def set_loop_def
      dest!: frames_sem split: if_splits\<close>)

lemma step_at_take:
  assumes "sys_step P NB pfd s (Inr s')" and "mpc s = M_take"
  shows "(\<exists>a e. manager_take (env s) = Inr (a, e) \<and> mpc s' = M_switch a) \<or> mpc s' = M_take"
  using assms(1)
  by (cases rule: sys_stepE) (use assms(2) in \<open>auto simp: Inr_map_sum after_handler_def set_loop_def split: if_splits\<close>)

lemma step_at_switch:
  assumes "sys_step P NB pfd s (Inr s')" and "mpc s = M_switch a"
  shows "mpc s' = M_run a \<or> mpc s' = M_switch a \<or> (\<exists>sp e. manager_switch sp a (env s) = Inr (False, e))"
  using assms(1)
  by (cases rule: sys_stepE) (use assms(2) in \<open>auto simp: Inr_map_sum after_handler_def set_loop_def split: if_splits\<close>)

section \<open>An example\<close>

text \<open>
  A kernel in which every call succeeds, reads give the end of the file and writes take all
  they get, and a program that creates one coroutine, up to the moment it runs.
\<close>

definition ex_posix :: "unit posix" where
  "ex_posix =
     \<lparr>sys_open = (\<lambda>p f m en w. (3, en, w)), sys_read = (\<lambda>fd b n en w. (0, en, w)),
      sys_write = (\<lambda>fd b n en w. (uint n, en, w)), sys_close = (\<lambda>fd en w. (0, en, w)),
      sys_socket = (\<lambda>en w. (5, en, w)), sys_reuseaddr = (\<lambda>fd en w. (0, en, w)),
      sys_connect = (\<lambda>fd ip port en w. (0, en, w)), sys_so_error = (\<lambda>fd en w. ((0, 0), en, w)),
      sys_accept = (\<lambda>fd ad len en w. (6, en, w)), sys_bind = (\<lambda>fd ip port en w. (0, en, w)),
      sys_listen = (\<lambda>fd k en w. (0, en, w)), sys_pipe = (\<lambda>en w. (Some (3, 4), en, w)),
      sys_getfl = (\<lambda>fd en w. (2048, en, w)), sys_setfl = (\<lambda>fd fl en w. (0, en, w)),
      sys_bg = (\<lambda>f x res en w. (0, en, w))\<rparr>"

lemma ex_posix_ok: "posix_ok (\<lambda>_. 0) NB ex_posix" "pipe_ok ex_posix"
proof -
  have "2048 AND O_NONBLOCK \<noteq> 0" by (simp add: O_NONBLOCK_def)
  moreover have "-1 \<le> uint k \<and> uint k \<noteq> -1" for k :: u64 using uint_ge_0 [of k] by linarith
  ultimately show "posix_ok (\<lambda>_. 0) NB ex_posix" by (simp add: posix_ok_def rw_ok_def ex_posix_def)
  show "pipe_ok ex_posix" by (simp add: pipe_ok_def ex_posix_def)
qed

definition ex_junk :: task where
  "ex_junk = \<lparr>action = act_msleep, args = General_arg \<lparr>g_u64 = 0\<rparr>, ret_val = None, ret_err_code = None,
     task_context = Ctx_none, stack_ptr = None, have_io = 0, need_io = 0\<rparr>"

lemma ex_init: "init_coroutine_env ex_posix (Foreign 0) 2 (\<lambda>_. 0) () = Inr ([(3, 4), (3, 4)], env_zero 2 (\<lambda>_. 0) ())"
  by (simp add: init_coroutine_env_def env_zero_def numeral_2_eq_2 sys_def ex_posix_def init_nonblock_def fun_upd_idem)

lemma ex_created:
  "\<exists>e id. create_push (Some (1, ex_junk)) None 7 9 (env_zero 2 (\<lambda>_. 0) ()) = Inr (id, e) \<and>
     stailq_rep (nxt e) (todo_queue e) [1] \<and>
     tasks e = (\<lambda>_. None)(1 \<mapsto> ex_junk\<lparr>action := act_new_coroutine,
       args := Init_arg \<lparr>func = 7, stack_size = COROUTINE_STACK_SIZE, func_arg = 9\<rparr>\<rparr>) \<and>
     manager_sem e = 0 \<and> queue_heads e = UNIV"
  by (simp add: create_push_def env_zero_def ex_junk_def Push_todo_def queue_push_def live_def list_push_def
      STAILQ_INSERT_TAIL_def list_new_def STAILQ_INIT_def store_last_def stailq_rep_def last_slot_def)

lemma ex_queued:
  "\<exists>e. sys_reach ex_posix {} (CurrReadPipe [(3, 4), (3, 4)]) (init_system (env_zero 2 (\<lambda>_. 0) ()) (\<lambda>_. 0))
      (Inr ((init_system (env_zero 2 (\<lambda>_. 0) ()) (\<lambda>_. 0))\<lparr>env := e, creators := 1\<rparr>)) \<and>
    stailq_rep (nxt e) (todo_queue e) [1] \<and> manager_sem e = 0 \<and> queue_heads e = UNIV \<and>
    tasks e = (\<lambda>_. None)(1 \<mapsto> ex_junk\<lparr>action := act_new_coroutine,
       args := Init_arg \<lparr>func = 7, stack_size = COROUTINE_STACK_SIZE, func_arg = 9\<rparr>\<rparr>)"
proof -
  let ?s0 = "init_system (env_zero 2 (\<lambda>_. 0) ()) (\<lambda>_. 0)"
  obtain e id where c: "create_push (Some (1, ex_junk)) None 7 9 (env ?s0) = Inr (id, e)"
    "stailq_rep (nxt e) (todo_queue e) [1]"
    "tasks e = (\<lambda>_. None)(1 \<mapsto> ex_junk\<lparr>action := act_new_coroutine,
       args := Init_arg \<lparr>func = 7, stack_size = COROUTINE_STACK_SIZE, func_arg = 9\<rparr>\<rparr>)" "manager_sem e = 0" "queue_heads e = UNIV"
    using ex_created by (auto simp: init_system_def)
  have "sys_reach ex_posix {} (CurrReadPipe [(3, 4), (3, 4)]) ?s0 (Inr (?s0\<lparr>env := e, creators := 1\<rparr>))"
    using reach_step [OF reach_init, OF f_create [where s = ?s0 and b = 1 and junk = ex_junk and attr = None and br = 7 and x = 9]] c(1)
    by (simp add: init_system_def env_zero_def)
  with c show ?thesis by blast
qed

lemma ex_taking:
  "\<exists>e. sys_reach ex_posix {} (CurrReadPipe [(3, 4), (3, 4)]) (init_system (env_zero 2 (\<lambda>_. 0) ()) (\<lambda>_. 0))
      (Inr ((init_system (env_zero 2 (\<lambda>_. 0) ()) (\<lambda>_. 0))\<lparr>env := e, creators := 0, mpc := M_take\<rparr>)) \<and>
    stailq_rep (nxt e) (todo_queue e) [1] \<and> queue_heads e = UNIV \<and>
    tasks e = (\<lambda>_. None)(1 \<mapsto> ex_junk\<lparr>action := act_new_coroutine,
       args := Init_arg \<lparr>func = 7, stack_size = COROUTINE_STACK_SIZE, func_arg = 9\<rparr>\<rparr>)"
proof -
  let ?s0 = "init_system (env_zero 2 (\<lambda>_. 0) ()) (\<lambda>_. 0)"
  let ?R = "sys_reach ex_posix {} (CurrReadPipe [(3, 4), (3, 4)]) ?s0"
  from ex_queued obtain e where e: "?R (Inr (?s0\<lparr>env := e, creators := 1\<rparr>))" "stailq_rep (nxt e) (todo_queue e) [1]" "manager_sem e = 0" "queue_heads e = UNIV"
    "tasks e = (\<lambda>_. None)(1 \<mapsto> ex_junk\<lparr>action := act_new_coroutine,
       args := Init_arg \<lparr>func = 7, stack_size = COROUTINE_STACK_SIZE, func_arg = 9\<rparr>\<rparr>)" by blast
  have 2: "?R (Inr (?s0\<lparr>env := sem_post_manager e, creators := 0\<rparr>))" using reach_step [OF e(1), OF f_post] by simp
  have "?R (Inr (?s0\<lparr>env := e, creators := 0, mpc := M_take\<rparr>))"
    using reach_step [OF 2, OF m_wait [where e = e]] e(3) by (simp add: init_system_def sem_wait_manager_def sem_post_manager_def)
  with e(2,4,5) show ?thesis by blast
qed

lemma ex_run: "\<exists>s. reachable ex_posix {} (Foreign 0) 2 (\<lambda>_. 0) () (\<lambda>_. 0) (Inr s) \<and> mpc s = M_run 1"
proof -
  let ?s0 = "init_system (env_zero 2 (\<lambda>_. 0) ()) (\<lambda>_. 0)"
  let ?R = "sys_reach ex_posix {} (CurrReadPipe [(3, 4), (3, 4)]) ?s0"
  from ex_taking obtain e where e: "?R (Inr (?s0\<lparr>env := e, creators := 0, mpc := M_take\<rparr>))" "stailq_rep (nxt e) (todo_queue e) [1]" "queue_heads e = UNIV"
    "tasks e = (\<lambda>_. None)(1 \<mapsto> ex_junk\<lparr>action := act_new_coroutine,
       args := Init_arg \<lparr>func = 7, stack_size = COROUTINE_STACK_SIZE, func_arg = 9\<rparr>\<rparr>)" by blast
  from stq.rep_shift_Cons [OF e(2)] obtain h where h: "list_shift (nxt e) (todo_queue e) = Inr (Some 1, h)" by blast
  then have t: "manager_take e = Inr (1, e\<lparr>todo_queue := h\<rparr>)"
    using rep_first [OF e(2)] e(3,4) by (simp add: manager_take_def Shift_todo_def queue_shift_def live_def deref_def)
  let ?s4 = "?s0\<lparr>creators := 0, env := e\<lparr>todo_queue := h\<rparr>, mpc := M_switch 1\<rparr>"
  have 4: "?R (Inr ?s4)" using reach_step [OF e(1), OF m_take] t by simp
  obtain e5 where "manager_switch 2 1 (e\<lparr>todo_queue := h\<rparr>) = Inr (True, e5)"
    using e(4) by (auto simp: manager_switch_def get_task_def upd_task_def transporter_def)
  then have "?R (Inr (?s4\<lparr>env := e5, mpc := M_run 1\<rparr>))" using reach_step [OF 4, OF m_switch [where a = 1 and sp = 2]] by simp
  then show ?thesis using ex_init by (fastforce simp: reachable_def)
qed

end
