(* ===== verification/Acoro_Results.thy ===== *)
theory Acoro_Results
  imports Acoro_Safety
begin

text \<open>
  What a request to a background worker gives back: a worker finishes every request or parks it in
  its loop, a callback always returns, socket transfers move the bytes they report, and the
  results of timeouts and of failed connections.
\<close>

section \<open>Input and output of the kernel\<close>

text \<open>
  \<open>received\<close>: \<open>n\<close> bytes of the input of a descriptor have been stored at \<open>p\<close> and nothing else in
  memory has changed. \<open>sent\<close>: the \<open>n\<close> bytes at \<open>p\<close> have been appended to the output of a
  descriptor.
\<close>

definition received ::
  "('w \<Rightarrow> uptr \<Rightarrow> u8) \<Rightarrow> ('w \<Rightarrow> int \<Rightarrow> u8 list) \<Rightarrow> int \<Rightarrow> 'w \<Rightarrow> uptr \<Rightarrow> int \<Rightarrow> 'w \<Rightarrow> bool" where
  "received mem inp fd w p n w' \<longleftrightarrow>
     nat n \<le> length (inp w fd) \<and> inp w' fd = drop (nat n) (inp w fd) \<and>
     (\<forall>q. mem w' q = (if uint (q - p) < n then inp w fd ! nat (uint (q - p)) else mem w q))"

definition sent ::
  "('w \<Rightarrow> uptr \<Rightarrow> u8) \<Rightarrow> ('w \<Rightarrow> int \<Rightarrow> u8 list) \<Rightarrow> int \<Rightarrow> 'w \<Rightarrow> uptr \<Rightarrow> int \<Rightarrow> 'w \<Rightarrow> bool" where
  "sent mem out fd w p n w' \<longleftrightarrow>
     mem w' = mem w \<and> out w' fd = out w fd @ map (\<lambda>k. mem w (p + of_nat k)) [0..<nat n]"

text \<open>
  The documented behaviour of \<open>read\<close>, \<open>write\<close> and \<open>fcntl\<close> on a descriptor: \<open>read\<close> stores as many
  bytes of the input as it returns, \<open>write\<close> sends as many as it returns, a failed call and
  \<open>F_GETFL\<close> move none.
\<close>

definition reads_input :: "('w \<Rightarrow> uptr \<Rightarrow> u8) \<Rightarrow> ('w \<Rightarrow> int \<Rightarrow> u8 list) \<Rightarrow> int \<Rightarrow> 'w posix \<Rightarrow> bool" where
  "reads_input mem inp fd P \<longleftrightarrow>
     (\<forall>p n en w. case sys_read P fd p n en w of (r, en', w') \<Rightarrow> received mem inp fd w p (max 0 r) w') \<and>
     (\<forall>fd' p en w. received mem inp fd w p 0 (snd (snd (sys_getfl P fd' en w))))"

definition writes_output :: "('w \<Rightarrow> uptr \<Rightarrow> u8) \<Rightarrow> ('w \<Rightarrow> int \<Rightarrow> u8 list) \<Rightarrow> int \<Rightarrow> 'w posix \<Rightarrow> bool" where
  "writes_output mem out fd P \<longleftrightarrow>
     (\<forall>p n en w. case sys_write P fd p n en w of (r, en', w') \<Rightarrow> sent mem out fd w p (max 0 r) w') \<and>
     (\<forall>fd' p en w. sent mem out fd w p 0 (snd (snd (sys_getfl P fd' en w))))"

lemma received_none: "received mem inp fd w p 0 w"
  by (simp add: received_def not_less)

lemma mod_below:
  fixes d n :: int
  assumes "0 \<le> d" and "d < 2 ^ 64" and "0 \<le> n" and "n < 2 ^ 63"
  shows "(d - n) mod 2 ^ 64 = (if d < n then d - n + 2 ^ 64 else d - n)"
proof (cases "d < n")
  case True
  then have "(d - n + 2 ^ 64) mod 2 ^ 64 = d - n + 2 ^ 64" using assms by (intro mod_pos_pos_trivial) auto
  with True show ?thesis by simp
next
  case False
  then have "(d - n) mod 2 ^ 64 = d - n" using assms by (intro mod_pos_pos_trivial) auto
  with False show ?thesis by simp
qed

lemma uint_minus_shift:
  fixes p q :: u64
  assumes "0 \<le> n" and "n < 2 ^ 63"
  shows "uint (q - (p + of_int n)) = (if uint (q - p) < n then uint (q - p) - n + 2 ^ 64 else uint (q - p) - n)"
proof -
  have n: "uint (of_int n :: u64) = n" using assms by (simp add: uint_need)
  have "uint (q - (p + of_int n)) = uint ((q - p) - of_int n)" by (simp only: diff_diff_eq)
  also have "\<dots> = (uint (q - p) - n) mod 2 ^ 64" by (simp only: uint_word_ariths(2) n) simp
  also have "\<dots> = (if uint (q - p) < n then uint (q - p) - n + 2 ^ 64 else uint (q - p) - n)"
    by (rule mod_below) (use assms uint_ge_0 [of "q - p"] uint_lt2p [of "q - p"] in simp_all)
  finally show ?thesis .
qed

lemma received_more:
  assumes n: "0 \<le> n" "0 \<le> k" "n + k < 2 ^ 63"
    and r: "received mem inp fd w p n w1" "received mem inp fd w1 (p + of_int n) k w2"
  shows "received mem inp fd w p (n + k) w2"
proof -
  have len: "nat (n + k) = nat n + nat k" using n by (simp add: nat_add_distrib)
  have "mem w2 q = (if uint (q - p) < n + k then inp w fd ! nat (uint (q - p)) else mem w q)" for q
  proof -
    define d where "d = uint (q - p)"
    have d0: "0 \<le> d" by (simp add: d_def)
    have sh: "uint (q - (p + of_int n)) = (if d < n then d - n + 2 ^ 64 else d - n)"
      using uint_minus_shift [of n q p] n by (simp add: d_def)
    show ?thesis
    proof (cases "d < n")
      case True
      then have "\<not> uint (q - (p + of_int n)) < k" using sh n d0 by auto
      with r True n show ?thesis by (simp add: received_def flip: d_def)
    next
      case False
      then have "nat n + nat (d - n) = nat d" using n by (simp flip: nat_add_distrib)
      with r False n sh show ?thesis by (auto simp: received_def simp flip: d_def)
    qed
  qed
  moreover have "nat (n + k) \<le> length (inp w fd)" using r len by (auto simp: received_def)
  moreover have "inp w2 fd = drop (nat (n + k)) (inp w fd)" using r len by (simp add: received_def add.commute)
  ultimately show ?thesis by (simp add: received_def)
qed

lemma reads_input_moves:
  assumes "reads_input mem inp fd P"
  shows "moves (received mem inp fd) fd (sys_read P)"
  unfolding moves_def
proof (intro conjI allI impI)
  show "received mem inp fd w p 0 w" for w p by (rule received_none)
  show "received mem inp fd w p (n + k) w2"
    if "0 \<le> n \<and> 0 \<le> k \<and> n + k < 2 ^ 63 \<and> received mem inp fd w p n w1 \<and> received mem inp fd w1 (p + of_int n) k w2"
    for w p n w1 k w2 using received_more [of n k mem inp fd w p w1 w2] that by simp
  show "case sys_read P fd p n en w of (r, en', w') \<Rightarrow> r \<le> uint n \<and> r < 2 ^ 63 \<longrightarrow> received mem inp fd w p (max 0 r) w'"
    for p n en w using assms unfolding reads_input_def by (simp add: split_beta)
qed

lemma sent_more:
  assumes n: "0 \<le> n" "0 \<le> k" and s: "sent mem out fd w p n w1" "sent mem out fd w1 (p + of_int n) k w2"
  shows "sent mem out fd w p (n + k) w2"
proof -
  have "map (\<lambda>j. mem w (p + of_nat j)) [0..<nat (n + k)] =
      map (\<lambda>j. mem w (p + of_nat j)) [0..<nat n] @ map (\<lambda>j. mem w (p + of_int n + of_nat j)) [0..<nat k]"
  proof -
    have "[0..<nat (n + k)] = [0..<nat n] @ map (\<lambda>j. j + nat n) [0..<nat k]"
      using n upt_add_eq_append [of 0 "nat n" "nat k"] map_add_upt [of "nat n" "nat k"]
      by (simp only: nat_add_distrib add.commute [of "nat k"] le0)
    moreover have "p + of_int n + of_nat j = p + of_nat (j + nat n)" for j using n by simp
    ultimately show ?thesis by (simp add: comp_def ac_simps)
  qed
  with s show ?thesis by (simp add: sent_def)
qed

lemma writes_output_moves:
  assumes "writes_output mem out fd P"
  shows "moves (sent mem out fd) fd (sys_write P)"
  unfolding moves_def
proof (intro conjI allI impI)
  show "sent mem out fd w p 0 w" for w p by (simp add: sent_def)
  show "sent mem out fd w p (n + k) w2"
    if "0 \<le> n \<and> 0 \<le> k \<and> n + k < 2 ^ 63 \<and> sent mem out fd w p n w1 \<and> sent mem out fd w1 (p + of_int n) k w2"
    for w p n w1 k w2 using sent_more [of n k mem out fd w p w1 w2] that by simp
  show "case sys_write P fd p n en w of (r, en', w') \<Rightarrow> r \<le> uint n \<and> r < 2 ^ 63 \<longrightarrow> sent mem out fd w p (max 0 r) w'"
    for p n en w using assms unfolding writes_output_def by (simp add: split_beta)
qed

section \<open>Examples\<close>

text \<open>
  A kernel whose world is a memory, the input and the output of every descriptor: \<open>read\<close> takes at
  most two bytes at a time and reports \<open>EAGAIN\<close> when there are none.
\<close>

definition ex_net :: "((uptr \<Rightarrow> u8) \<times> (int \<Rightarrow> u8 list) \<times> (int \<Rightarrow> u8 list)) posix" where
  "ex_net =
     \<lparr>sys_open = (\<lambda>p f m en w. (0, en, w)),
      sys_read = (\<lambda>fd p n en (mem, inp, out).
        let k = min (min 2 (uint n)) (int (length (inp fd)))
        in if k = 0 then (-1, EAGAIN, mem, inp, out)
           else (k, en, (\<lambda>q. if uint (q - p) < k then inp fd ! nat (uint (q - p)) else mem q), inp(fd := drop (nat k) (inp fd)), out)),
      sys_write = (\<lambda>fd p n en (mem, inp, out).
        let k = min 2 (uint n)
        in (k, en, mem, inp, out(fd := out fd @ map (\<lambda>j. mem (p + of_nat j)) [0..<nat k]))),
      sys_close = (\<lambda>fd en w. (0, en, w)),
      sys_socket = (\<lambda>en w. (5, en, w)), sys_reuseaddr = (\<lambda>fd en w. (0, en, w)),
      sys_connect = (\<lambda>fd ip port en w. (-1, EINPROGRESS, w)), sys_so_error = (\<lambda>fd en w. ((0, 111), en, w)),
      sys_accept = (\<lambda>fd ad len en w. (6, en, w)), sys_bind = (\<lambda>fd ip port en w. (0, en, w)),
      sys_listen = (\<lambda>fd k en w. (0, en, w)), sys_pipe = (\<lambda>en w. (Some (3, 4), en, w)),
      sys_getfl = (\<lambda>fd en w. (2048, en, w)), sys_setfl = (\<lambda>fd fl en w. (0, en, w)),
      sys_bg = (\<lambda>f x res en w. (0, en, w))\<rparr>"

text \<open>Every descriptor has three bytes of input.\<close>

definition ex_input :: "(uptr \<Rightarrow> u8) \<times> (int \<Rightarrow> u8 list) \<times> (int \<Rightarrow> u8 list)" where
  "ex_input = (\<lambda>_. 0, \<lambda>_. [10, 11, 12], \<lambda>_. [])"

lemma ex_net_reads: "reads_input fst (\<lambda>w. fst (snd w)) fd ex_net"
  by (auto simp: reads_input_def received_def ex_net_def Let_def)

lemma ex_net_writes: "writes_output fst (\<lambda>w. snd (snd w)) fd ex_net"
  by (auto simp: writes_output_def sent_def ex_net_def Let_def)

lemma ex_net_ok: "posix_ok (\<lambda>_. 0) UNIV ex_net"
proof -
  have "-1 \<le> uint k \<and> uint k \<noteq> -1" for k :: u64 using uint_ge_0 [of k] by linarith
  then show ?thesis
    by (auto simp: posix_ok_def rw_ok_def ex_net_def Let_def min_def EAGAIN_def EINTR_def O_NONBLOCK_def)
qed

text \<open>A worker that has taken task 1, a request \<open>x\<close> with action \<open>act\<close>, and has nothing else to do.\<close>

definition ex_hand :: "action_t \<Rightarrow> args_u \<Rightarrow> 'w \<Rightarrow> 'w coroutine_env_s" where
  "ex_hand act x w = (env_zero 1 (\<lambda>_. 0) w)\<lparr>tasks := (\<lambda>_. None)(1 \<mapsto> ex_junk\<lparr>action := act, args := x\<rparr>)\<rparr>"

lemma ex_hand_in_hand:
  "request_ok NB (ex_junk\<lparr>action := act, args := x\<rparr>) \<Longrightarrow>
   in_hand NB i 1 (ex_hand act x w) (ex_junk\<lparr>action := act, args := x\<rparr>)"
  using ev_loop_new_inv [of 0] by (simp add: in_hand_def ex_hand_def env_zero_def)

lemma parked_called: "parked NB i a e e1 \<Longrightarrow> \<exists>t. called NB i a e1 t \<and> parked_ok NB (worker_ev e1 i) a t"
  by (auto simp: parked_def called_def parked_ok_def)

abbreviation ex_io :: args_u where
  "ex_io \<equiv> Io_arg \<lparr>timeout_ms = Some 500, io_fd = 7, io_buf = 1000, io_count = 4\<rparr>"

lemma ex_sock_request: "act \<in> {act_sock_read, act_sock_write} \<Longrightarrow> request_ok UNIV (ex_junk\<lparr>action := act, args := ex_io\<rparr>)"
  by (auto simp: request_ok_def sock_request_def)

text \<open>The same worker after it has parked the request.\<close>

lemma ex_parked:
  assumes "(act, f, evs) \<in> {(act_sock_read, Cb_ev_sock_read, EV_READ), (act_sock_write, Cb_ev_sock_write, EV_WRITE)}"
  shows "\<exists>e1 t1. do_sock_io f evs 0 1 (ex_hand act ex_io w) = Inr e1 \<and> called UNIV 0 1 e1 t1 \<and> action t1 = act \<and>
    args t1 = ex_io \<and> have_io t1 = 0 \<and> need_io t1 = 4 \<and> world e1 = w"
proof -
  have r: "request_ok UNIV (ex_junk\<lparr>action := act, args := ex_io\<rparr>)" using assms ex_sock_request by auto
  from do_sock_io_ok [OF ex_hand_in_hand [OF r], of f evs 0 w] assms obtain e1 where
    e1: "do_sock_io f evs 0 1 (ex_hand act ex_io w) = Inr e1" "parked UNIV 0 1 (ex_hand act ex_io w) e1" by auto
  from parked_called [OF e1(2)] obtain t1 where t1: "called UNIV 0 1 e1 t1" by blast
  have ss: "to_ssize 4 = 4" by (rule to_ssize_id) simp_all
  have "tasks e1 1 = Some (ex_junk\<lparr>action := act, args := ex_io, have_io := 0, need_io := 4\<rparr>) \<and> world e1 = w"
    using e1(1) ss by (auto simp: do_sock_io_def get_task_def the_init_def ex_hand_def env_zero_def start_io_def start_timer_def
        on_loop_def upd_task_def bind_res_Inr_iff)
  with e1(1) t1 show ?thesis by (auto simp: called_def)
qed

section \<open>Socket transfers\<close>

text \<open>
  (C9) A call of \<open>ev_sock_read\<close> for a readable descriptor returns, and the bytes it counts are the
  bytes it stored: it takes the next \<open>k\<close> bytes of the descriptor's input, stores them behind the
  bytes it already has in the coroutine's buffer and nowhere else, and counts them in \<open>have_io\<close>.
  Then the coroutine waits for more, or it is handed to the manager with its result (\<open>sock_result\<close>):
  the bytes moved in all, or -1; the bytes moved in all, with error 0, if none is missing.
\<close>

theorem sock_read_delivers:
  assumes "posix_ok m NB P" and "reads_input mem inp (io_fd x) P" and "called NB i a e t" and "action t = act_sock_read"
    and "args t = Io_arg x" and "event AND EV_READ \<noteq> 0" and "event AND EV_ERROR = 0"
  shows "\<exists>r e1 t1 k. ev_sock_read P i a event e = Some r \<and> 0 \<le> k \<and> k \<le> need_io t \<and>
    received mem inp (io_fd x) (world e) (io_buf x + of_int (have_io t)) k (world e1) \<and>
    tasks e1 a = Some t1 \<and> have_io t1 = have_io t + k \<and> need_io t1 = need_io t - k \<and>
    (r = Inr e1 \<and> k < need_io t \<and> action t1 = act_sock_read \<or>
     r = coroutine_notify_manager a e1 \<and> action t1 = act_sock_done \<and> sock_result t1)"
proof -
  have io: "rw_ok m (sys_read P)" using assms(1) by (simp add: posix_ok_def)
  from called_sock_state [OF assms(3)] assms(4,5) obtain ms where st: "sock_state i a e t x ms" "io_fd x \<in> NB"
    by (auto simp: sock_state_def)
  from sock_event_transfer [OF assms(1) io reads_input_moves [OF assms(2)] _ st assms(4,6,7)] assms(2) obtain r where
    r: "ev_sock_read P i a event e = Some r" "transfer (received mem inp (io_fd x)) (io_buf x) i a e t r"
    by (auto simp: ev_sock_read_def reads_input_def)
  from r(2) [unfolded transfer_def] obtain e1 t1 where e1: "tasks e1 a = Some t1"
    "moved_data (received mem inp (io_fd x)) (io_buf x) e t e1 t1"
    "r = coroutine_notify_manager a e1 \<and> completed i a e e1 \<and> action t1 = act_sock_done \<and> sock_result t1 \<or>
     r = Inr e1 \<and> frame i a e e1 \<and> worker_ev e1 = worker_ev e \<and> 0 < need_io t1 \<and> action t1 = action t" by blast
  with r(1) assms(4) show ?thesis
    by (intro exI [of _ r] exI [of _ e1] exI [of _ t1] exI [of _ "have_io t1 - have_io t"])
      (auto simp: moved_data_def moved_def)
qed

theorem sock_read_delivers_witness:
  "\<exists>e1 r e2 t2. do_sock_read 0 1 (ex_hand act_sock_read ex_io ex_input) = Inr e1 \<and>
     ev_sock_read ex_net 0 1 EV_READ e1 = Some r \<and> tasks e2 1 = Some t2 \<and> have_io t2 \<le> 4 \<and>
     received fst (\<lambda>w. fst (snd w)) 7 ex_input 1000 (have_io t2) (world e2) \<and> (r = Inr e2 \<or> r = coroutine_notify_manager 1 e2)"
proof -
  from ex_parked [of act_sock_read Cb_ev_sock_read EV_READ ex_input] obtain e1 t1 where
    e1: "do_sock_read 0 1 (ex_hand act_sock_read ex_io ex_input) = Inr e1" "called UNIV 0 1 e1 t1"
      "action t1 = act_sock_read" "args t1 = ex_io" "have_io t1 = 0" "need_io t1 = 4" "world e1 = ex_input"
    by (auto simp: do_sock_read_def)
  have ev: "EV_READ AND EV_READ \<noteq> 0" "EV_READ AND EV_ERROR = 0" by (simp_all add: ev_consts)
  from sock_read_delivers [OF ex_net_ok ex_net_reads e1(2,3,4) ev] obtain r e2 t2 k where
    "ev_sock_read ex_net 0 1 EV_READ e1 = Some r" "k \<le> need_io t1" "tasks e2 1 = Some t2" "have_io t2 = have_io t1 + k"
    "received fst (\<lambda>w. fst (snd w)) 7 (world e1) (1000 + of_int (have_io t1)) k (world e2)" "r = Inr e2 \<or> r = coroutine_notify_manager 1 e2"
    by (simp only: io_arg_s.select_convs) blast
  with e1 show ?thesis by (intro exI [of _ e1] exI [of _ r] exI [of _ e2] exI [of _ t2]) simp
qed

text \<open>
  (C10) Likewise \<open>ev_sock_write\<close>: the bytes it counts are the bytes it sent, in order, from behind the
  part of the coroutine's buffer that has been sent before.
\<close>

theorem sock_write_sends:
  assumes "posix_ok m NB P" and "writes_output mem out (io_fd x) P" and "called NB i a e t" and "action t = act_sock_write"
    and "args t = Io_arg x" and "event AND EV_WRITE \<noteq> 0" and "event AND EV_ERROR = 0"
  shows "\<exists>r e1 t1 k. ev_sock_write P i a event e = Some r \<and> 0 \<le> k \<and> k \<le> need_io t \<and>
    sent mem out (io_fd x) (world e) (io_buf x + of_int (have_io t)) k (world e1) \<and>
    tasks e1 a = Some t1 \<and> have_io t1 = have_io t + k \<and> need_io t1 = need_io t - k \<and>
    (r = Inr e1 \<and> k < need_io t \<and> action t1 = act_sock_write \<or>
     r = coroutine_notify_manager a e1 \<and> action t1 = act_sock_done \<and> sock_result t1)"
proof -
  have io: "rw_ok m (sys_write P)" using assms(1) by (simp add: posix_ok_def)
  from called_sock_state [OF assms(3)] assms(4,5) obtain ms where st: "sock_state i a e t x ms" "io_fd x \<in> NB"
    by (auto simp: sock_state_def)
  from sock_event_transfer [OF assms(1) io writes_output_moves [OF assms(2)] _ st assms(4,6,7)] assms(2) obtain r where
    r: "ev_sock_write P i a event e = Some r" "transfer (sent mem out (io_fd x)) (io_buf x) i a e t r"
    by (auto simp: ev_sock_write_def writes_output_def)
  from r(2) [unfolded transfer_def] obtain e1 t1 where e1: "tasks e1 a = Some t1"
    "moved_data (sent mem out (io_fd x)) (io_buf x) e t e1 t1"
    "r = coroutine_notify_manager a e1 \<and> completed i a e e1 \<and> action t1 = act_sock_done \<and> sock_result t1 \<or>
     r = Inr e1 \<and> frame i a e e1 \<and> worker_ev e1 = worker_ev e \<and> 0 < need_io t1 \<and> action t1 = action t" by blast
  with r(1) assms(4) show ?thesis
    by (intro exI [of _ r] exI [of _ e1] exI [of _ t1] exI [of _ "have_io t1 - have_io t"])
      (auto simp: moved_data_def moved_def)
qed

theorem sock_write_sends_witness:
  "\<exists>e1 r e2 t2. do_sock_write 0 1 (ex_hand act_sock_write ex_io ex_input) = Inr e1 \<and>
     ev_sock_write ex_net 0 1 EV_WRITE e1 = Some r \<and> tasks e2 1 = Some t2 \<and> have_io t2 \<le> 4 \<and>
     sent fst (\<lambda>w. snd (snd w)) 7 ex_input 1000 (have_io t2) (world e2) \<and> (r = Inr e2 \<or> r = coroutine_notify_manager 1 e2)"
proof -
  from ex_parked [of act_sock_write Cb_ev_sock_write EV_WRITE ex_input] obtain e1 t1 where
    e1: "do_sock_write 0 1 (ex_hand act_sock_write ex_io ex_input) = Inr e1" "called UNIV 0 1 e1 t1"
      "action t1 = act_sock_write" "args t1 = ex_io" "have_io t1 = 0" "need_io t1 = 4" "world e1 = ex_input"
    by (auto simp: do_sock_write_def)
  have ev: "EV_WRITE AND EV_WRITE \<noteq> 0" "EV_WRITE AND EV_ERROR = 0" by (simp_all add: ev_consts)
  from sock_write_sends [OF ex_net_ok ex_net_writes e1(2,3,4) ev] obtain r e2 t2 k where
    "ev_sock_write ex_net 0 1 EV_WRITE e1 = Some r" "k \<le> need_io t1" "tasks e2 1 = Some t2" "have_io t2 = have_io t1 + k"
    "sent fst (\<lambda>w. snd (snd w)) 7 (world e1) (1000 + of_int (have_io t1)) k (world e2)" "r = Inr e2 \<or> r = coroutine_notify_manager 1 e2"
    by (simp only: io_arg_s.select_convs) blast
  with e1 show ?thesis by (intro exI [of _ e1] exI [of _ r] exI [of _ e2] exI [of _ t2]) simp
qed

section \<open>Requests\<close>

text \<open>
  (C11) A worker finishes every request or parks it: whatever the system calls return within their
  documented behaviour, running a well-formed request (\<open>in_hand\<close>) ends with the task completed,
  its result stored, none of its watchers engaged, and handed to the manager, or parked in the loop
  with a watcher engaged whose callback is the one of its action (\<open>handled\<close>); other tasks, the other
  loops and the queues are untouched.
\<close>

theorem request_finished_or_parked:
  assumes "posix_ok m NB P" and "in_hand NB i a e t"
  shows "handled NB i a e (event_run P i a e)"
  by (rule event_run_ok [OF assms])

theorem request_finished_or_parked_witness: "handled UNIV 0 1 (ex_hand act_sock_read ex_io ex_input)
    (event_run ex_net 0 1 (ex_hand act_sock_read ex_io ex_input))"
  by (rule request_finished_or_parked [OF ex_net_ok ex_hand_in_hand [OF ex_sock_request]]) simp

text \<open>
  (C20) The timeout of a socket transfer: with nothing moved the coroutine gets -1 and \<open>EWOULDBLOCK\<close>,
  otherwise the number of bytes moved and 0; both watchers of the task are off when it is handed to
  the manager, and no system call is made.
\<close>

theorem sock_timeout_result:
  assumes "called NB i a e t" and "action t \<in> {act_sock_read, act_sock_write}"
  shows "\<exists>e1. ev_sock_timeout i a EV_TIMER e = coroutine_notify_manager a e1 \<and> world e1 = world e \<and>
    \<not> engaged (worker_ev e1 i) (IoW a) \<and> \<not> engaged (worker_ev e1 i) (TimerW a) \<and>
    tasks e1 a = Some (t\<lparr>ret_val := Some (if have_io t = 0 then -1 else to_int (have_io t)),
      ret_err_code := Some (if have_io t = 0 then EWOULDBLOCK else 0), action := act_sock_done\<rparr>)"
proof -
  from called_sock_state [OF assms] obtain x ms where st: "sock_state i a e t x ms" by blast
  define v where "v = (if have_io t = 0 then -1 else have_io t)"
  define err where "err = (if have_io t = 0 then EWOULDBLOCK else 0)"
  from ev_sock_stop_ok [of e a t x ms i v err] st obtain e1 where
    e1: "ev_sock_stop i a v err e = Inr e1" "completed i a e e1" "world e1 = world e"
      "tasks e1 a = Some (t\<lparr>ret_val := Some (to_int v), ret_err_code := Some err, action := act_sock_done\<rparr>)"
    by (auto simp: sock_state_def)
  have "ev_sock_timeout i a EV_TIMER e = coroutine_notify_manager a e1"
    using st e1(1) by (auto simp: ev_sock_timeout_def ev_consts sock_state_def get_task_def v_def err_def)
  moreover have "to_int v = (if have_io t = 0 then -1 else to_int (have_io t))" by (simp add: v_def to_int_def)
  ultimately show ?thesis using e1(2-4) by (intro exI [of _ e1]) (simp add: completed_def err_def)
qed

theorem sock_timeout_result_witness:
  "\<exists>e1 e2 t2. do_sock_read 0 1 (ex_hand act_sock_read ex_io ex_input) = Inr e1 \<and>
     ev_sock_timeout 0 1 EV_TIMER e1 = coroutine_notify_manager 1 e2 \<and> tasks e2 1 = Some t2 \<and>
     ret_val t2 = Some (-1) \<and> ret_err_code t2 = Some EWOULDBLOCK"
proof -
  from ex_parked [of act_sock_read Cb_ev_sock_read EV_READ ex_input] obtain e1 t1 where
    e1: "do_sock_read 0 1 (ex_hand act_sock_read ex_io ex_input) = Inr e1" "called UNIV 0 1 e1 t1"
      "action t1 = act_sock_read" "have_io t1 = 0" by (auto simp: do_sock_read_def)
  from sock_timeout_result [OF e1(2)] e1(3,4) obtain e2 where
    "ev_sock_timeout 0 1 EV_TIMER e1 = coroutine_notify_manager 1 e2"
    "tasks e2 1 = Some (t1\<lparr>ret_val := Some (-1), ret_err_code := Some EWOULDBLOCK, action := act_sock_done\<rparr>)" by auto
  with e1(1) show ?thesis by auto
qed

section \<open>Connections\<close>

lemma called_connect_arg:
  assumes "called NB i a e t" and "action t = act_tcp_timeout_connect" and "args t = Connect_arg x"
  shows "tasks e a = Some t" "lp_inv is_timer (worker_ev e i)" "engaged (worker_ev e i) (TimerW a) \<Longrightarrow> c_timeout_ms x \<noteq> 0"
    "c_fd x \<noteq> None"
  using assms by (auto simp: called_def parked_conf_def timer_watch_def)

abbreviation ex_conn :: connect_arg_s where
  "ex_conn \<equiv> \<lparr>c_timeout_ms = 500, c_ip = 1, c_port = 80, c_fd = Some 5\<rparr>"

lemma ex_connecting:
  "\<exists>e t. called UNIV 0 1 e t \<and> action t = act_tcp_timeout_connect \<and> args t = Connect_arg ex_conn \<and> world e = w \<and>
     errno e (Worker 0) = 0"
proof -
  let ?e = "ex_hand act_tcp_timeout_connect (Connect_arg ex_conn) w"
  let ?t = "ex_junk\<lparr>action := act_tcp_timeout_connect, args := Connect_arg ex_conn\<rparr>"
  have h: "in_hand UNIV 0 1 ?e ?t" by (rule ex_hand_in_hand) (simp add: request_ok_def)
  have "\<exists>e1 e2. start_io 0 1 Cb_ev_sock_connect 5 (EV_READ OR EV_WRITE) ?e = Inr e1 \<and>
    (if 500 \<noteq> (0 :: int) then start_timer 0 1 Cb_ev_sock_connect_timeout (1 / 2) e1 else Inr e1) = Inr e2 \<and>
    tasks e2 = tasks ?e \<and> lp_inv is_timer (worker_ev e2 0) \<and>
    io_watch (worker_ev e2 0) 1 Cb_ev_sock_connect (EV_READ OR EV_WRITE) \<and>
    timer_watch (worker_ev e2 0) 1 Cb_ev_sock_connect_timeout 500"
    using start_both_ok [of ?e 0 1 5 "EV_READ OR EV_WRITE" Cb_ev_sock_connect 500 Cb_ev_sock_connect_timeout "1 / 2"] h
    by (auto simp: in_hand_def io_mask_def)
  then obtain e1 e2 where e: "start_io 0 1 Cb_ev_sock_connect 5 (EV_READ OR EV_WRITE) ?e = Inr e1"
    "start_timer 0 1 Cb_ev_sock_connect_timeout (1 / 2) e1 = Inr e2" "tasks e2 = tasks ?e" "lp_inv is_timer (worker_ev e2 0)"
    "io_watch (worker_ev e2 0) 1 Cb_ev_sock_connect (EV_READ OR EV_WRITE)"
    "timer_watch (worker_ev e2 0) 1 Cb_ev_sock_connect_timeout 500" by auto
  have "called UNIV 0 1 e2 ?t" using e(3-6) by (simp add: called_def parked_conf_def ex_hand_def)
  moreover have "world e2 = w \<and> errno e2 (Worker 0) = 0"
    using e(1,2) by (auto simp: start_io_def start_timer_def on_loop_def bind_res_Inr_iff ex_hand_def env_zero_def)
  ultimately show ?thesis by (intro exI [of _ e2] exI [of _ ?t]) simp
qed

text \<open>
  A connection that times out reports -1 and \<open>EWOULDBLOCK\<close>, but its socket stays open: the
  callback makes no system call, \<open>close\<close> included, and the descriptor is not reported either.
\<close>

theorem connect_timeout_keeps_socket:
  assumes "called NB i a e t" and "action t = act_tcp_timeout_connect"
  shows "\<exists>e1. ev_sock_connect_timeout i a EV_TIMER e = coroutine_notify_manager a e1 \<and> world e1 = world e \<and>
    tasks e1 a = Some (t\<lparr>ret_val := Some (-1), ret_err_code := Some EWOULDBLOCK, action := act_tcp_timeout_connect_done\<rparr>)"
proof -
  from called_connect [OF assms] obtain x fd where x: "args t = Connect_arg x" by blast
  note c = called_connect_arg [OF assms x]
  from connect_stop_result [OF c(1) x c(2,3), of "-1" EWOULDBLOCK] show ?thesis
    by (auto simp: ev_sock_connect_timeout_def ev_consts)
qed

theorem connect_timeout_keeps_socket_witness:
  "\<exists>e e1 t1. world e = ex_input \<and> ev_sock_connect_timeout 0 1 EV_TIMER e = coroutine_notify_manager 1 e1 \<and>
     world e1 = ex_input \<and> tasks e1 1 = Some t1 \<and> ret_err_code t1 = Some EWOULDBLOCK"
proof -
  from ex_connecting [of ex_input] obtain e t where e: "called UNIV 0 1 e t" "action t = act_tcp_timeout_connect" "world e = ex_input" by blast
  from connect_timeout_keeps_socket [OF e(1,2)] obtain e1 where
    "ev_sock_connect_timeout 0 1 EV_TIMER e = coroutine_notify_manager 1 e1" "world e1 = world e"
    "tasks e1 1 = Some (t\<lparr>ret_val := Some (-1), ret_err_code := Some EWOULDBLOCK, action := act_tcp_timeout_connect_done\<rparr>)"
    by blast
  with e(3) show ?thesis by (intro exI [of _ e] exI [of _ e1]) simp
qed

text \<open>
  (C21) The result of a connection attempt that has become ready: with \<open>SO_ERROR\<close> 0 the coroutine
  gets the descriptor and error 0. With another \<open>SO_ERROR\<close> the socket is closed and the coroutine gets
  -1, but the error it gets is what \<open>close\<close> leaves in \<open>errno\<close>, whatever \<open>SO_ERROR\<close> is.
\<close>

theorem connect_result:
  assumes "called NB i a e t" and "action t = act_tcp_timeout_connect" and "args t = Connect_arg x" and "c_fd x = Some fd"
    and "event AND EV_WRITE \<noteq> 0" and "event AND EV_ERROR = 0"
    and "sys_so_error P fd (errno e (Worker i)) (world e) = ((0, so_error), en1, w1)"
    and "sys_close P fd en1 w1 = (r, en2, w2)"
  shows "\<exists>e1. ev_sock_connect P i a event e = coroutine_notify_manager a e1 \<and>
    world e1 = (if so_error = 0 then w1 else w2) \<and>
    tasks e1 a = Some (t\<lparr>ret_val := Some (if so_error = 0 then fd else -1),
      ret_err_code := Some (if so_error = 0 then 0 else en2), action := act_tcp_timeout_connect_done\<rparr>)"
proof -
  note c = called_connect_arg [OF assms(1-3)]
  let ?en = "if so_error = 0 then en1 else en2" and ?w = "if so_error = 0 then w1 else w2"
  let ?e = "e\<lparr>tasks := (tasks e)(a \<mapsto> t), errno := (errno e)(Worker i := ?en), world := ?w\<rparr>"
  have t: "t\<lparr>action := act_tcp_timeout_connect\<rparr> = t" using assms(2) by simp
  have "ev_sock_connect P i a event e =
      ev_sock_connect_stop i a (if so_error = 0 then fd else -1) (if so_error = 0 then 0 else en2) ?e"
    using assms(3-8) c(1) t
    by (simp add: ev_sock_connect_def get_task_def the_init_def upd_task_def sys_def Let_def)
  moreover from connect_stop_result [of ?e a t x i "if so_error = 0 then fd else -1" "if so_error = 0 then 0 else en2"] assms(3) c(2,3)
  obtain e1 where "ev_sock_connect_stop i a (if so_error = 0 then fd else -1) (if so_error = 0 then 0 else en2) ?e =
      coroutine_notify_manager a e1" "world e1 = ?w"
    "tasks e1 a = Some (t\<lparr>ret_val := Some (if so_error = 0 then fd else -1),
      ret_err_code := Some (if so_error = 0 then 0 else en2), action := act_tcp_timeout_connect_done\<rparr>)" by auto
  ultimately show ?thesis by (intro exI [of _ e1]) simp
qed

theorem connect_result_witness:
  "\<exists>e e1 t1. ev_sock_connect ex_net 0 1 EV_WRITE e = coroutine_notify_manager 1 e1 \<and> tasks e1 1 = Some t1 \<and>
     sys_so_error ex_net 5 (errno e (Worker 0)) (world e) = ((0, 111), 0, ex_input) \<and>
     ret_val t1 = Some (-1) \<and> ret_err_code t1 = Some 0"
proof -
  from ex_connecting [of ex_input] obtain e t where e: "called UNIV 0 1 e t" "action t = act_tcp_timeout_connect"
    "args t = Connect_arg ex_conn" "world e = ex_input" "errno e (Worker 0) = 0" by blast
  have k: "sys_so_error ex_net 5 (errno e (Worker 0)) (world e) = ((0, 111), 0, ex_input)"
    "sys_close ex_net 5 0 ex_input = (0, 0, ex_input)" using e(4,5) by (simp_all add: ex_net_def)
  have ev: "c_fd ex_conn = Some 5" "EV_WRITE AND EV_WRITE \<noteq> 0" "EV_WRITE AND EV_ERROR = 0" by (simp_all add: ev_consts)
  from connect_result [OF e(1-3) ev k] obtain e1 where "ev_sock_connect ex_net 0 1 EV_WRITE e = coroutine_notify_manager 1 e1"
    "tasks e1 1 = Some (t\<lparr>ret_val := Some (-1), ret_err_code := Some 0, action := act_tcp_timeout_connect_done\<rparr>)" by auto
  with k(1) show ?thesis by (intro exI [of _ e] exI [of _ e1]) simp
qed

end
