(* ===== verification/Acoro_Calls.thy ===== *)
theory Acoro_Calls
  imports Acoro_Init
begin

text \<open>
  What the functions that run in the manager thread do, one by one: creating, entering, resuming
  and finishing coroutines, handing a request to a background worker, its result, and coroutine
  semaphores.
\<close>

section \<open>Queues of live tasks\<close>

text \<open>A queue whose items are all allocated: what every queue operation needs.\<close>

definition queue_of :: "'w coroutine_env_s \<Rightarrow> stailq \<Rightarrow> addr list \<Rightarrow> bool" where
  "queue_of e q xs \<longleftrightarrow> queue_heads e = UNIV \<and> stailq_rep (nxt e) q xs \<and> (\<forall>x\<in>set xs. live e x)"

lemma queue_push_ok:
  assumes "queue_of e q xs" and "live e a"
  shows "queue_push e q a = Inr (list_push (nxt e) q a)"
  using assms by (auto simp: queue_of_def queue_push_def stailq_rep_def last_slot_def split: lastp.splits if_splits)

lemma push_todo_rep:
  assumes "queue_of e (todo_queue e) xs" and "live e a" and "a \<notin> set xs"
  shows "\<exists>nx q. Push_todo a e = Inr (e\<lparr>nxt := nx, todo_queue := q\<rparr>) \<and> stailq_rep nx q (xs @ [a])"
proof -
  obtain nx q where p: "list_push (nxt e) (todo_queue e) a = (nx, q)" by fastforce
  have "stailq_rep nx q (xs @ [a])" using stq.rep_push [OF _ assms(3) p] assms(1) by (simp add: queue_of_def)
  with p queue_push_ok [OF assms(1,2)] show ?thesis
    by (intro exI [of _ nx] exI [of _ q]) (use assms(1) in \<open>simp add: Push_todo_def queue_of_def\<close>)
qed

lemma unshift_todo_rep:
  assumes "queue_of e (todo_queue e) xs" and "live e a" and "a \<notin> set xs"
  shows "\<exists>nx q. Unshift_todo a e = Inr (e\<lparr>nxt := nx, todo_queue := q\<rparr>) \<and> stailq_rep nx q (a # xs)"
proof -
  obtain nx q where p: "list_unshift (nxt e) (todo_queue e) a = (nx, q)" by fastforce
  have "stailq_rep nx q (a # xs)" using stq.rep_unshift [OF _ assms(3) p] assms(1) by (simp add: queue_of_def)
  with p assms(2) show ?thesis by (intro exI [of _ nx] exI [of _ q]) (use assms(1) in \<open>simp add: Unshift_todo_def queue_of_def\<close>)
qed

section \<open>Examples\<close>

definition ex_task :: task where
  "ex_task = \<lparr>action = act_sched_yield, args = General_arg \<lparr>g_u64 = 0\<rparr>, ret_val = Some 4294967295, ret_err_code = Some 0,
     task_context = Ctx_saved, stack_ptr = Some 50, have_io = 0, need_io = 0\<rparr>"

text \<open>An environment of two workers in which coroutine 1 runs, with stack 50.\<close>

definition ex_env :: "unit coroutine_env_s" where
  "ex_env = (env_zero 2 (\<lambda>_. 0) ())\<lparr>tasks := (\<lambda>_. None)(1 \<mapsto> ex_task), stacks := {50}, curr_task_ptr := Some 1\<rparr>"

lemma ex_env_fields: "tasks ex_env = (\<lambda>_. None)(1 \<mapsto> ex_task)" "curr_task_ptr ex_env = Some 1" "stacks ex_env = {50}"
  "background_worker_count ex_env = 2" "bg_worker_id ex_env = 0" "cid ex_env = 0" "manager_sem ex_env = 0"
  "pipe_channel ex_env = (\<lambda>_. [])" "ran ex_env = 0"
  by (simp_all add: ex_env_def env_zero_def)

lemma ex_env_queue: "queue_of ex_env (todo_queue ex_env) []" "queue_of ex_env (doing_queue ex_env) []"
  by (simp_all add: queue_of_def ex_env_def env_zero_def list_new_def rep_init)

section \<open>Creating and entering\<close>

lemma halves_join: "push_bit 32 (ucast (ucast (drop_bit 32 y :: u64) :: u32)) OR ucast (ucast y :: u32) = (y :: u64)"
  by (rule bit_word_eqI) (auto simp: bit_simps)

text \<open>
  The two halves of a pointer that travel through \<open>makecontext\<close> are put together again: what
  \<open>call_wrapper\<close> calls is the routine and the argument given to \<open>crt_create\<close>, all 64 bits of them.
\<close>

theorem pointer_roundtrip:
  "call_wrapper (fst (transporter f)) (snd (transporter f)) (fst (transporter x)) (snd (transporter x)) = (f, x)"
  by (simp add: call_wrapper_def transporter_def halves_join)

text \<open>
  (C18) A new coroutine is entered at its routine: the first switch to a task made by
  \<open>crt_create\<close> allocates its stack, makes it the current task and enters \<open>call_wrapper\<close> with the
  routine and the argument of the task.
\<close>

theorem new_coroutine_entered:
  assumes "tasks e a = Some t" and "action t = act_new_coroutine" and "args t = Init_arg arg"
  shows "\<exists>e' t'. manager_switch sp a e = Inr (True, e') \<and> curr_task_ptr e' = Some a \<and> stacks e' = insert sp (stacks e) \<and>
    tasks e' = (tasks e)(a \<mapsto> t') \<and> stack_ptr t' = Some sp \<and>
    context_entry (task_context t') = Inr (Some (func arg, func_arg arg))"
proof -
  obtain fl fh al ah where t: "transporter (func arg) = (fl, fh)" "transporter (func_arg arg) = (al, ah)" by fastforce
  have "call_wrapper fl fh al ah = (func arg, func_arg arg)"
    using t by (auto simp: call_wrapper_def transporter_def halves_join)
  with assms t show ?thesis by (auto simp: manager_switch_def get_task_def upd_task_def context_entry_def)
qed

theorem new_coroutine_entered_witness:
  "\<exists>e'. manager_switch 60 1 (ex_env\<lparr>tasks := (\<lambda>_. None)(1 \<mapsto> ex_task\<lparr>action := act_new_coroutine,
       args := Init_arg \<lparr>func = 0x7f0012345678, stack_size = 32768, func_arg = 9\<rparr>\<rparr>)\<rparr>) = Inr (True, e') \<and>
     stacks e' = {60, 50}"
proof -
  let ?t = "ex_task\<lparr>action := act_new_coroutine, args := Init_arg \<lparr>func = 0x7f0012345678, stack_size = 32768, func_arg = 9\<rparr>\<rparr>"
  have "tasks (ex_env\<lparr>tasks := (\<lambda>_. None)(1 \<mapsto> ?t)\<rparr>) 1 = Some ?t" "action ?t = act_new_coroutine"
    "args ?t = Init_arg \<lparr>func = 0x7f0012345678, stack_size = 32768, func_arg = 9\<rparr>" by simp_all
  from new_coroutine_entered [OF this, of 60] show ?thesis by (auto simp: ex_env_fields)
qed

text \<open>
  (C17) \<open>crt_create\<close> returns the next coroutine id, appends a task that will enter the given routine
  to the todo queue and posts the manager's semaphore once; the stack has the size of the
  attribute, or 32 KB if there is no attribute or its size is 0. Without memory for the task the
  call dereferences NULL.
\<close>

theorem create_spec:
  assumes "queue_of e (todo_queue e) xs" and "tasks e a = None"
  shows "(\<exists>e' t. crt_create (Some (a, junk)) attr br x e = Inr (cid e + 1, e') \<and>
      stailq_rep (nxt e') (todo_queue e') (xs @ [a]) \<and> manager_sem e' = manager_sem e + 1 \<and>
      tasks e' = (tasks e)(a \<mapsto> t) \<and> action t = act_new_coroutine \<and>
      args t = Init_arg \<lparr>func = br, stack_size = (if attr = None \<or> attr = Some 0 then 32768 else the attr), func_arg = x\<rparr>) \<and>
    crt_create None attr br x e = Inl NullDeref"
proof (intro conjI)
  define sz where "sz = (case attr of None \<Rightarrow> COROUTINE_STACK_SIZE | Some s \<Rightarrow> if s \<noteq> 0 then s else COROUTINE_STACK_SIZE)"
  let ?t = "junk\<lparr>ret_val := None, ret_err_code := None, task_context := Ctx_none, stack_ptr := None,
     action := act_new_coroutine, args := Init_arg \<lparr>func = br, stack_size = sz, func_arg = x\<rparr>\<rparr>"
  let ?e = "e\<lparr>cid := cid e + 1, tasks := (tasks e)(a \<mapsto> ?t)\<rparr>"
  have a: "a \<notin> set xs" using assms by (auto simp: queue_of_def live_def)
  have "queue_of ?e (todo_queue ?e) xs" using assms(1) by (auto simp: queue_of_def live_def)
  from push_todo_rep [OF this _ a] obtain nx q where
    p: "Push_todo a ?e = Inr (?e\<lparr>nxt := nx, todo_queue := q\<rparr>)" "stailq_rep nx q (xs @ [a])" by (auto simp: live_def)
  have c: "crt_create (Some (a, junk)) attr br x e = Inr (cid e + 1, sem_post_manager (?e\<lparr>nxt := nx, todo_queue := q\<rparr>))"
    using p(1) by (simp add: crt_create_def create_push_def sz_def Let_def)
  have sz: "sz = (if attr = None \<or> attr = Some 0 then 32768 else the attr)"
    by (cases attr) (auto simp: sz_def COROUTINE_STACK_SIZE_def)
  show "\<exists>e' t. crt_create (Some (a, junk)) attr br x e = Inr (cid e + 1, e') \<and>
      stailq_rep (nxt e') (todo_queue e') (xs @ [a]) \<and> manager_sem e' = manager_sem e + 1 \<and>
      tasks e' = (tasks e)(a \<mapsto> t) \<and> action t = act_new_coroutine \<and>
      args t = Init_arg \<lparr>func = br, stack_size = (if attr = None \<or> attr = Some 0 then 32768 else the attr), func_arg = x\<rparr>"
    unfolding sz [symmetric]
    by (intro exI [of _ "sem_post_manager (?e\<lparr>nxt := nx, todo_queue := q\<rparr>)"] exI [of _ ?t])
      (simp add: c p(2) sem_post_manager_def)
  show "crt_create None attr br x e = Inl NullDeref" by (simp add: crt_create_def create_push_def)
qed

theorem create_spec_witness:
  "\<exists>e' t. crt_create (Some (2, ex_task)) (Some 0) 7 9 ex_env = Inr (1, e') \<and> manager_sem e' = 1 \<and>
     tasks e' 2 = Some t \<and> args t = Init_arg \<lparr>func = 7, stack_size = 32768, func_arg = 9\<rparr>"
  using create_spec [OF ex_env_queue(1), THEN conjunct1, of 2 ex_task "Some 0" 7 9] by (auto simp: ex_env_fields)

text \<open>
  The manager switches to a task or finishes it for the actions a task can have in its queue,
  and aborts on every other action: those that only a background worker may meet.
\<close>

theorem manager_switch_aborts_iff:
  assumes "tasks e a = Some t"
  shows "manager_switch sp a e = Inl Aborted \<longleftrightarrow>
    action t \<in> {act_disk_open, act_disk_read, act_disk_write, act_sock_read, act_sock_write, act_tcp_blocked_connect,
      act_tcp_timeout_connect, act_msleep, act_bg_run, act_tcp_accept}"
proof -
  have "finish_coroutine e \<noteq> Inl Aborted"
    by (auto simp: finish_coroutine_def bind_res_Inl_iff deref_def get_task_def the_init_def split: option.splits)
  moreover have "get_init_arg t \<noteq> Inl Aborted" by (simp split: args_u.splits)
  ultimately show ?thesis using assms
    by (cases "action t")
      (auto simp: manager_switch_def get_task_def upd_task_def bind_res_Inl_iff map_sum_def split: prod.splits sum.splits
        simp del: get_init_arg.simps)
qed

theorem manager_switch_aborts_iff_witness:
  "manager_switch 60 1 (ex_env\<lparr>tasks := (\<lambda>_. None)(1 \<mapsto> ex_task\<lparr>action := act_msleep\<rparr>)\<rparr>) = Inl Aborted \<and>
   manager_switch 60 1 ex_env \<noteq> Inl Aborted"
  using manager_switch_aborts_iff [of "ex_env\<lparr>tasks := (\<lambda>_. None)(1 \<mapsto> ex_task\<lparr>action := act_msleep\<rparr>)\<rparr>" 1 _ 60]
    manager_switch_aborts_iff [of ex_env 1 ex_task 60] by (simp add: ex_env_fields ex_task_def)

text \<open>
  A coroutine that ends with \<open>crt_exit\<close> gives everything back: when it has switched back, the
  manager frees its stack and its task, counts it, and touches no other task.
\<close>

theorem exit_frees:
  assumes "curr_task_ptr e = Some a" and "tasks e a = Some t" and "stack_ptr t = Some sp"
  shows "\<exists>e1 e2. crt_exit e = Inr e1 \<and> manager_back a e1 = Inr e2 \<and> tasks e2 = (tasks e)(a := None) \<and>
    stacks e2 = stacks e - {sp} \<and> ran e2 = ran e + 1 \<and> todo_queue e2 = todo_queue e \<and> doing_queue e2 = doing_queue e"
  using assms by (simp add: crt_exit_def coroutine_set_finished_coroutine_def upd_curr_def get_curr_def deref_def upd_task_def
      manager_back_def get_task_def finish_coroutine_def the_init_def)

theorem exit_frees_witness:
  "\<exists>e1 e2. crt_exit ex_env = Inr e1 \<and> manager_back 1 e1 = Inr e2 \<and> tasks e2 = (\<lambda>_. None) \<and> stacks e2 = {} \<and> ran e2 = 1"
  using exit_frees [OF ex_env_fields(2), of ex_task 50] by (auto simp: ex_env_fields ex_task_def)

section \<open>Requests\<close>

lemma notify_write_ok:
  assumes "length (pipe_channel e (next_worker e)) < PIPE_CAPACITY"
  shows "notify_write e = Inr (e\<lparr>bg_worker_id := bg_worker_id e + 1,
    pipe_channel := (pipe_channel e)(next_worker e := pipe_channel e (next_worker e) @ [0xee])\<rparr>)"
  using assms by (simp add: notify_write_def pipe_write_def)

text \<open>The writes of \<open>n\<close> consecutive requests to the pipes of the workers.\<close>

primrec notify_times :: "nat \<Rightarrow> 'w coroutine_env_s \<Rightarrow> 'w coroutine_env_s res" where
  "notify_times 0 e = Inr e"
| "notify_times (Suc n) e = bind_res (notify_times n e) notify_write"

lemma turns_inj: "inj_on (\<lambda>k. (b + k) mod n) {..<n}" for b n :: nat
proof (rule inj_onI)
  fix x y assume xy: "x \<in> {..<n}" "y \<in> {..<n}" "(b + x) mod n = (b + y) mod n"
  then have "(int b + int x) mod int n = (int b + int y) mod int n" by (metis of_nat_add zmod_int)
  then have "int n dvd int x - int y" using mod_eq_dvd_iff [of "int b + int x" "int n" "int b + int y"] by simp
  moreover have "\<bar>int x - int y\<bar> < int n" using xy(1,2) by auto
  ultimately have "int x - int y = 0" using dvd_imp_le_int [of "int x - int y" "int n"] by linarith
  then show "x = y" by simp
qed

lemma turns_all: "0 < n \<Longrightarrow> (\<lambda>k. (b + k) mod n) ` {..<n} = {..<n}" for b n :: nat
  by (rule endo_inj_surj) (auto intro: turns_inj)

lemma notify_times_ok:
  assumes "unat (bg_worker_id e) + background_worker_count e \<le> 2 ^ 64"
    and "\<And>i. i < background_worker_count e \<Longrightarrow> length (pipe_channel e i) < PIPE_CAPACITY"
  shows "k \<le> background_worker_count e \<Longrightarrow> notify_times k e = Inr (e\<lparr>bg_worker_id := bg_worker_id e + of_nat k,
    pipe_channel := (\<lambda>i. pipe_channel e i @
      (if i \<in> (\<lambda>j. (unat (bg_worker_id e) + j) mod background_worker_count e) ` {..<k} then [0xee] else []))\<rparr>)"
proof (induction k)
  case 0
  show ?case by simp
next
  case (Suc k)
  let ?n = "background_worker_count e" and ?b = "unat (bg_worker_id e)"
  let ?T = "\<lambda>k. (\<lambda>j. (?b + j) mod ?n) ` {..<k}"
  let ?p = "\<lambda>k i. pipe_channel e i @ (if i \<in> ?T k then [0xee] else [])"
  let ?e = "e\<lparr>bg_worker_id := bg_worker_id e + of_nat k, pipe_channel := ?p k\<rparr>"
  have "unat (bg_worker_id e + of_nat k) = (?b + k) mod 2 ^ 64" by (simp add: unat_word_ariths unat_of_nat mod_add_right_eq)
  also have "\<dots> = ?b + k" using assms(1) Suc.prems by simp
  finally have w: "next_worker ?e = (?b + k) mod ?n" by (simp add: next_worker_def)
  have new: "(?b + k) mod ?n \<notin> ?T k"
  proof
    assume "(?b + k) mod ?n \<in> ?T k"
    then obtain j where "j < k" "(?b + k) mod ?n = (?b + j) mod ?n" by auto
    with inj_onD [OF turns_inj, of ?b k ?n j] Suc.prems show False by auto
  qed
  have "(?b + k) mod ?n < ?n" using Suc.prems by (intro mod_less_divisor) simp
  then have "notify_write ?e = Inr (?e\<lparr>bg_worker_id := bg_worker_id e + of_nat k + 1,
      pipe_channel := (?p k)((?b + k) mod ?n := ?p k ((?b + k) mod ?n) @ [0xee])\<rparr>)"
    using notify_write_ok [of ?e] assms(2) new w by simp
  moreover have "(?p k)((?b + k) mod ?n := ?p k ((?b + k) mod ?n) @ [0xee]) = ?p (Suc k)"
    using new by (auto simp: fun_eq_iff lessThan_Suc)
  ultimately show ?case using Suc by (simp add: add.assoc add.commute [of 1])
qed

text \<open>
  (C19) Requests are handed to the background workers in turn: as long as the 64-bit counter does not wrap
  around and the pipes have room, the writes of any \<open>n\<close> consecutive requests, \<open>n\<close> the number of
  workers, put exactly one byte 0xee at the end of the pipe of every worker, whoever is first, and into no
  other pipe, and move the counter on by \<open>n\<close>.
\<close>

theorem requests_go_round:
  assumes "0 < background_worker_count e"
    and "unat (bg_worker_id e) + background_worker_count e \<le> 2 ^ 64"
    and "\<forall>i < background_worker_count e. length (pipe_channel e i) < PIPE_CAPACITY"
  shows "notify_times (background_worker_count e) e = Inr (e\<lparr>
    bg_worker_id := bg_worker_id e + of_nat (background_worker_count e),
    pipe_channel := (\<lambda>i. if i < background_worker_count e then pipe_channel e i @ [0xee] else pipe_channel e i)\<rparr>)"
proof -
  have p: "(\<lambda>i. pipe_channel e i @ (if i \<in> {..<background_worker_count e} then [0xee] else [])) =
      (\<lambda>i. if i < background_worker_count e then pipe_channel e i @ [0xee] else pipe_channel e i)"
    by (simp add: fun_eq_iff)
  from notify_times_ok [OF assms(2), of "background_worker_count e"] assms(3) show ?thesis
    by (simp only: turns_all [OF assms(1)] p)
qed

theorem requests_go_round_witness:
  "\<exists>e'. notify_times 2 ex_env = Inr e' \<and> bg_worker_id e' = 2 \<and> pipe_channel e' 0 = [0xee] \<and> pipe_channel e' 1 = [0xee] \<and>
     pipe_channel e' 2 = []"
  using requests_go_round [of ex_env] by (simp add: ex_env_fields PIPE_CAPACITY_def)

text \<open>
  Waking a worker through a full pipe fails an assertion: \<open>coroutine_notify_background_worker\<close>
  does not expect the short write of a non-blocking pipe.
\<close>

theorem full_pipe_asserts:
  assumes "PIPE_CAPACITY \<le> length (pipe_channel e (next_worker e))"
  shows "notify_write e = Inl AssertFailed"
  using assms by (simp add: notify_write_def pipe_write_def)

theorem full_pipe_asserts_witness:
  "notify_write (ex_env\<lparr>pipe_channel := (\<lambda>_. replicate 65536 0xee)\<rparr>) = Inl AssertFailed"
  using full_pipe_asserts [of "ex_env\<lparr>pipe_channel := (\<lambda>_. replicate 65536 0xee)\<rparr>"] by (simp add: PIPE_CAPACITY_def)

text \<open>
  The result of a call is an \<open>int\<close>: \<open>coroutine_get_retval\<close> gives the stored \<open>ssize_t\<close> if it fits
  in 32 bits, and another number if it does not.
\<close>

theorem retval_is_int:
  assumes "curr_task_ptr e = Some a" and "tasks e a = Some t" and "ret_val t = Some v"
  shows "(coroutine_get_retval e = Inr v \<longleftrightarrow> - 2147483648 \<le> v \<and> v < 2147483648) \<and>
    (\<exists>r. coroutine_get_retval e = Inr r \<and> - 2147483648 \<le> r \<and> r < 2147483648 \<and> (r - v) mod 4294967296 = 0)"
proof (intro conjI)
  have g: "coroutine_get_retval e = Inr (to_int v)"
    using assms by (simp add: coroutine_get_retval_def get_curr_def deref_def get_task_def the_init_def)
  show "coroutine_get_retval e = Inr v \<longleftrightarrow> - 2147483648 \<le> v \<and> v < 2147483648"
    unfolding g using to_int_range [of v] to_int_id [of v] by auto
  have "to_int v mod 4294967296 = v mod 4294967296"
  proof -
    have "take_bit 32 (signed_take_bit 31 v) = take_bit 32 v" by (rule take_bit_signed_take_bit) simp
    then show ?thesis by (simp add: to_int_def take_bit_eq_mod)
  qed
  then have "(to_int v - v) mod 4294967296 = 0" unfolding mod_eq_dvd_iff by (rule dvd_imp_mod_0)
  with g to_int_range [of v]
  show "\<exists>r. coroutine_get_retval e = Inr r \<and> - 2147483648 \<le> r \<and> r < 2147483648 \<and> (r - v) mod 4294967296 = 0"
    by (intro exI [of _ "to_int v"]) simp
qed

theorem retval_is_int_witness: "coroutine_get_retval ex_env \<noteq> Inr 4294967295"
  using retval_is_int [OF ex_env_fields(2), of ex_task 4294967295] by (simp add: ex_env_fields ex_task_def)

section \<open>From the call to its result\<close>

lemma crt_wait_ok:
  assumes "curr_task_ptr e = Some a" and "tasks e a = Some t" and q: "queue_of e (doing_queue e) ys" and n: "a \<notin> set ys"
    and room: "length (pipe_channel e (next_worker e)) < PIPE_CAPACITY"
    and r: "request e = Inr (e\<lparr>tasks := (tasks e)(a \<mapsto> t')\<rparr>)"
  shows "\<exists>nx q. crt_wait request e = Inr (e\<lparr>tasks := (tasks e)(a \<mapsto> t'\<lparr>task_context := Ctx_saved\<rparr>), nxt := nx,
      doing_queue := q, bg_worker_id := bg_worker_id e + 1,
      pipe_channel := (pipe_channel e)(next_worker e := pipe_channel e (next_worker e) @ [0xee])\<rparr>) \<and> stailq_rep nx q (ys @ [a])"
proof -
  let ?e = "e\<lparr>tasks := (tasks e)(a \<mapsto> t')\<rparr>"
  obtain nx q where p: "list_push (nxt e) (doing_queue e) a = (nx, q)" by fastforce
  have rep: "stailq_rep nx q (ys @ [a])" using stq.rep_push [OF _ n p] q by (simp add: queue_of_def)
  have "queue_of ?e (doing_queue ?e) ys" using q by (auto simp: queue_of_def live_def)
  then have push: "Push_doing a ?e = Inr (?e\<lparr>nxt := nx, doing_queue := q\<rparr>)"
    using queue_push_ok [of ?e "doing_queue ?e" ys a] p q by (simp add: Push_doing_def live_def queue_of_def)
  let ?e2 = "?e\<lparr>nxt := nx, doing_queue := q\<rparr>"
  have "notify_write ?e2 = Inr (?e2\<lparr>bg_worker_id := bg_worker_id e + 1,
      pipe_channel := (pipe_channel e)(next_worker e := pipe_channel e (next_worker e) @ [0xee])\<rparr>)"
    using notify_write_ok [of ?e2] room by (simp add: next_worker_def)
  then have "crt_wait request e = Inr (e\<lparr>tasks := (tasks e)(a \<mapsto> t'\<lparr>task_context := Ctx_saved\<rparr>), nxt := nx, doing_queue := q,
      bg_worker_id := bg_worker_id e + 1,
      pipe_channel := (pipe_channel e)(next_worker e := pipe_channel e (next_worker e) @ [0xee])\<rparr>)"
    using assms(1) r push by (simp add: crt_wait_def coroutine_notify_background_worker_def notify_push_def get_curr_def deref_def
        swap_out_def upd_curr_def upd_task_def)
  with rep show ?thesis by blast
qed

text \<open>A kernel for the examples: every read gives 5 bytes, every other call 0.\<close>

definition ex_kernel :: "unit posix" where
  "ex_kernel =
     \<lparr>sys_open = (\<lambda>p f m en w. (0, en, w)), sys_read = (\<lambda>fd b n en w. (5, en, w)),
      sys_write = (\<lambda>fd b n en w. (0, en, w)), sys_close = (\<lambda>fd en w. (0, en, w)),
      sys_socket = (\<lambda>en w. (5, en, w)), sys_reuseaddr = (\<lambda>fd en w. (0, en, w)),
      sys_connect = (\<lambda>fd ip port en w. (0, en, w)), sys_so_error = (\<lambda>fd en w. ((0, 111), en, w)),
      sys_accept = (\<lambda>fd ad len en w. (6, en, w)), sys_bind = (\<lambda>fd ip port en w. (-1, 98, w)),
      sys_listen = (\<lambda>fd k en w. (0, en, w)), sys_pipe = (\<lambda>en w. (Some (3, 4), en, w)),
      sys_getfl = (\<lambda>fd en w. (2048, en, w)), sys_setfl = (\<lambda>fd fl en w. (0, en, w)),
      sys_bg = (\<lambda>f x res en w. (0, en, w))\<rparr>"

section \<open>Coroutine semaphores\<close>

text \<open>
  (C13) A post wakes the coroutine that waits: posting a semaphore whose value is 0 and whose
  waiter is \<open>a\<close> puts \<open>a\<close> at the end of the todo queue (with critical priority at its front) with
  one post of the manager's semaphore, and when the manager resumes it, \<open>crt_sem_wait\<close> returns and
  the semaphore is 0 without a waiter again.
\<close>

theorem post_wakes_waiter:
  fixes e :: "'w coroutine_env_s"
  assumes "sem_task_ptr s = Some a" and "sem_value s = 0" and "tasks e a = Some t"
    and "queue_of e (todo_queue e) xs" and "a \<notin> set xs"
  shows "(\<exists>s1 e1. crt_sem_post s e = Inr (s1, e1) \<and> stailq_rep (nxt e1) (todo_queue e1) (xs @ [a]) \<and>
      manager_sem e1 = manager_sem e + 1 \<and> tasks e1 a = Some (t\<lparr>action := act_sem_activation\<rparr>) \<and>
      (\<forall>e2 :: 'w coroutine_env_s. crt_sem_wait s1 e2 = Inr (True, s\<lparr>sem_task_ptr := None\<rparr>, e2))) \<and>
    (\<exists>s1 e1. crt_sem_priority_post 2 s e = Inr (s1, e1) \<and> stailq_rep (nxt e1) (todo_queue e1) (a # xs) \<and>
      manager_sem e1 = manager_sem e + 1 \<and> tasks e1 a = Some (t\<lparr>action := act_sem_activation\<rparr>) \<and>
      (\<forall>e2 :: 'w coroutine_env_s. crt_sem_wait s1 e2 = Inr (True, s\<lparr>sem_task_ptr := None\<rparr>, e2)))"
proof (intro conjI)
  let ?e = "e\<lparr>tasks := (tasks e)(a \<mapsto> t\<lparr>action := act_sem_activation\<rparr>)\<rparr>" and ?s = "s\<lparr>sem_value := 1\<rparr>"
  have q: "queue_of ?e (todo_queue ?e) xs" "live ?e a" using assms(4) by (auto simp: queue_of_def live_def)
  have w: "crt_sem_wait ?s e2 = Inr (True, s\<lparr>sem_task_ptr := None\<rparr>, e2)" for e2 :: "'w coroutine_env_s"
    using assms(2) by (cases s) (simp add: crt_sem_wait_def)
  from push_todo_rep [OF q assms(5)] obtain nx h where
    "Push_todo a ?e = Inr (?e\<lparr>nxt := nx, todo_queue := h\<rparr>)" "stailq_rep nx h (xs @ [a])" by blast
  with assms w show "\<exists>s1 e1. crt_sem_post s e = Inr (s1, e1) \<and> stailq_rep (nxt e1) (todo_queue e1) (xs @ [a]) \<and>
      manager_sem e1 = manager_sem e + 1 \<and> tasks e1 a = Some (t\<lparr>action := act_sem_activation\<rparr>) \<and>
      (\<forall>e2 :: 'w coroutine_env_s. crt_sem_wait s1 e2 = Inr (True, s\<lparr>sem_task_ptr := None\<rparr>, e2))"
    by (simp add: crt_sem_post_def upd_task_def sem_post_manager_def)
  from unshift_todo_rep [OF q assms(5)] obtain nx h where
    "Unshift_todo a ?e = Inr (?e\<lparr>nxt := nx, todo_queue := h\<rparr>)" "stailq_rep nx h (a # xs)" by blast
  with assms w show "\<exists>s1 e1. crt_sem_priority_post 2 s e = Inr (s1, e1) \<and> stailq_rep (nxt e1) (todo_queue e1) (a # xs) \<and>
      manager_sem e1 = manager_sem e + 1 \<and> tasks e1 a = Some (t\<lparr>action := act_sem_activation\<rparr>) \<and>
      (\<forall>e2 :: 'w coroutine_env_s. crt_sem_wait s1 e2 = Inr (True, s\<lparr>sem_task_ptr := None\<rparr>, e2))"
    by (simp add: crt_sem_priority_post_def upd_task_def sem_post_manager_def)
qed

theorem post_wakes_waiter_witness:
  "\<exists>s1 e1. crt_sem_post ((crt_sem_init 0)\<lparr>sem_task_ptr := Some 1\<rparr>) ex_env = Inr (s1, e1) \<and> manager_sem e1 = 1 \<and>
     stailq_rep (nxt e1) (todo_queue e1) [1]"
  using post_wakes_waiter [of "(crt_sem_init 0)\<lparr>sem_task_ptr := Some 1\<rparr>" 1 ex_env ex_task, OF _ _ _ ex_env_queue(1), THEN conjunct1]
  by (auto simp: ex_env_fields crt_sem_init_def)

lemma chain_cut: "chain nx p (xs @ a # ys) \<Longrightarrow> \<forall>x\<in>set xs. nx' x = nx x \<Longrightarrow> nx' a = None \<Longrightarrow> chain nx' p (xs @ [a])"
  by (induction xs arbitrary: p) auto

lemma chain_through: "chain nx p (xs @ a # ys) \<Longrightarrow> \<forall>x\<in>set xs. nx' x = nx x \<Longrightarrow> chain nx' p zs \<Longrightarrow> a \<in> set zs"
proof (induction xs arbitrary: p zs)
  case Nil
  then show ?case by (cases zs) auto
next
  case (Cons x xs)
  then show ?case by (cases zs) auto
qed

lemma push_again:
  assumes "stailq_rep nx h (xs @ a # ys)" and "list_push nx h a = (nx', h')"
  shows "ys = [] \<Longrightarrow> nx' a = Some a \<and> \<not> stailq_rep nx' h' zs"
    and "ys \<noteq> [] \<Longrightarrow> chain nx' (STAILQ_FIRST h') (xs @ [a])"
proof -
  let ?l = "last (a # ys)"
  have h: "nx' = nx(a := None, ?l := Some a)" "stqh_first h' = stqh_first h"
    using assms by (auto simp: stailq_rep_def list_push_def STAILQ_INSERT_TAIL_def store_last_def last_slot_def)
  have c: "chain nx (stqh_first h) (xs @ a # ys)" using assms(1) by (simp add: stailq_rep_def)
  have d: "distinct (xs @ a # ys)" using rep_distinct [OF assms(1)] .
  have "?l \<in> set (a # ys)" by (rule last_in_set) simp
  with d h(1) have eq: "\<forall>x\<in>set xs. nx' x = nx x" by auto
  show "ys = [] \<Longrightarrow> nx' a = Some a \<and> \<not> stailq_rep nx' h' zs"
  proof
    assume "ys = []"
    then show self: "nx' a = Some a" using h(1) by simp
    show "\<not> stailq_rep nx' h' zs"
    proof
      assume r: "stailq_rep nx' h' zs"
      then have "chain nx' (stqh_first h) zs" using h(2) by (simp add: stailq_rep_def)
      from chain_through [OF c eq this] self_not_in_rep [OF r self] show False by simp
    qed
  qed
  show "ys \<noteq> [] \<Longrightarrow> chain nx' (STAILQ_FIRST h') (xs @ [a])"
  proof -
    assume "ys \<noteq> []"
    then have "?l \<noteq> a" using d by auto
    then have "nx' a = None" using h(1) by simp
    with chain_cut [OF c eq] h(2) show ?thesis by (simp add: STAILQ_FIRST_def)
  qed
qed

text \<open>
  (C16) Two posts before the waiter runs destroy the todo queue. The second post finds the task in the
  queue already and pushes it again; the post reports success and posts the manager's semaphore.
  If the task is the last of the queue, it becomes its own successor and the queue is a cycle that represents no
  list. If others were queued behind it, they are lost: following the links from the first task ends at
  this one.
\<close>

theorem second_post_breaks_queue:
  assumes "sem_task_ptr s = Some a" and "tasks e a = Some t" and "queue_of e (todo_queue e) (xs @ a # ys)"
  shows "\<exists>s1 e1. crt_sem_post s e = Inr (s1, e1) \<and> manager_sem e1 = manager_sem e + 1 \<and>
    (if ys = [] then nxt e1 a = Some a \<and> (\<nexists>zs. stailq_rep (nxt e1) (todo_queue e1) zs)
     else chain (nxt e1) (STAILQ_FIRST (todo_queue e1)) (xs @ [a]))"
proof -
  let ?e = "e\<lparr>tasks := (tasks e)(a \<mapsto> t\<lparr>action := act_sem_activation\<rparr>)\<rparr>"
  obtain nx h where p: "list_push (nxt e) (todo_queue e) a = (nx, h)" by fastforce
  have q: "queue_of ?e (todo_queue ?e) (xs @ a # ys)" "live ?e a" using assms(3) by (auto simp: queue_of_def live_def)
  have "Push_todo a ?e = Inr (?e\<lparr>nxt := nx, todo_queue := h\<rparr>)"
    using queue_push_ok [OF q] p assms(3) by (simp add: Push_todo_def queue_of_def)
  then have "crt_sem_post s e = Inr (s\<lparr>sem_value := to_int (sem_value s + 1)\<rparr>, sem_post_manager (?e\<lparr>nxt := nx, todo_queue := h\<rparr>))"
    using assms(1,2) by (simp add: crt_sem_post_def upd_task_def)
  moreover have "stailq_rep (nxt e) (todo_queue e) (xs @ a # ys)" using assms(3) by (simp add: queue_of_def)
  note push_again [OF this p]
  ultimately show ?thesis by (simp add: sem_post_manager_def)
qed

text \<open>Coroutine 1 is posted twice; in the second run coroutine 2 was created in between.\<close>

theorem second_post_breaks_queue_witness:
  "(\<exists>s1 e1 s2 e2. crt_sem_post ((crt_sem_init 0)\<lparr>sem_task_ptr := Some 1\<rparr>) ex_env = Inr (s1, e1) \<and>
      crt_sem_post s1 e1 = Inr (s2, e2) \<and> nxt e2 1 = Some 1) \<and>
   (\<exists>s1 e1 e2 s3 e3. crt_sem_post ((crt_sem_init 0)\<lparr>sem_task_ptr := Some 1\<rparr>) ex_env = Inr (s1, e1) \<and>
      crt_create (Some (2, ex_task)) None 7 9 e1 = Inr (1, e2) \<and> stailq_rep (nxt e2) (todo_queue e2) [1, 2] \<and>
      crt_sem_post s1 e2 = Inr (s3, e3) \<and> chain (nxt e3) (STAILQ_FIRST (todo_queue e3)) [1])"
proof -
  let ?s = "(crt_sem_init 0)\<lparr>sem_task_ptr := Some 1\<rparr>" and ?t = "ex_task\<lparr>action := act_sem_activation\<rparr>"
  let ?e = "ex_env\<lparr>tasks := (\<lambda>_. None)(1 \<mapsto> ?t)\<rparr>"
  have q: "queue_of ?e (todo_queue ?e) []" "live ?e 1" using ex_env_queue(1) by (auto simp: queue_of_def live_def)
  from push_todo_rep [OF q] obtain nx h where
    h: "Push_todo 1 ?e = Inr (?e\<lparr>nxt := nx, todo_queue := h\<rparr>)" "stailq_rep nx h [1]" by auto
  let ?e1 = "sem_post_manager (?e\<lparr>nxt := nx, todo_queue := h\<rparr>)"
  have p: "crt_sem_post ?s ex_env = Inr (?s\<lparr>sem_value := 1\<rparr>, ?e1)"
    using h(1) by (simp add: crt_sem_post_def upd_task_def ex_env_fields crt_sem_init_def)
  have q1: "queue_of ?e1 (todo_queue ?e1) ([] @ 1 # [])" "tasks ?e1 1 = Some ?t"
    using h(2) q(1) by (simp_all add: sem_post_manager_def queue_of_def live_def)
  let ?u = "ex_task\<lparr>ret_val := None, ret_err_code := None, task_context := Ctx_none, stack_ptr := None,
     action := act_new_coroutine, args := Init_arg \<lparr>func = 7, stack_size = COROUTINE_STACK_SIZE, func_arg = 9\<rparr>\<rparr>"
  let ?f = "?e1\<lparr>cid := 1, tasks := (\<lambda>_. None)(1 \<mapsto> ?t, 2 \<mapsto> ?u)\<rparr>"
  have "queue_of ?f (todo_queue ?f) [1]" "live ?f 2" using q1(1) by (auto simp: queue_of_def live_def sem_post_manager_def)
  from push_todo_rep [OF this] obtain nx2 h2 where
    h2: "Push_todo 2 ?f = Inr (?f\<lparr>nxt := nx2, todo_queue := h2\<rparr>)" "stailq_rep nx2 h2 [1, 2]" by auto
  let ?e2 = "sem_post_manager (?f\<lparr>nxt := nx2, todo_queue := h2\<rparr>)"
  have c: "crt_create (Some (2, ex_task)) None 7 9 ?e1 = Inr (1, ?e2)"
    using h2(1) by (simp add: crt_create_def create_push_def Let_def sem_post_manager_def ex_env_fields)
  have q2: "queue_of ?e2 (todo_queue ?e2) ([] @ 1 # [2])" "tasks ?e2 1 = Some ?t" "stailq_rep (nxt ?e2) (todo_queue ?e2) [1, 2]"
    using h2(2) q(1) by (simp_all add: sem_post_manager_def queue_of_def live_def)
  have "\<exists>s2 e2. crt_sem_post (?s\<lparr>sem_value := 1\<rparr>) ?e1 = Inr (s2, e2) \<and> nxt e2 1 = Some 1"
    using second_post_breaks_queue [OF _ q1(2,1), of "?s\<lparr>sem_value := 1\<rparr>"] by auto
  moreover have "\<exists>s3 e3. crt_sem_post (?s\<lparr>sem_value := 1\<rparr>) ?e2 = Inr (s3, e3) \<and> chain (nxt e3) (STAILQ_FIRST (todo_queue e3)) [1]"
    using second_post_breaks_queue [OF _ q2(2,1), of "?s\<lparr>sem_value := 1\<rparr>"] by auto
  ultimately show ?thesis using p c q2(3) by blast
qed

end
