(* ===== verification/Acoro_Lifecycle.thy ===== *)
theory Acoro_Lifecycle
  imports Acoro_Safety Acoro_Calls
begin

text \<open>
  The beginning and the end of the library's life, and the progress of the manager: starting the
  environment, running the task at the head of the queue, destroying the environment in any
  reachable state, and preparing a listening socket.
\<close>

section \<open>Starting\<close>

text \<open>
  What POSIX says of descriptors, on a view of the world: \<open>opened w\<close> are the open descriptors and \<open>nb w\<close> the ones with
  \<open>O_NONBLOCK\<close>. \<open>pipe\<close> opens two new, different ones, without the flag, or none; \<open>F_GETFL\<close> succeeds for open
  descriptors only and tells whether the flag is set; \<open>F_SETFL\<close>, if it succeeds, sets or clears it.
\<close>

definition pipe_view :: "('w \<Rightarrow> int set) \<Rightarrow> ('w \<Rightarrow> int set) \<Rightarrow> 'w posix \<Rightarrow> bool" where
  "pipe_view opened nb P \<longleftrightarrow>
     (\<forall>en w r en' w'. sys_pipe P en w = (r, en', w') \<longrightarrow> nb w' = nb w \<and>
        (case r of None \<Rightarrow> opened w' = opened w
         | Some (rd, wr) \<Rightarrow> 0 \<le> rd \<and> 0 \<le> wr \<and> rd \<noteq> wr \<and> rd \<notin> opened w \<and> wr \<notin> opened w \<and> opened w' = opened w \<union> {rd, wr}))"

definition flag_view :: "('w \<Rightarrow> int set) \<Rightarrow> ('w \<Rightarrow> int set) \<Rightarrow> 'w posix \<Rightarrow> bool" where
  "flag_view opened nb P \<longleftrightarrow>
     (\<forall>fd en w r en' w'. sys_getfl P fd en w = (r, en', w') \<longrightarrow> opened w' = opened w \<and> nb w' = nb w \<and>
        (0 \<le> r \<longrightarrow> fd \<in> opened w \<and> (r AND O_NONBLOCK \<noteq> 0 \<longleftrightarrow> fd \<in> nb w))) \<and>
     (\<forall>fd fl en w r en' w'. sys_setfl P fd fl en w = (r, en', w') \<longrightarrow> opened w' = opened w \<and>
        nb w' = (if r \<noteq> 0 then nb w else if fl AND O_NONBLOCK \<noteq> 0 then insert fd (nb w) else nb w - {fd}))"

text \<open>The call behind a fault of the start: a \<open>pipe\<close> that failed, or an \<open>fcntl\<close> that failed on an open descriptor.\<close>

definition call_failed :: "('w \<Rightarrow> int set) \<Rightarrow> 'w posix \<Rightarrow> fault \<Rightarrow> bool" where
  "call_failed opened P f \<longleftrightarrow>
     f = Uninitialised \<and> (\<exists>en w. fst (sys_pipe P en w) = None) \<or>
     f = AssertFailed \<and> (\<exists>fd en w. fd \<in> opened w \<and>
       (fst (sys_getfl P fd en w) < 0 \<or> (\<exists>fl. fst (sys_setfl P fd fl en w) \<noteq> 0)))"

lemma nonblock_bit: "(fl OR O_NONBLOCK) AND O_NONBLOCK \<noteq> 0"
proof -
  have "bit ((fl OR O_NONBLOCK) AND O_NONBLOCK) 11" by (simp add: bit_simps O_NONBLOCK_def)
  then show ?thesis by auto
qed

lemma init_nonblock_view:
  assumes "flag_view opened nb P" and "fd \<in> opened (world e)"
  shows "case init_nonblock P th fd e of Inl f \<Rightarrow> call_failed opened P f
    | Inr e' \<Rightarrow> os_only e e' \<and> opened (world e') = opened (world e) \<and> nb (world e') = insert fd (nb (world e))"
proof -
  obtain fl en1 w1 where g: "sys_getfl P fd (errno e th) (world e) = (fl, en1, w1)" by (metis prod.exhaust)
  let ?e1 = "e\<lparr>errno := (errno e)(th := en1), world := w1\<rparr>"
  obtain r en2 w2 where t: "sys_setfl P fd (fl OR O_NONBLOCK) en1 w1 = (r, en2, w2)" by (metis prod.exhaust)
  have v: "opened w1 = opened (world e)" "nb w1 = nb (world e)" "opened w2 = opened w1"
    "nb w2 = (if r \<noteq> 0 then nb w1 else insert fd (nb w1))"
    using assms(1) g t nonblock_bit [of fl] unfolding flag_view_def by (blast, blast, blast, simp)
  show ?thesis
  proof (cases "init_nonblock P th fd e")
    case (Inl f)
    then have "f = AssertFailed" "fl < 0 \<or> r \<noteq> 0"
      using g t by (auto simp: init_nonblock_def sys_def Let_def bind_res_Inl_iff assert_c_def split: if_splits)
    moreover have "fst (sys_getfl P fd (errno e th) (world e)) = fl" "fst (sys_setfl P fd (fl OR O_NONBLOCK) en1 w1) = r"
      using g t by simp_all
    moreover have "fd \<in> opened w1" using v(1) assms(2) by simp
    ultimately show ?thesis using Inl assms(2) unfolding call_failed_def by (simp, blast)
  next
    case (Inr e')
    with g t have "r = 0" "e' = e\<lparr>errno := (errno e)(th := en2), world := w2\<rparr>"
      by (auto simp: init_nonblock_def sys_def Let_def bind_res_Inr_iff)
    with Inr v init_nonblock_os [OF Inr] show ?thesis by simp
  qed
qed

lemma init_pipes_view:
  assumes "pipe_view opened nb P" and "flag_view opened nb P"
  shows "case init_pipes P th n e of Inl f \<Rightarrow> call_failed opened P f
    | Inr (fds, e') \<Rightarrow> os_only e e' \<and> length fds = n \<and> distinct (pipe_fds fds) \<and> set (pipe_fds fds) \<inter> opened (world e) = {} \<and>
        opened (world e') = opened (world e) \<union> set (pipe_fds fds) \<and> nb (world e') = nb (world e) \<union> set (pipe_fds fds)"
proof (induction n arbitrary: e)
  case 0
  show ?case by (simp add: pipe_fds_def)
next
  case (Suc n)
  obtain r en1 w1 where p: "sys_pipe P (errno e th) (world e) = (r, en1, w1)" by (metis prod.exhaust)
  let ?e1 = "e\<lparr>errno := (errno e)(th := en1), world := w1\<rparr>"
  have s: "sys th (sys_pipe P) e = (r, ?e1)" using p by (simp add: sys_def)
  show ?case
  proof (cases r)
    case None
    then have "fst (sys_pipe P (errno e th) (world e)) = None" using p by simp
    with s None show ?thesis by (auto simp: call_failed_def)
  next
    case (Some x)
    then obtain rd wr where x: "r = Some (rd, wr)" by (cases x) auto
    have w1: "nb w1 = nb (world e)" "rd \<noteq> wr" "rd \<notin> opened (world e)" "wr \<notin> opened (world e)" "opened w1 = opened (world e) \<union> {rd, wr}"
      using assms(1) p x unfolding pipe_view_def by fastforce+
    have in1: "rd \<in> opened (world ?e1)" "wr \<in> opened w1" using w1(5) by simp_all
    note i1 = init_nonblock_view [OF assms(2) in1(1), where th = th]
    show ?thesis
    proof (cases "init_nonblock P th rd ?e1")
      case (Inl f)
      with s x i1 show ?thesis by simp
    next
      case (Inr e2)
      note e2 = this
      have "wr \<in> opened (world e2)" using i1 e2 in1(2) by simp
      note i2 = init_nonblock_view [OF assms(2) this, where th = th]
      show ?thesis
      proof (cases "init_nonblock P th wr e2")
        case (Inl f)
        with s x e2 i2 show ?thesis by simp
      next
        case (Inr e3)
        have v3: "os_only e e3" "opened (world e3) = opened w1" "nb (world e3) = insert wr (insert rd (nb w1))"
          using i1 i2 e2 Inr os_only_trans [OF os_only_trans [OF os_only_sys [OF s]]] by auto
        show ?thesis
        proof (cases "init_pipes P th n e3")
          case (Inl f)
          with s x e2 Inr Suc.IH [of e3] show ?thesis by simp
        next
          case (Inr q)
          obtain fds e' where q: "q = (fds, e')" by (cases q) auto
          have "init_pipes P th (Suc n) e = Inr ((rd, wr) # fds, e')" using s x e2 \<open>init_nonblock P th wr e2 = Inr e3\<close> Inr q by simp
          moreover have r: "os_only e3 e'" "length fds = n" "distinct (pipe_fds fds)" "set (pipe_fds fds) \<inter> opened (world e3) = {}"
            "opened (world e') = opened (world e3) \<union> set (pipe_fds fds)" "nb (world e') = nb (world e3) \<union> set (pipe_fds fds)"
            using Suc.IH [of e3] Inr q by simp_all
          moreover have "pipe_fds ((rd, wr) # fds) = rd # wr # pipe_fds fds" by (simp add: pipe_fds_def)
          ultimately show ?thesis using os_only_trans [OF v3(1) r(1)] v3(2,3) w1 by auto
        qed
      qed
    qed
  qed
qed

text \<open>
  (C22) Starting the library: \<open>init_coroutine_env\<close> makes an environment with a pipe for every worker (four if
  the caller asks for none) whose descriptors are new, all different and all non-blocking, and it opens
  no others; both queues are empty, no task exists and the manager's semaphore is 0. It faults only if one of
  the system calls fails: with a failed assertion if \<open>fcntl\<close> does for an open descriptor, and by the use of
  descriptors nobody has written if \<open>pipe\<close> does, whose result is not tested.
\<close>

theorem init_gives_pipes:
  assumes "pipe_view opened nb P" and "flag_view opened nb P"
  shows "case init_coroutine_env P th n en w of
      Inl f \<Rightarrow> call_failed opened P f
    | Inr (fds, e) \<Rightarrow> length fds = background_worker_count e \<and> background_worker_count e = (if n = 0 then 4 else n) \<and>
        distinct (pipe_fds fds) \<and> set (pipe_fds fds) \<inter> opened w = {} \<and> opened (world e) = opened w \<union> set (pipe_fds fds) \<and>
        set (pipe_fds fds) \<subseteq> nb (world e) \<and>
        tasks e = (\<lambda>_. None) \<and> manager_sem e = 0 \<and> queue_of e (todo_queue e) [] \<and> queue_of e (doing_queue e) []"
proof (cases "init_coroutine_env P th n en w")
  case (Inl f)
  with init_pipes_view [OF assms, where th = th and n = "if n = 0 then BACKGROUND_WORKER_CNT else n" and e = "env_zero n en w"] show ?thesis
    by (simp add: init_coroutine_env_def env_zero_def)
next
  case (Inr q)
  obtain fds e where q: "q = (fds, e)" by (cases q) auto
  with Inr init_pipes_view [OF assms, where th = th and n = "if n = 0 then BACKGROUND_WORKER_CNT else n" and e = "env_zero n en w"] have
    v: "os_only (env_zero n en w) e" "length fds = (if n = 0 then BACKGROUND_WORKER_CNT else n)" "distinct (pipe_fds fds)"
      "set (pipe_fds fds) \<inter> opened w = {}" "opened (world e) = opened w \<union> set (pipe_fds fds)"
      "nb (world e) = nb w \<union> set (pipe_fds fds)"
    by (simp_all add: init_coroutine_env_def env_zero_def)
  obtain en' w' where "e = env_zero n en' w'" using v(1) by (auto simp: os_only_def env_zero_def)
  with Inr q v show ?thesis
    by (auto simp: env_zero_def BACKGROUND_WORKER_CNT_def queue_of_def list_new_def rep_init)
qed

text \<open>A kernel that keeps the number of descriptors it has given out and the non-blocking ones.\<close>

definition ex_fdos :: "(nat \<times> int set) posix" where
  "ex_fdos =
     \<lparr>sys_open = (\<lambda>p f m en w. (-1, en, w)), sys_read = (\<lambda>fd b n en w. (0, en, w)),
      sys_write = (\<lambda>fd b n en w. (0, en, w)), sys_close = (\<lambda>fd en w. (0, en, w)),
      sys_socket = (\<lambda>en w. (-1, en, w)), sys_reuseaddr = (\<lambda>fd en w. (0, en, w)),
      sys_connect = (\<lambda>fd ip port en w. (-1, en, w)), sys_so_error = (\<lambda>fd en w. ((0, 0), en, w)),
      sys_accept = (\<lambda>fd ad len en w. (-1, en, w)), sys_bind = (\<lambda>fd ip port en w. (0, en, w)),
      sys_listen = (\<lambda>fd k en w. (0, en, w)), sys_pipe = (\<lambda>en (k, s). (Some (int k, int k + 1), en, (k + 2, s - {int k, int k + 1}))),
      sys_getfl = (\<lambda>fd en (k, s). (if fd \<in> {0..<int k} then if fd \<in> s then 2050 else 2 else -1, en, (k, s))),
      sys_setfl = (\<lambda>fd fl en (k, s).
        if fd \<in> {0..<int k} then (0, en, (k, if fl AND O_NONBLOCK \<noteq> 0 then insert fd s else s - {fd})) else (-1, en, (k, s))),
      sys_bg = (\<lambda>f x res en w. (0, en, w))\<rparr>"

lemma ex_fdos_view:
  "pipe_view (\<lambda>(k, s). {0..<int k}) (\<lambda>(k, s). s \<inter> {0..<int k}) ex_fdos"
  "flag_view (\<lambda>(k, s). {0..<int k}) (\<lambda>(k, s). s \<inter> {0..<int k}) ex_fdos"
  by (auto simp: pipe_view_def flag_view_def ex_fdos_def O_NONBLOCK_def split: if_splits prod.splits)

theorem init_gives_pipes_witness:
  "\<exists>fds e. init_coroutine_env ex_fdos (Foreign 0) 2 (\<lambda>_. 0) (3, {}) = Inr (fds, e) \<and> length fds = 2 \<and>
     distinct (pipe_fds fds) \<and> set (pipe_fds fds) \<subseteq> (case world e of (k, s) \<Rightarrow> s \<inter> {0..<int k})"
proof -
  have "\<exists>fds e. init_coroutine_env ex_fdos (Foreign 0) 2 (\<lambda>_. 0) (3, {}) = Inr (fds, e)"
    by (simp add: init_coroutine_env_def env_zero_def numeral_2_eq_2 sys_def ex_fdos_def init_nonblock_def O_NONBLOCK_def)
  then obtain fds e where "init_coroutine_env ex_fdos (Foreign 0) 2 (\<lambda>_. 0) (3, {}) = Inr (fds, e)" by blast
  with init_gives_pipes [OF ex_fdos_view, where th = "Foreign 0" and n = 2 and en = "\<lambda>_. 0" and w = "(3, {})"] show ?thesis by (auto simp: split_def)
qed

section \<open>Progress\<close>

text \<open>The manager after \<open>k\<close> moves towards the task \<open>x\<close>, the head of its queue \<open>zs\<close>.\<close>

definition on_way :: "nat \<Rightarrow> addr \<Rightarrow> addr list \<Rightarrow> 'w system \<Rightarrow> bool" where
  "on_way k x zs s \<longleftrightarrow>
     (k = 0 \<longrightarrow> mpc s = M_wait \<and> 0 < manager_sem (env s) \<and> (\<exists>xs. zs = x # xs)) \<and>
     (k = 1 \<longrightarrow> mpc s = M_take \<and> (\<exists>xs. zs = x # xs)) \<and> (k = 2 \<longrightarrow> mpc s = M_switch x) \<and> (k = 3 \<longrightarrow> mpc s = M_run x)"

lemma no_runner: "inv_with NB {} own zs ys s \<Longrightarrow> mpc s = M_wait \<or> mpc s = M_take \<Longrightarrow> own b \<noteq> O_running"
  using inv_withD(5) [of NB "{}" own zs ys s] by (auto simp: manager_ok_def)

lemma take_head:
  assumes "inv_with NB {} own (x # xs) ys s" and "manager_take (env s) = Inr (a, e)"
  shows "a = x"
  using assms(2) shift_todo_ok [OF inv_withD(1,2) [OF assms(1)], of O_running] by (auto simp: manager_take_def deref_def)

lemma switch_head:
  assumes "inv_with NB {} own zs ys s" and "mpc s = M_switch x"
  shows "manager_switch sp x (env s) \<noteq> Inr (False, e)"
proof -
  from inv_withD(5) [OF assms(1)] assms(2) obtain t where "tasks (env s) x = Some t" "todo_ok t" by (auto simp: manager_ok_def)
  with m_switch_ok [of "env s" x t sp] show ?thesis by auto
qed

text \<open>Every step, of any thread, leaves the manager where it is on its way or brings it to the next point.\<close>

lemma on_way_step:
  assumes P: "posix_ok m NB P" and fd: "\<And>i. 0 \<le> pfd i" and i: "inv_with NB {} own zs ys s" and w: "on_way k x zs s" "k \<le> 3"
    and st: "sys_step P NB pfd s (Inr s')"
  shows "\<exists>own' zs' ys'. inv_with NB {} own' zs' ys' s' \<and> (mpc s' = mpc s \<longrightarrow> on_way k x zs' s') \<and>
    (mpc s' \<noteq> mpc s \<longrightarrow> k < 3 \<longrightarrow> on_way (Suc k) x zs' s')"
proof -
  from sys_step_sim [OF P fd i st] obtain own' zs' ys' where i': "inv_with NB {} own' zs' ys' s'"
    and a: "sched_step \<lparr>place = own, todo = zs, doing = ys\<rparr> \<lparr>place = own', todo = zs', doing = ys'\<rparr>" by (auto simp: inv_to_def)
  have grow: "\<exists>us. zs' = zs @ us" if "mpc s = M_wait \<or> mpc s = M_take" "mpc s' = M_wait \<or> mpc s' = M_take"
    using todo_grows [OF a] no_runner [OF i that(1)] no_runner [OF i' that(2)] by simp
  consider "k = 0" | "k = 1" | "k = 2" | "k = 3" using w(2) by linarith
  then have "(mpc s' = mpc s \<longrightarrow> on_way k x zs' s') \<and> (mpc s' \<noteq> mpc s \<longrightarrow> k < 3 \<longrightarrow> on_way (Suc k) x zs' s')"
  proof cases
    case 1
    with w have m: "mpc s = M_wait" "0 < manager_sem (env s)" "\<exists>xs. zs = x # xs" by (simp_all add: on_way_def)
    from step_at_wait [OF st m(1)] grow m show ?thesis by (auto simp: 1 on_way_def)
  next
    case 2
    with w have m: "mpc s = M_take" "\<exists>xs. zs = x # xs" by (simp_all add: on_way_def)
    from step_at_take [OF st m(1)] grow m i take_head show ?thesis by (fastforce simp: 2 on_way_def)
  next
    case 3
    with w have m: "mpc s = M_switch x" by (simp add: on_way_def)
    from step_at_switch [OF st m] switch_head [OF i m] m show ?thesis by (auto simp: 3 on_way_def)
  next
    case 4
    with w show ?thesis by (simp add: on_way_def)
  qed
  with i' show ?thesis by blast
qed

lemma on_way_enabled:
  assumes i: "inv_with NB {} own zs ys s" and w: "on_way k x zs s" "k < 3"
  shows "\<exists>s'. sys_step P NB pfd s (Inr s') \<and> mpc s' \<noteq> mpc s"
proof -
  consider "k = 0" | "k = 1" | "k = 2" using w(2) by linarith
  then show ?thesis
  proof cases
    case 1
    with w have m: "mpc s = M_wait" "0 < manager_sem (env s)" by (simp_all add: on_way_def)
    then have "sem_wait_manager (env s) = Some ((env s)\<lparr>manager_sem := manager_sem (env s) - 1\<rparr>)" by (simp add: sem_wait_manager_def)
    from sys_step.m_wait [OF m(1) this, of P NB pfd] m(1) show ?thesis by fastforce
  next
    case 2
    with w have m: "mpc s = M_take" by (simp add: on_way_def)
    from m_take_inv [OF i m] obtain a e where "manager_take (env s) = Inr (a, e)" by blast
    with sys_step.m_take [OF m, of P NB pfd] m show ?thesis by fastforce
  next
    case 3
    with w have m: "mpc s = M_switch x" by (simp add: on_way_def)
    from m_switch_inv [OF i m, of 0] obtain b e where "manager_switch 0 x (env s) = Inr (b, e)" by blast
    with sys_step.m_switch [OF m, of P NB pfd 0] m show ?thesis by (cases b) fastforce+
  qed
qed

lemma on_way_run:
  assumes "manager_run P NB pfd s k s'" and P: "posix_ok m NB P" and fd: "\<And>i. 0 \<le> pfd i"
    and i: "inv_with NB {} own zs ys s" and w: "on_way 0 x zs s" and k: "k \<le> 3"
  shows "\<exists>own' zs' ys'. inv_with NB {} own' zs' ys' s' \<and> on_way k x zs' s'"
  using assms(1) k
proof (induction rule: manager_run.induct)
  case run_begin
  show ?case using i w by blast
next
  case (run_other k s1 s2)
  then obtain own' zs' ys' where "inv_with NB {} own' zs' ys' s1" "on_way k x zs' s1" by blast
  from on_way_step [OF P fd this run_other.prems run_other.hyps(2)] run_other.hyps(3) show ?case by blast
next
  case (run_manager k s1 s2)
  then obtain own' zs' ys' where "inv_with NB {} own' zs' ys' s1" "on_way k x zs' s1" by auto
  from on_way_step [OF P fd this _ run_manager.hyps(2)] run_manager.hyps(3) run_manager.prems show ?case by auto
qed

text \<open>
  (C8) The manager gets to the task at the head of its queue, whatever the other threads do meanwhile: take a
  reachable state in which it waits and its semaphore is not zero, so that the queue is not empty, and any run
  from there in which the manager has moved fewer than three times. Its next move is possible in the state
  reached; and in a run in which it has moved three times (past \<open>sem_wait\<close>, past \<open>Shift\<close>, past the
  switch) it runs the task that was the head of the queue at the beginning. No step of another thread
  delays or diverts it; that the manager thread is given the processor is the operating system's business.
\<close>

theorem manager_runs_head:
  assumes "posix_ok m NB P" and "pipe_ok P" and "\<And>k. 0 \<le> sint (v k)" and "reachable P NB th n en w v (Inr s)"
    and "mpc s = M_wait" and "0 < manager_sem (env s)" and "\<And>i. 0 \<le> pfd i"
  shows "\<exists>x xs. stailq_rep (nxt (env s)) (todo_queue (env s)) (x # xs) \<and>
    (\<forall>k s'. manager_run P NB pfd s k s' \<longrightarrow>
      (k < 3 \<longrightarrow> (\<exists>s''. sys_step P NB pfd s' (Inr s'') \<and> mpc s'' \<noteq> mpc s')) \<and>
      (k = 3 \<longrightarrow> mpc s' = M_run x \<and> curr_task_ptr (env s') = Some x))"
proof -
  from reachable_inv [OF assms(1-4)] obtain own zs ys where i: "inv_with NB {} own zs ys s" by (auto simp: sys_inv_def)
  note d = inv_withD [OF i]
  have "0 < length zs" using d(3) assms(6) by (simp add: counts_ok_def)
  then obtain x xs where zs: "zs = x # xs" by (cases zs) auto
  have w: "on_way 0 x zs s" using assms(5,6) zs by (simp add: on_way_def)
  have "(k < 3 \<longrightarrow> (\<exists>s''. sys_step P NB pfd s' (Inr s'') \<and> mpc s'' \<noteq> mpc s')) \<and>
      (k = 3 \<longrightarrow> mpc s' = M_run x \<and> curr_task_ptr (env s') = Some x)" if r: "manager_run P NB pfd s k s'" for k s'
  proof (cases "k \<le> 3")
    case True
    from on_way_run [OF r assms(1,7) i w True] obtain own' zs' ys' where
      j: "inv_with NB {} own' zs' ys' s'" "on_way k x zs' s'" by blast
    from on_way_enabled [OF j] inv_withD(5) [OF j(1)] j(2) show ?thesis by (auto simp: on_way_def manager_ok_def)
  qed simp
  moreover have "stailq_rep (nxt (env s)) (todo_queue (env s)) (x # xs)" using d(1) zs by (simp add: queues_ok_def)
  ultimately show ?thesis by blast
qed

text \<open>A program that has created a coroutine.\<close>

lemma ex_ready: "\<exists>s. reachable ex_posix {} (Foreign 0) 2 (\<lambda>_. 0) () (\<lambda>_. 0) (Inr s) \<and> mpc s = M_wait \<and> manager_sem (env s) = 1"
proof -
  let ?s0 = "init_system (env_zero 2 (\<lambda>_. 0) ()) (\<lambda>_. 0)"
  obtain e id where c: "create_push (Some (1, ex_junk)) None 7 9 (env ?s0) = Inr (id, e)" "manager_sem e = 0"
    using ex_created by (auto simp: init_system_def)
  let ?s1 = "?s0\<lparr>env := e, creators := 1\<rparr>" and ?s2 = "?s0\<lparr>env := sem_post_manager e, creators := 0\<rparr>"
  have 1: "sys_reach ex_posix {} (CurrReadPipe [(3, 4), (3, 4)]) ?s0 (Inr ?s1)"
    using reach_step [OF reach_init, OF f_create [where s = ?s0 and b = 1 and junk = ex_junk and attr = None and br = 7 and x = 9]] c(1)
    by (simp add: init_system_def env_zero_def)
  have "sys_reach ex_posix {} (CurrReadPipe [(3, 4), (3, 4)]) ?s0 (Inr ?s2)" using reach_step [OF 1, OF f_post] by simp
  then have "reachable ex_posix {} (Foreign 0) 2 (\<lambda>_. 0) () (\<lambda>_. 0) (Inr ?s2)" using ex_init by (auto simp: reachable_def)
  then show ?thesis using c(2) by (intro exI [of _ ?s2]) (simp add: init_system_def sem_post_manager_def)
qed

theorem manager_runs_head_witness:
  "\<exists>s x xs. mpc s = M_wait \<and> stailq_rep (nxt (env s)) (todo_queue (env s)) (x # xs) \<and>
     (\<forall>k s'. manager_run ex_posix {} (\<lambda>_. 3) s k s' \<longrightarrow>
       (k < 3 \<longrightarrow> (\<exists>s''. sys_step ex_posix {} (\<lambda>_. 3) s' (Inr s'') \<and> mpc s'' \<noteq> mpc s')) \<and> (k = 3 \<longrightarrow> mpc s' = M_run x))"
proof -
  obtain s where s: "reachable ex_posix {} (Foreign 0) 2 (\<lambda>_. 0) () (\<lambda>_. 0) (Inr s)" "mpc s = M_wait" "0 < manager_sem (env s)"
    using ex_ready by auto
  have v: "\<And>k. 0 \<le> sint ((\<lambda>_. 0 :: u32) k)" by simp
  have fd: "\<And>i. 0 \<le> (\<lambda>_ :: nat. 3 :: int) i" by simp
  from manager_runs_head [OF ex_posix_ok v s fd] s(2) show ?thesis by blast
qed

section \<open>Destroying the environment\<close>






lemma destroy_queues_ok:
  assumes "inv_with NB {} own xs ys s"
  shows "\<exists>e1 e2 h1 h2. destroy_todo (env s) = Some (Inr e1) \<and> destroy_doing e1 = Some (Inr e2) \<and>
    e2 = (env s)\<lparr>todo_queue := h1, doing_queue := h2, queue_heads := {},
      tasks := (\<lambda>a. if a \<in> set xs \<union> set ys then None else tasks (env s) a)\<rparr>"
proof -
  note d = inv_withD(1) [OF assms]
  from list_clear_rep [of "nxt (env s)" "todo_queue (env s)" xs] d obtain h1 where
    h1: "list_clear (nxt (env s)) (todo_queue (env s)) = Some (Inr (xs, h1))" by (auto simp: queues_ok_def)
  from list_clear_rep [of "nxt (env s)" "doing_queue (env s)" ys] d obtain h2 where
    h2: "list_clear (nxt (env s)) (doing_queue (env s)) = Some (Inr (ys, h2))" by (auto simp: queues_ok_def)
  have "UNIV - {Todo_head} - {Doing_head} = {}" using head.exhaust by blast
  let ?e1 = "(env s)\<lparr>todo_queue := h1, tasks := (\<lambda>a. if a \<in> set xs then None else tasks (env s) a), queue_heads := UNIV - {Todo_head}\<rparr>"
  let ?e2 = "(env s)\<lparr>todo_queue := h1, doing_queue := h2, queue_heads := {},
      tasks := (\<lambda>a. if a \<in> set xs \<union> set ys then None else tasks (env s) a)\<rparr>"
  have t: "(\<lambda>a. if a \<in> set ys then None else tasks ?e1 a) = tasks ?e2" by auto
  have "destroy_todo (env s) = Some (Inr ?e1)" using d h1 by (simp add: destroy_todo_def queues_ok_def)
  moreover have "destroy_doing ?e1 = Some (Inr ?e2)"
    using h2 t \<open>UNIV - {Todo_head} - {Doing_head} = {}\<close> by (simp add: destroy_doing_def)
  ultimately show ?thesis by blast
qed




text \<open>
  (C24) Destroying the environment while its threads run is not safe: \<open>destroy_coroutine_env\<close> destroys the
  queues before it stops the threads. In any reachable state the destruction of the two queues ends without a fault
  and frees their heads. If the manager, or a worker, has then been woken for a task and has not taken it yet, its
  next step, \<open>Shift\<close>, uses the freed head; and so does \<open>crt_create\<close> in any other thread.
\<close>

theorem destroy_races:
  assumes "posix_ok m NB P" and "pipe_ok P" and "\<And>k. 0 \<le> sint (v k)" and "reachable P NB th n en w v (Inr s)"
  shows "\<exists>e1 e2. destroy_todo (env s) = Some (Inr e1) \<and> destroy_doing e1 = Some (Inr e2) \<and>
    (mpc s = M_take \<longrightarrow> sys_step P NB pfd (s\<lparr>env := e2\<rparr>) (Inl UseAfterFree)) \<and>
    (\<forall>i<wcount s. wpc s i = W_take \<longrightarrow> sys_step P NB pfd (s\<lparr>env := e2\<rparr>) (Inl UseAfterFree)) \<and>
    (\<forall>b junk attr br x. tasks e2 b = None \<longrightarrow> create_push (Some (b, junk)) attr br x e2 = Inl UseAfterFree)"
proof -
  from reachable_inv [OF assms] obtain own xs ys where i: "inv_with NB {} own xs ys s" by (auto simp: sys_inv_def)
  from destroy_queues_ok [OF i] obtain e1 e2 where
    q: "destroy_todo (env s) = Some (Inr e1)" "destroy_doing e1 = Some (Inr e2)" "queue_heads e2 = {}"
      "background_worker_count e2 = wcount s" by auto
  have "manager_take e2 = Inl UseAfterFree" "event_take e2 = Inl UseAfterFree"
    using q(3) by (simp_all add: manager_take_def Shift_todo_def event_take_def Shift_doing_def)
  then have "mpc s = M_take \<Longrightarrow> sys_step P NB pfd (s\<lparr>env := e2\<rparr>) (Inl UseAfterFree)"
    "i < wcount s \<Longrightarrow> wpc s i = W_take \<Longrightarrow> sys_step P NB pfd (s\<lparr>env := e2\<rparr>) (Inl UseAfterFree)" for i
    using m_take [of "s\<lparr>env := e2\<rparr>" P NB pfd] w_take [of i "s\<lparr>env := e2\<rparr>" P NB pfd] q(4) by simp_all
  moreover have "create_push (Some (b, junk)) attr br x e2 = Inl UseAfterFree" for b junk attr br x
    using q(3) by (simp add: create_push_def Push_todo_def Let_def)
  ultimately show ?thesis using q(1,2) by (intro exI [of _ e1] exI [of _ e2]) simp
qed

theorem destroy_races_witness:
  "\<exists>s e1 e2. reachable ex_posix {} (Foreign 0) 2 (\<lambda>_. 0) () (\<lambda>_. 0) (Inr s) \<and> destroy_todo (env s) = Some (Inr e1) \<and>
     destroy_doing e1 = Some (Inr e2) \<and> sys_step ex_posix {} (CurrReadPipe [(3, 4), (3, 4)]) (s\<lparr>env := e2\<rparr>) (Inl UseAfterFree)"
proof -
  let ?s0 = "init_system (env_zero 2 (\<lambda>_. 0) ()) (\<lambda>_. 0)"
  from ex_taking obtain e where
    e: "sys_reach ex_posix {} (CurrReadPipe [(3, 4), (3, 4)]) ?s0 (Inr (?s0\<lparr>env := e, creators := 0, mpc := M_take\<rparr>))" by blast
  let ?s = "?s0\<lparr>env := e, creators := 0, mpc := M_take\<rparr>"
  have r: "reachable ex_posix {} (Foreign 0) 2 (\<lambda>_. 0) () (\<lambda>_. 0) (Inr ?s)" using e ex_init by (auto simp: reachable_def)
  have v: "\<And>k. 0 \<le> sint ((\<lambda>_. 0 :: u32) k)" by simp
  have "mpc ?s = M_take" by simp
  with destroy_races [OF ex_posix_ok v r, of "CurrReadPipe [(3, 4), (3, 4)]"] r show ?thesis by blast
qed

section \<open>Listening\<close>

text \<open>
  What POSIX says of the calls on the open descriptors: \<open>socket\<close> opens a new one or none, \<open>close\<close> closes the
  one it gets, and the others open and close nothing.
\<close>

definition socket_view :: "('w \<Rightarrow> int set) \<Rightarrow> 'w posix \<Rightarrow> bool" where
  "socket_view opened P \<longleftrightarrow>
     (\<forall>en w r en' w'. sys_socket P en w = (r, en', w') \<longrightarrow>
        (if r < 0 then opened w' = opened w else r \<notin> opened w \<and> opened w' = insert r (opened w))) \<and>
     (\<forall>fd en w r en' w'. sys_close P fd en w = (r, en', w') \<longrightarrow> opened w' = opened w - {fd}) \<and>
     (\<forall>fd en w. opened (snd (snd (sys_reuseaddr P fd en w))) = opened w) \<and>
     (\<forall>fd ip port en w. opened (snd (snd (sys_bind P fd ip port en w))) = opened w) \<and>
     (\<forall>fd k en w. opened (snd (snd (sys_listen P fd k en w))) = opened w) \<and>
     (\<forall>fd en w. opened (snd (snd (sys_getfl P fd en w))) = opened w) \<and>
     (\<forall>fd fl en w. opened (snd (snd (sys_setfl P fd fl en w))) = opened w)"

text \<open>The five calls of \<open>crt_tcp_prepare_sock\<close> in order, each with its result, its error code and the state after it.\<close>

definition prepare_calls ::
  "'w posix \<Rightarrow> thread \<Rightarrow> in_addr_t \<Rightarrow> in_port_t \<Rightarrow> 'w coroutine_env_s \<Rightarrow> int \<times> (bool \<times> int \<times> 'w coroutine_env_s) list" where
  "prepare_calls P th ip port e =
     (let (fd, e1) = sys th (sys_socket P) e;
          (r2, e2) = sys th (sys_reuseaddr P fd) e1;
          (r3, e3) = sys th (sys_bind P fd ip port) e2;
          (r4, e4) = sys th (sys_listen P fd 128) e3;
          (r5, e5) = crt_set_nonblock P th fd e4
      in (fd, [(fd < 0, CRT_ERR_SOCKET, e1), (r2 \<noteq> 0, CRT_ERR_SETSOCKOPT, e2), (r3 < 0, CRT_ERR_BIND, e3),
               (r4 < 0, CRT_ERR_LISTEN, e4), (r5 \<noteq> 0, CRT_ERR_SET_NONBLOCK, e5)]))"

lemma view_sys:
  assumes "sys th f e = (r, e')" and "\<And>en w. opened (snd (snd (f en w))) = opened w"
  shows "opened (world e') = opened (world e)"
  using assms(1) assms(2) [of "errno e th" "world e"] by (auto simp: sys_def split: prod.splits)

lemma view_nonblock:
  assumes "socket_view opened P" and "crt_set_nonblock P th fd e = (r, e')"
  shows "opened (world e') = opened (world e)"
proof -
  have v: "\<And>en w. opened (snd (snd (sys_getfl P fd en w))) = opened w" "\<And>fl en w. opened (snd (snd (sys_setfl P fd fl en w))) = opened w"
    using assms(1) by (simp_all add: socket_view_def)
  obtain fl e1 where g: "sys th (sys_getfl P fd) e = (fl, e1)" by fastforce
  obtain q e2 where t: "sys th (sys_setfl P fd (fl OR O_NONBLOCK)) e1 = (q, e2)" by fastforce
  show ?thesis using assms(2) g t view_sys [where opened = opened, OF g v(1)] view_sys [where opened = opened, OF t v(2)]
    by (auto simp: crt_set_nonblock_def split: if_splits)
qed

lemma view_socket:
  assumes "socket_view opened P" and "sys th (sys_socket P) e = (fd, e1)"
  shows "if fd < 0 then opened (world e1) = opened (world e) else fd \<notin> opened (world e) \<and> opened (world e1) = insert fd (opened (world e))"
proof -
  obtain r en w where s: "sys_socket P (errno e th) (world e) = (r, en, w)" by (metis prod.exhaust)
  have "if r < 0 then opened w = opened (world e) else r \<notin> opened (world e) \<and> opened w = insert r (opened (world e))"
    using conjunct1 [OF assms(1) [unfolded socket_view_def], rule_format, OF s] .
  with s assms(2) show ?thesis by (auto simp: sys_def)
qed

text \<open>The exit for errors, reached in a state that differs from \<open>e\<close> in \<open>errno\<close> and the world only.\<close>

lemma prepare_exception_ok:
  assumes "os_only e e1" and v: "socket_view opened P" and o: "opened (world e1) = (if fd < 0 then A else insert fd A)" "\<not> fd < 0 \<Longrightarrow> fd \<notin> A"
  shows "case curr_task_ptr e of None \<Rightarrow> prepare_exception P th fd ret e1 = Inl NullDeref
    | Some a \<Rightarrow> (case tasks e a of None \<Rightarrow> prepare_exception P th fd ret e1 = Inl UseAfterFree
      | Some t \<Rightarrow> \<exists>e'. prepare_exception P th fd ret e1 = Inr (ret, e') \<and> opened (world e') = A \<and>
          tasks e' = (tasks e)(a \<mapsto> t\<lparr>ret_err_code := Some (errno e1 th)\<rparr>))"
proof -
  obtain en w where e1: "e1 = e\<lparr>errno := en, world := w\<rparr>" using assms(1) unfolding os_only_def by blast
  obtain r en' w' where c: "sys_close P fd (en th) w = (r, en', w')" by (metis prod.exhaust)
  have "opened w' = opened w - {fd}" using conjunct1 [OF conjunct2 [OF v [unfolded socket_view_def]], rule_format, OF c] .
  then have w': "\<not> fd < 0 \<Longrightarrow> opened w' = A" using o by (simp add: e1)
  have x: "prepare_exception P th fd ret e1 = (case curr_task_ptr e of None \<Rightarrow> Inl NullDeref | Some a \<Rightarrow>
      case tasks e a of None \<Rightarrow> Inl UseAfterFree | Some t \<Rightarrow> Inr (ret,
        if fd < 0 then e1\<lparr>tasks := (tasks e)(a \<mapsto> t\<lparr>ret_err_code := Some (en th)\<rparr>)\<rparr>
        else e1\<lparr>tasks := (tasks e)(a \<mapsto> t\<lparr>ret_err_code := Some (en th)\<rparr>), errno := en(th := en'), world := w'\<rparr>))"
    using c by (simp add: e1 prepare_exception_def upd_curr_def get_curr_def deref_def upd_task_def sys_def split: option.split)
  show ?thesis
  proof (cases "curr_task_ptr e")
    case None then show ?thesis by (simp add: x)
  next
    case (Some a)
    then show ?thesis using w' o(1) by (cases "tasks e a"; cases "fd < 0") (simp_all add: x [unfolded e1] e1)
  qed
qed

text \<open>
  (C25) \<open>crt_tcp_prepare_sock\<close>: when all of its calls (\<open>socket\<close>, \<open>setsockopt\<close>, \<open>bind\<close>, \<open>listen\<close> and making the
  socket non-blocking) succeed, it returns the new descriptor, which is the only one it has opened, and changes no task.
  Otherwise it returns the error code of the first call that failed, the current task's error code is the \<open>errno\<close>
  that call left, no other task changes, and no descriptor stays open. The error is stored through
  \<open>curr_task_ptr\<close>: before the first coroutine has run this dereferences NULL, and outside a coroutine after that it
  uses the task of the last coroutine, which may have been freed.
\<close>

theorem prepare_sock_result:
  assumes "socket_view opened P" and "prepare_calls P th ip port e = (fd, calls)"
  shows "case find fst calls of
      None \<Rightarrow> \<exists>e'. crt_tcp_prepare_sock P th ip port e = Inr (fd, e') \<and> 0 \<le> fd \<and> fd \<notin> opened (world e) \<and>
        opened (world e') = insert fd (opened (world e)) \<and> tasks e' = tasks e
    | Some (_, ret, e1) \<Rightarrow> (case curr_task_ptr e of
          None \<Rightarrow> crt_tcp_prepare_sock P th ip port e = Inl NullDeref
        | Some a \<Rightarrow> (case tasks e a of
              None \<Rightarrow> crt_tcp_prepare_sock P th ip port e = Inl UseAfterFree
            | Some t \<Rightarrow> \<exists>e'. crt_tcp_prepare_sock P th ip port e = Inr (ret, e') \<and> opened (world e') = opened (world e) \<and>
                tasks e' = (tasks e)(a \<mapsto> t\<lparr>ret_err_code := Some (errno e1 th)\<rparr>)))"
proof -
  obtain f e1 where s1: "sys th (sys_socket P) e = (f, e1)" by fastforce
  obtain r2 e2 where s2: "sys th (sys_reuseaddr P f) e1 = (r2, e2)" by fastforce
  obtain r3 e3 where s3: "sys th (sys_bind P f ip port) e2 = (r3, e3)" by fastforce
  obtain r4 e4 where s4: "sys th (sys_listen P f 128) e3 = (r4, e4)" by fastforce
  obtain r5 e5 where s5: "crt_set_nonblock P th f e4 = (r5, e5)" by fastforce
  note o1 = os_only_sys [OF s1]
  note o2 = os_only_trans [OF o1 os_only_sys [OF s2]]
  note o3 = os_only_trans [OF o2 os_only_sys [OF s3]]
  note o4 = os_only_trans [OF o3 os_only_sys [OF s4]]
  note o5 = os_only_trans [OF o4 os_only_nonblock [OF s5]]
  let ?A = "opened (world e) - {f}"
  have A: "f \<notin> ?A" by simp
  have v1: "opened (world e1) = (if f < 0 then opened (world e) else insert f ?A)" "f \<ge> 0 \<Longrightarrow> f \<notin> opened (world e)"
    using view_socket [OF assms(1) s1] by (auto split: if_splits)
  have v2: "opened (world e2) = opened (world e1)" by (rule view_sys [OF s2]) (use assms(1) in \<open>simp add: socket_view_def\<close>)
  have v3: "opened (world e3) = opened (world e2)" by (rule view_sys [OF s3]) (use assms(1) in \<open>simp add: socket_view_def\<close>)
  have v4: "opened (world e4) = opened (world e3)" by (rule view_sys [OF s4]) (use assms(1) in \<open>simp add: socket_view_def\<close>)
  have v5: "opened (world e5) = opened (world e4)" by (rule view_nonblock [OF assms(1) s5])
  have calls: "fd = f" "calls = [(f < 0, CRT_ERR_SOCKET, e1), (r2 \<noteq> 0, CRT_ERR_SETSOCKOPT, e2), (r3 < 0, CRT_ERR_BIND, e3),
      (r4 < 0, CRT_ERR_LISTEN, e4), (r5 \<noteq> 0, CRT_ERR_SET_NONBLOCK, e5)]"
    using assms(2) by (auto simp: prepare_calls_def s1 s2 s3 s4 s5)
  note eq = crt_tcp_prepare_sock_def s1 s2 s3 s4 s5
  show ?thesis
  proof (cases "f < 0")
    case True
    have x: "crt_tcp_prepare_sock P th ip port e = prepare_exception P th f CRT_ERR_SOCKET e1" using True by (simp add: eq)
    from True prepare_exception_ok [OF o1 assms(1), of f "opened (world e)" th CRT_ERR_SOCKET] v1(1) show ?thesis unfolding calls x by simp
  next
    case False
    then have f: "f \<notin> opened (world e)" "opened (world e1) = insert f (opened (world e))" using v1 by auto
    note x = prepare_exception_ok [OF _ assms(1), of e _ f "opened (world e)" th]
    consider "r2 \<noteq> 0" | "r2 = 0" "r3 < 0" | "r2 = 0" "\<not> r3 < 0" "r4 < 0" | "r2 = 0" "\<not> r3 < 0" "\<not> r4 < 0" "r5 \<noteq> 0"
      | "r2 = 0" "\<not> r3 < 0" "\<not> r4 < 0" "r5 = 0" by blast
    then show ?thesis
    proof cases
      case 1
      then have y: "crt_tcp_prepare_sock P th ip port e = prepare_exception P th f CRT_ERR_SETSOCKOPT e2" using False by (simp add: eq)
      from 1 False x [OF o2, of CRT_ERR_SETSOCKOPT] f v2 show ?thesis unfolding calls y by simp
    next
      case 2
      then have y: "crt_tcp_prepare_sock P th ip port e = prepare_exception P th f CRT_ERR_BIND e3" using False by (simp add: eq)
      from 2 False x [OF o3, of CRT_ERR_BIND] f v2 v3 show ?thesis unfolding calls y by simp
    next
      case 3
      then have y: "crt_tcp_prepare_sock P th ip port e = prepare_exception P th f CRT_ERR_LISTEN e4" using False by (simp add: eq)
      from 3 False x [OF o4, of CRT_ERR_LISTEN] f v2 v3 v4 show ?thesis unfolding calls y by simp
    next
      case 4
      then have y: "crt_tcp_prepare_sock P th ip port e = prepare_exception P th f CRT_ERR_SET_NONBLOCK e5" using False by (simp add: eq)
      from 4 False x [OF o5, of CRT_ERR_SET_NONBLOCK] f v2 v3 v4 v5 show ?thesis unfolding calls y by simp
    next
      case 5 with False f v2 v3 v4 v5 os_only_fields(1) [OF o5] show ?thesis by (simp add: calls eq)
    qed
  qed
qed

text \<open>A kernel whose \<open>bind\<close> fails with \<open>EADDRINUSE\<close>; its world is the set of open descriptors.\<close>

definition ex_bind_fails :: "int set posix" where
  "ex_bind_fails =
     \<lparr>sys_open = (\<lambda>p f m en w. (-1, en, w)), sys_read = (\<lambda>fd b n en w. (0, en, w)),
      sys_write = (\<lambda>fd b n en w. (0, en, w)), sys_close = (\<lambda>fd en w. (0, en, w - {fd})),
      sys_socket = (\<lambda>en w. if 5 \<in> w then (-1, 24, w) else (5, en, insert 5 w)), sys_reuseaddr = (\<lambda>fd en w. (0, en, w)),
      sys_connect = (\<lambda>fd ip port en w. (-1, en, w)), sys_so_error = (\<lambda>fd en w. ((0, 0), en, w)),
      sys_accept = (\<lambda>fd ad len en w. (-1, en, w)), sys_bind = (\<lambda>fd ip port en w. (-1, 98, w)),
      sys_listen = (\<lambda>fd k en w. (0, en, w)), sys_pipe = (\<lambda>en w. (None, en, w)),
      sys_getfl = (\<lambda>fd en w. (0, en, w)), sys_setfl = (\<lambda>fd fl en w. (0, en, w)),
      sys_bg = (\<lambda>f x res en w. (0, en, w))\<rparr>"

theorem prepare_sock_result_witness:
  "\<exists>e'. crt_tcp_prepare_sock ex_bind_fails Manager 0 80
       ((env_zero 2 (\<lambda>_. 0) {0, 1})\<lparr>tasks := (\<lambda>_. None)(1 \<mapsto> ex_task), curr_task_ptr := Some 1\<rparr>) = Inr (CRT_ERR_BIND, e') \<and>
     world e' = {0, 1} \<and> tasks e' = (\<lambda>_. None)(1 \<mapsto> ex_task\<lparr>ret_err_code := Some 98\<rparr>)"
proof -
  let ?e = "(env_zero 2 (\<lambda>_. 0) {0, 1 :: int})\<lparr>tasks := (\<lambda>_. None)(1 \<mapsto> ex_task), curr_task_ptr := Some 1\<rparr>"
  have v: "socket_view (\<lambda>w. w) ex_bind_fails" by (auto simp: socket_view_def ex_bind_fails_def)
  obtain fd calls where c: "prepare_calls ex_bind_fails Manager 0 80 ?e = (fd, calls)" by fastforce
  have f: "find fst calls = Some (True, CRT_ERR_BIND, ?e\<lparr>errno := (\<lambda>_. 0)(Manager := 98), world := {0, 1, 5}\<rparr>)"
    using c by (auto simp: prepare_calls_def sys_def ex_bind_fails_def env_zero_def crt_set_nonblock_def fun_upd_idem insert_commute)
  from prepare_sock_result [OF v c] show ?thesis by (simp add: f env_zero_def)
qed

end
