(* ===== verification/Acoro_Client.thy ===== *)
theory Acoro_Client
  imports Acoro_Calls
begin

text \<open>
  What programs that use the library have in common: runs of a machine whose steps can fault, loops
  that create coroutines, and the passes of the manager over the coroutines of a program. The programs under \<^verbatim>\<open>src/example\<close> are built on this theory.
\<close>

section \<open>Runs\<close>

text \<open>The steps of a machine that can fault, one for every event, with the outputs of all of them.\<close>

fun run_steps :: "('ev \<Rightarrow> 's \<Rightarrow> ('s \<times> 'o list) res) \<Rightarrow> 'ev list \<Rightarrow> 's \<Rightarrow> ('s \<times> 'o list) res" where
  "run_steps step [] s = Inr (s, [])"
| "run_steps step (ev # evs) s =
     bind_res (step ev s) (\<lambda>(s1, os). bind_res (run_steps step evs s1) (\<lambda>(s2, os'). Inr (s2, os @ os')))"

lemma run_steps_append: "run_steps step (xs @ ys) s =
    bind_res (run_steps step xs s) (\<lambda>(s1, os). bind_res (run_steps step ys s1) (\<lambda>(s2, os'). Inr (s2, os @ os')))"
proof (induction xs arbitrary: s)
  case Nil
  show ?case by (cases "run_steps step ys s") auto
next
  case (Cons x xs)
  show ?case by (cases "step x s") (auto simp: Cons.IH bind_res_def split: sum.splits)
qed

text \<open>A machine with an invariant of its states, and events after which it cannot have faulted.\<close>

locale fallible_machine =
  fixes step :: "'ev \<Rightarrow> 's \<Rightarrow> ('s \<times> 'o list) res"
    and inv :: "'s \<Rightarrow> bool"
    and safe :: "'ev \<Rightarrow> 's \<Rightarrow> bool"
  assumes inv_step: "inv s \<Longrightarrow> step ev s = Inr (s', os) \<Longrightarrow> inv s'"
    and safe_step: "inv s \<Longrightarrow> safe ev s \<Longrightarrow> \<exists>s' os. step ev s = Inr (s', os)"
begin

lemma run_inv: "inv s \<Longrightarrow> run_steps step evs s = Inr (s', os) \<Longrightarrow> inv s'"
proof (induction evs arbitrary: s os)
  case Nil
  then show ?case by simp
next
  case (Cons ev evs)
  from Cons.prems(2) obtain s1 o1 o2 where "step ev s = Inr (s1, o1)" "run_steps step evs s1 = Inr (s', o2)"
    by (auto simp: bind_res_Inr_iff)
  with Cons.IH inv_step [OF Cons.prems(1)] show ?case by blast
qed

text \<open>The first fault of a run comes at an event that was not safe, in a state with the invariant.\<close>

lemma run_fault:
  "inv s \<Longrightarrow> run_steps step evs s = Inl f \<Longrightarrow>
    \<exists>us ev vs s1 os. evs = us @ ev # vs \<and> run_steps step us s = Inr (s1, os) \<and> inv s1 \<and> \<not> safe ev s1 \<and> step ev s1 = Inl f"
proof (induction evs arbitrary: s)
  case Nil
  then show ?case by simp
next
  case (Cons ev evs)
  show ?case
  proof (cases "step ev s")
    case (Inl g)
    with Cons.prems safe_step [OF Cons.prems(1), of ev] show ?thesis
      by (intro exI [of _ "[]"] exI [of _ ev] exI [of _ evs] exI [of _ s] exI [of _ "[]"]) auto
  next
    case (Inr so)
    obtain s1 o1 where s1: "step ev s = Inr (s1, o1)" using Inr by (cases so) simp
    with Cons.prems(2) have "run_steps step evs s1 = Inl f" by (auto simp: bind_res_Inl_iff)
    from Cons.IH [OF inv_step [OF Cons.prems(1) s1] this] obtain us ev' vs s2 os where
      "evs = us @ ev' # vs" "run_steps step us s1 = Inr (s2, os)" "inv s2" "\<not> safe ev' s2" "step ev' s2 = Inl f" by blast
    with s1 show ?thesis
      by (intro exI [of _ "ev # us"] exI [of _ ev'] exI [of _ vs] exI [of _ s2] exI [of _ "o1 @ os"]) auto
  qed
qed

end

section \<open>Creating coroutines in a loop\<close>

text \<open>\<open>crt_create\<close> for each of a list of arguments, with the memory each call gets.\<close>

fun create_each ::
  "u64 option \<Rightarrow> uptr \<Rightarrow> (uptr \<times> (addr \<times> task) option) list \<Rightarrow> 'w coroutine_env_s \<Rightarrow> 'w coroutine_env_s res" where
  "create_each attr f [] e = Inr e"
| "create_each attr f ((x, mem) # ms) e = bind_res (crt_create mem attr f x e) (\<lambda>(_, e1). create_each attr f ms e1)"

text \<open>A task that will enter the routine \<open>f\<close> with argument \<open>x\<close>.\<close>

definition enters :: "u64 \<Rightarrow> uptr \<Rightarrow> uptr \<Rightarrow> task option \<Rightarrow> bool" where
  "enters sz f x t \<longleftrightarrow> (\<exists>t'. t = Some t' \<and> action t' = act_new_coroutine \<and> args t' = Init_arg \<lparr>func = f, stack_size = sz, func_arg = x\<rparr>)"

definition attr_size :: "u64 option \<Rightarrow> u64" where
  "attr_size attr = (case attr of None \<Rightarrow> COROUTINE_STACK_SIZE | Some s \<Rightarrow> if s \<noteq> 0 then s else COROUTINE_STACK_SIZE)"

section \<open>The passes of the manager\<close>

text \<open>
  A program: the environment and what its coroutines share. \<open>run a c\<close> is what the coroutine of task \<open>a\<close>
  does when the manager switches to it, until it switches back; \<open>c\<close> is the routine and the argument
  \<open>call_wrapper\<close> calls, or \<open>None\<close> if the coroutine is resumed.
\<close>

record 'w client =
  cl_env :: "'w coroutine_env_s"

definition manager_pass ::
  "(addr \<Rightarrow> (uptr \<times> uptr) option \<Rightarrow> ('w, 'z) client_scheme \<Rightarrow> ('w, 'z) client_scheme res) \<Rightarrow> addr \<Rightarrow>
   ('w, 'z) client_scheme \<Rightarrow> ('w, 'z) client_scheme res option" where
  "manager_pass run sp p =
     (case sem_wait_manager (cl_env p) of
        None \<Rightarrow> None
      | Some e1 \<Rightarrow> Some (
          bind_res (manager_take e1) (\<lambda>(a, e2).
          bind_res (manager_switch sp a e2) (\<lambda>(b, e3).
            let p3 = p\<lparr>cl_env := e3\<rparr> in
            if \<not> b then Inr p3
            else
              bind_res (get_task a e3) (\<lambda>t.
              bind_res (context_entry (task_context t)) (\<lambda>c.
              bind_res (run a c p3) (\<lambda>p4.
              bind_res (manager_back a (cl_env p4)) (\<lambda>e5. Inr (p4\<lparr>cl_env := e5\<rparr>)))))))))"

text \<open>The first passes of the manager; \<open>sp n\<close> is the stack it would allocate in pass \<open>n\<close>.\<close>

primrec manager_passes ::
  "(addr \<Rightarrow> (uptr \<times> uptr) option \<Rightarrow> ('w, 'z) client_scheme \<Rightarrow> ('w, 'z) client_scheme res) \<Rightarrow> (nat \<Rightarrow> addr) \<Rightarrow> nat \<Rightarrow>
   ('w, 'z) client_scheme \<Rightarrow> ('w, 'z) client_scheme res option" where
  "manager_passes run sp 0 p = Some (Inr p)"
| "manager_passes run sp (Suc n) p =
     (case manager_passes run sp n p of
        Some (Inr p1) \<Rightarrow> manager_pass run (sp n) p1
      | r \<Rightarrow> r)"

section \<open>What the calls do to the schedule\<close>

text \<open>The todo queue and the semaphore of the manager that counts it.\<close>

definition sched :: "'w coroutine_env_s \<Rightarrow> addr list \<Rightarrow> bool" where
  "sched e xs \<longleftrightarrow> queue_of e (todo_queue e) xs \<and> manager_sem e = length xs"

lemma sched_upd: "sched e xs \<Longrightarrow> nxt e' = nxt e \<Longrightarrow> todo_queue e' = todo_queue e \<Longrightarrow> manager_sem e' = manager_sem e \<Longrightarrow>
    queue_heads e' = queue_heads e \<Longrightarrow> (\<And>x. x \<in> set xs \<Longrightarrow> tasks e' x \<noteq> None) \<Longrightarrow> sched e' xs"
  by (auto simp: sched_def queue_of_def live_def)

text \<open>What the todo side leaves alone: the doing queue, the pipes and the turn of the workers.\<close>

definition same_doing :: "'w coroutine_env_s \<Rightarrow> 'w coroutine_env_s \<Rightarrow> bool" where
  "same_doing e e' \<longleftrightarrow> doing_queue e' = doing_queue e \<and> pipe_channel e' = pipe_channel e \<and>
     bg_worker_id e' = bg_worker_id e \<and> background_worker_count e' = background_worker_count e"

lemma take_sched:
  assumes "sched e (a # xs)"
  shows "\<exists>e1 e2. sem_wait_manager e = Some e1 \<and> manager_take e1 = Inr (a, e2) \<and> sched e2 xs \<and>
    tasks e2 = tasks e \<and> stacks e2 = stacks e \<and> ran e2 = ran e \<and> cid e2 = cid e \<and>
    same_doing e e2 \<and> world e2 = world e"
proof -
  let ?e1 = "e\<lparr>manager_sem := length xs\<rparr>"
  have r: "stailq_rep (nxt e) (todo_queue e) (a # xs)" and l: "live e a" using assms by (auto simp: sched_def queue_of_def)
  from stq.rep_shift_Cons [OF r] obtain h where
    h: "list_shift (nxt e) (todo_queue e) = Inr (Some a, h)" "stailq_rep (nxt e) h xs" by blast
  have f: "STAILQ_FIRST (todo_queue e) = Some a" using rep_first [OF r] by simp
  have "manager_take ?e1 = Inr (a, ?e1\<lparr>todo_queue := h\<rparr>)"
    using h(1) f l assms by (simp add: manager_take_def Shift_todo_def queue_shift_def deref_def live_def sched_def queue_of_def)
  moreover have "sem_wait_manager e = Some ?e1" using assms by (simp add: sem_wait_manager_def sched_def)
  moreover have "sched (?e1\<lparr>todo_queue := h\<rparr>) xs" using assms h(2) by (auto simp: sched_def queue_of_def live_def)
  ultimately show ?thesis by (intro exI [of _ ?e1] exI [of _ "?e1\<lparr>todo_queue := h\<rparr>"]) (simp add: same_doing_def)
qed

text \<open>What the manager and the library leave alone while a coroutine runs.\<close>

definition kept :: "'w coroutine_env_s \<Rightarrow> 'w coroutine_env_s \<Rightarrow> bool" where
  "kept e e' \<longleftrightarrow> stacks e' = stacks e \<and> ran e' = ran e \<and> curr_task_ptr e' = curr_task_ptr e \<and>
     errno e' = errno e \<and> world e' = world e \<and> same_doing e e'"

lemma post_waiting:
  assumes "sched e xs" and "sem_task_ptr s = Some a" and "tasks e a = Some t" and "a \<notin> set xs"
  shows "\<exists>e1. crt_sem_post s e = Inr (s\<lparr>sem_value := to_int (sem_value s + 1)\<rparr>, e1) \<and> sched e1 (xs @ [a]) \<and>
    tasks e1 = (tasks e)(a \<mapsto> t\<lparr>action := act_sem_activation\<rparr>) \<and> kept e e1"
proof -
  let ?e = "e\<lparr>tasks := (tasks e)(a \<mapsto> t\<lparr>action := act_sem_activation\<rparr>)\<rparr>"
  have q: "queue_of ?e (todo_queue ?e) xs" "live ?e a" using assms(1) by (auto simp: sched_def queue_of_def live_def)
  from push_todo_rep [OF q assms(4)] obtain nx h where
    h: "Push_todo a ?e = Inr (?e\<lparr>nxt := nx, todo_queue := h\<rparr>)" "stailq_rep nx h (xs @ [a])" by blast
  have "crt_sem_post s e = Inr (s\<lparr>sem_value := to_int (sem_value s + 1)\<rparr>, sem_post_manager (?e\<lparr>nxt := nx, todo_queue := h\<rparr>))"
    using assms(2,3) h(1) by (simp add: crt_sem_post_def upd_task_def)
  moreover have "sched (sem_post_manager (?e\<lparr>nxt := nx, todo_queue := h\<rparr>)) (xs @ [a])"
    using assms(1) h(2) by (auto simp: sched_def queue_of_def live_def sem_post_manager_def)
  ultimately show ?thesis by (intro exI [of _ "sem_post_manager (?e\<lparr>nxt := nx, todo_queue := h\<rparr>)"])
    (simp add: sem_post_manager_def kept_def same_doing_def)
qed

lemma post_free: "sem_task_ptr s = None \<Longrightarrow> crt_sem_post s e = Inr (s\<lparr>sem_value := to_int (sem_value s + 1)\<rparr>, e)"
  by (simp add: crt_sem_post_def)

lemma wait_passes: "0 < sem_value s \<Longrightarrow> crt_sem_wait s e = Inr (True, s\<lparr>sem_task_ptr := None, sem_value := sem_value s - 1\<rparr>, e)"
  by (simp add: crt_sem_wait_def)

lemma wait_suspends:
  assumes "sem_value s = 0" and "curr_task_ptr e = Some a" and "tasks e a = Some t"
  shows "crt_sem_wait s e = Inr (False, s\<lparr>sem_task_ptr := Some a\<rparr>, e\<lparr>tasks := (tasks e)(a \<mapsto> t\<lparr>task_context := Ctx_saved\<rparr>)\<rparr>)"
  using assms by (simp add: crt_sem_wait_def swap_out_def upd_curr_def get_curr_def deref_def upd_task_def)

lemma create_sched:
  assumes "sched e xs" and "tasks e a = None"
  shows "\<exists>e1 t. crt_create (Some (a, junk)) attr br x e = Inr (cid e + 1, e1) \<and> sched e1 (xs @ [a]) \<and>
    tasks e1 = (tasks e)(a \<mapsto> t) \<and> enters (attr_size attr) br x (Some t) \<and> kept e e1"
proof -
  let ?t = "junk\<lparr>ret_val := None, ret_err_code := None, task_context := Ctx_none, stack_ptr := None,
     action := act_new_coroutine, args := Init_arg \<lparr>func = br, stack_size = attr_size attr, func_arg = x\<rparr>\<rparr>"
  let ?e = "e\<lparr>cid := cid e + 1, tasks := (tasks e)(a \<mapsto> ?t)\<rparr>"
  have a: "a \<notin> set xs" using assms by (auto simp: sched_def queue_of_def live_def)
  have q: "queue_of ?e (todo_queue ?e) xs" using assms(1) by (auto simp: sched_def queue_of_def live_def)
  from push_todo_rep [OF q _ a] obtain nx h where
    h: "Push_todo a ?e = Inr (?e\<lparr>nxt := nx, todo_queue := h\<rparr>)" "stailq_rep nx h (xs @ [a])" by (auto simp: live_def)
  let ?e1 = "sem_post_manager (?e\<lparr>nxt := nx, todo_queue := h\<rparr>)"
  have "crt_create (Some (a, junk)) attr br x e = Inr (cid e + 1, ?e1)"
    using h(1) by (simp add: crt_create_def create_push_def attr_size_def Let_def)
  moreover have "sched ?e1 (xs @ [a])" using assms(1) h(2) by (auto simp: sched_def queue_of_def live_def sem_post_manager_def)
  ultimately show ?thesis by (intro exI [of _ ?e1] exI [of _ ?t]) (simp add: sem_post_manager_def kept_def same_doing_def enters_def)
qed

lemma create_all:
  assumes "sched e xs" and "distinct (map fst ms)" and "\<And>a. a \<in> fst ` set ms \<Longrightarrow> tasks e a = None" and "length us = length ms"
  shows "\<exists>e1. create_each attr f (zip us (map Some ms)) e = Inr e1 \<and> sched e1 (xs @ map fst ms) \<and> kept e e1 \<and>
    (\<forall>a. a \<notin> fst ` set ms \<longrightarrow> tasks e1 a = tasks e a) \<and>
    list_all2 (\<lambda>x (a, _). enters (attr_size attr) f x (tasks e1 a)) us ms"
  using assms
proof (induction ms arbitrary: e xs us)
  case Nil
  then show ?case by (simp add: kept_def same_doing_def)
next
  case (Cons m ms)
  obtain a junk where m: "m = (a, junk)" by (cases m)
  from Cons.prems(4) obtain u us' where us: "us = u # us'" "length us' = length ms" by (cases us) auto
  have "tasks e a = None" using Cons.prems(3) m by simp
  from create_sched [OF Cons.prems(1) this, of junk attr f u] obtain e1 t where
    e1: "crt_create (Some (a, junk)) attr f u e = Inr (cid e + 1, e1)" "sched e1 (xs @ [a])" "tasks e1 = (tasks e)(a \<mapsto> t)"
      "enters (attr_size attr) f u (Some t)" "kept e e1" by blast
  have fresh: "tasks e1 b = None" if "b \<in> fst ` set ms" for b using that Cons.prems(2,3) m e1(3) by auto
  have "distinct (map fst ms)" using Cons.prems(2) by simp
  from Cons.IH [OF e1(2) this fresh us(2)] obtain e2 where
    e2: "create_each attr f (zip us' (map Some ms)) e1 = Inr e2" "sched e2 ((xs @ [a]) @ map fst ms)" "kept e1 e2"
      "\<forall>b. b \<notin> fst ` set ms \<longrightarrow> tasks e2 b = tasks e1 b"
      "list_all2 (\<lambda>x (a, _). enters (attr_size attr) f x (tasks e2 a)) us' ms" by blast
  have "tasks e2 a = Some t" using e2(4) e1(3) Cons.prems(2) m by (simp add: image_iff)
  with e1 e2 m us(1) show ?case by (intro exI [of _ e2]) (auto simp: kept_def same_doing_def)
qed

lemma exit_back:
  assumes "sched e xs" and "curr_task_ptr e = Some a" and "tasks e a = Some t" and "stack_ptr t = Some sp" and "a \<notin> set xs"
  shows "\<exists>e1 e2. crt_exit e = Inr e1 \<and> manager_back a e1 = Inr e2 \<and> sched e2 xs \<and> tasks e2 = (tasks e)(a := None) \<and>
    stacks e2 = stacks e - {sp} \<and> ran e2 = ran e + 1 \<and> same_doing e e2"
proof -
  let ?e1 = "e\<lparr>tasks := (tasks e)(a \<mapsto> t\<lparr>action := act_finished_coroutine\<rparr>)\<rparr>"
  let ?e2 = "?e1\<lparr>stacks := stacks e - {sp}, tasks := (tasks e)(a := None), ran := ran e + 1\<rparr>"
  have "crt_exit e = Inr ?e1" "manager_back a ?e1 = Inr ?e2"
    using assms(2-4) by (simp_all add: crt_exit_def coroutine_set_finished_coroutine_def upd_curr_def get_curr_def deref_def
        upd_task_def manager_back_def get_task_def finish_coroutine_def the_init_def)
  moreover have "sched ?e2 xs" by (rule sched_upd [OF assms(1)]) (use assms(1,5) in \<open>auto simp: sched_def queue_of_def live_def\<close>)
  ultimately show ?thesis by (intro exI [of _ ?e1] exI [of _ ?e2]) (simp add: same_doing_def)
qed

lemma back_waiting: "tasks e a = Some t \<Longrightarrow> action t \<noteq> act_finished_coroutine \<Longrightarrow> manager_back a e = Inr e"
  by (simp add: manager_back_def get_task_def)

section \<open>A request and its result\<close>

text \<open>
  What happens to a coroutine that has called for a background worker in an environment with no other
  work: it switches back to the manager, which waits; worker \<open>i\<close> handles the byte in its pipe; the
  manager wakes up, takes the task and switches to it, and the coroutine goes on where it left.
\<close>

definition served :: "'w posix \<Rightarrow> nat \<Rightarrow> addr \<Rightarrow> addr \<Rightarrow> 'w coroutine_env_s \<Rightarrow> 'w coroutine_env_s \<Rightarrow> bool" where
  "served P i sp a e e' \<longleftrightarrow> (\<exists>e1 e2 e3 e4.
     manager_back a e = Inr e1 \<and> sem_wait_manager e1 = None \<and>
     new_event_handler P i EV_READ e1 = Inr e2 \<and>
     sem_wait_manager e2 = Some e3 \<and> manager_take e3 = Inr (a, e4) \<and> manager_switch sp a e4 = Inr (True, e') \<and>
     bind_res (get_task a e') (\<lambda>t. context_entry (task_context t)) = Inr None)"

lemma rep_Nil_iff: "stailq_rep nx q [] \<longleftrightarrow> stailq_rep nx' q []"
  by (simp add: stailq_rep_def)

text \<open>A worker that finishes the request it takes hands the coroutine back to the manager.\<close>

lemma worker_hands_back:
  assumes s: "sched e []" and t: "tasks e a = Some t" and d: "stailq_rep (nxt e) (doing_queue e) [a]" and p: "pipe_channel e i = [0xee]"
    and k: "\<And>q e0. stailq_rep (nxt e) q [] \<Longrightarrow> e0 = e\<lparr>pipe_channel := (pipe_channel e)(i := []), doing_queue := q\<rparr> \<Longrightarrow>
      do_task P i a e0 = Inr (0, e0\<lparr>errno := en, world := w, tasks := (tasks e)(a \<mapsto> t')\<rparr>)"
  shows "\<exists>e'. new_event_handler P i EV_READ e = Inr e' \<and> sched e' [a] \<and> tasks e' = (tasks e)(a \<mapsto> t') \<and>
    queue_of e' (doing_queue e') [] \<and> pipe_channel e' = (pipe_channel e)(i := []) \<and> stacks e' = stacks e \<and> ran e' = ran e \<and> world e' = w"
proof -
  let ?e1 = "e\<lparr>pipe_channel := (pipe_channel e)(i := [])\<rparr>"
  have u: "queue_heads e = UNIV" using s by (simp add: sched_def queue_of_def)
  have b: "event_byte i e = Inr ?e1" using p by (simp add: event_byte_def pipe_read_def)
  from stq.rep_shift_Cons [OF d] obtain h where
    h: "list_shift (nxt e) (doing_queue e) = Inr (Some a, h)" "stailq_rep (nxt e) h []" by blast
  let ?e2 = "?e1\<lparr>doing_queue := h\<rparr>"
  have tk: "event_take ?e1 = Inr (a, ?e2)"
    using h(1) rep_first [OF d] t u by (simp add: event_take_def Shift_doing_def queue_shift_def deref_def live_def)
  let ?e3 = "?e2\<lparr>errno := en, world := w, tasks := (tasks e)(a \<mapsto> t')\<rparr>"
  have dt: "do_task P i a ?e2 = Inr (0, ?e3)" using k [OF h(2), of ?e2] by simp
  have q: "queue_of ?e3 (todo_queue ?e3) []" "live ?e3 a" using s by (simp_all add: sched_def queue_of_def live_def)
  from push_todo_rep [OF q] obtain nx g where
    g: "Push_todo a ?e3 = Inr (?e3\<lparr>nxt := nx, todo_queue := g\<rparr>)" "stailq_rep nx g [a]" by auto
  let ?e4 = "sem_post_manager (?e3\<lparr>nxt := nx, todo_queue := g\<rparr>)"
  have "new_event_handler P i EV_READ e = Inr ?e4"
    using b tk dt g(1) by (simp add: new_event_handler_def event_run_def coroutine_notify_manager_def)
  moreover have "sched ?e4 [a]" using s g(2) by (simp add: sched_def queue_of_def live_def sem_post_manager_def)
  moreover have "queue_of ?e4 (doing_queue ?e4) []"
    using h(2) u rep_Nil_iff [of nx h "nxt e"] by (simp add: queue_of_def sem_post_manager_def)
  ultimately show ?thesis by (intro exI [of _ ?e4]) (simp add: sem_post_manager_def)
qed

text \<open>The round of a disk request: queued for the worker whose turn it is, served, resumed.\<close>

lemma disk_round:
  assumes s: "sched e []" and c: "curr_task_ptr e = Some a" "tasks e a = Some t"
    and d: "queue_of e (doing_queue e) []" and i: "next_worker e = i" "pipe_channel e i = []"
    and io: "io (errno e (Worker i)) (world e) = (r, en, w)"
    and act: "act \<noteq> act_finished_coroutine" "dn \<in> {act_disk_read_done, act_disk_write_done}"
    and k: "\<And>e0 t0 ms. tasks e0 a = Some t0 \<Longrightarrow> action t0 = act \<Longrightarrow>
      args t0 = Io_arg \<lparr>timeout_ms = ms, io_fd = fd, io_buf = ubuf, io_count = cnt\<rparr> \<Longrightarrow>
      do_task P i a e0 = map_sum id (Pair 0) (case sys (Worker i) io e0 of (v, e1) \<Rightarrow>
        set_ret a v (if v \<ge> 0 then 0 else errno e1 (Worker i)) dn e1)"
  shows "\<exists>e1 e2. crt_wait (set_disk_io act fd ubuf cnt) e = Inr e1 \<and> stailq_rep (nxt e1) (doing_queue e1) [a] \<and>
    served P i sp a e1 e2 \<and> sched e2 [] \<and> queue_of e2 (doing_queue e2) [] \<and> pipe_channel e2 = pipe_channel e \<and>
    curr_task_ptr e2 = Some a \<and> coroutine_get_retval e2 = Inr (to_int r) \<and>
    crt_get_err_code e2 = Inr (if r \<ge> 0 then 0 else en) \<and> world e2 = w"
proof -
  let ?t = "t\<lparr>action := act, args := Io_arg \<lparr>timeout_ms = io_timeout (args t), io_fd = fd, io_buf = ubuf, io_count = cnt\<rparr>\<rparr>"
  have rq: "set_disk_io act fd ubuf cnt e = Inr (e\<lparr>tasks := (tasks e)(a \<mapsto> ?t)\<rparr>)"
    using c by (simp add: set_disk_io_def upd_curr_def get_curr_def deref_def upd_task_def)
  from crt_wait_ok [where request = "set_disk_io act fd ubuf cnt" and t' = ?t, OF c d _ _ rq] i obtain nx q where
    w: "crt_wait (set_disk_io act fd ubuf cnt) e = Inr (e\<lparr>tasks := (tasks e)(a \<mapsto> ?t\<lparr>task_context := Ctx_saved\<rparr>), nxt := nx,
      doing_queue := q, bg_worker_id := bg_worker_id e + 1, pipe_channel := (pipe_channel e)(i := [0xee])\<rparr>)" "stailq_rep nx q [a]"
    by (auto simp: PIPE_CAPACITY_def)
  let ?t1 = "?t\<lparr>task_context := Ctx_saved\<rparr>"
  let ?e1 = "e\<lparr>tasks := (tasks e)(a \<mapsto> ?t1), nxt := nx, doing_queue := q, bg_worker_id := bg_worker_id e + 1,
    pipe_channel := (pipe_channel e)(i := [0xee])\<rparr>"
  let ?t2 = "?t1\<lparr>ret_val := Some r, ret_err_code := Some (if r \<ge> 0 then 0 else en), action := dn\<rparr>"
  have s1: "sched ?e1 []" using s rep_Nil_iff [of nx "todo_queue e" "nxt e"] by (simp add: sched_def queue_of_def)
  have "\<exists>e'. new_event_handler P i EV_READ ?e1 = Inr e' \<and> sched e' [a] \<and> tasks e' = (tasks ?e1)(a \<mapsto> ?t2) \<and>
    queue_of e' (doing_queue e') [] \<and> pipe_channel e' = (pipe_channel ?e1)(i := []) \<and> stacks e' = stacks ?e1 \<and> ran e' = ran ?e1 \<and> world e' = w"
  proof (rule worker_hands_back [OF s1, where t = ?t1 and en = "(errno e)(Worker i := en)"])
    fix q' e0 assume "e0 = ?e1\<lparr>pipe_channel := (pipe_channel ?e1)(i := []), doing_queue := q'\<rparr>"
    then show "do_task P i a e0 = Inr (0, e0\<lparr>errno := (errno e)(Worker i := en), world := w, tasks := (tasks ?e1)(a \<mapsto> ?t2)\<rparr>)"
      using k [of e0 ?t1 "io_timeout (args t)"] io by (simp add: sys_def set_ret_def upd_task_def)
  qed (use w(2) in simp_all)
  then obtain f where f: "new_event_handler P i EV_READ ?e1 = Inr f" "sched f [a]" "tasks f = (tasks ?e1)(a \<mapsto> ?t2)"
    "queue_of f (doing_queue f) []" "pipe_channel f = (pipe_channel ?e1)(i := [])" "world f = w" by blast
  from take_sched [OF f(2)] obtain g g' where
    g: "sem_wait_manager f = Some g" "manager_take g = Inr (a, g')" "sched g' []" "tasks g' = tasks f" "same_doing f g'" "world g' = world f"
    by blast
  let ?g = "g'\<lparr>curr_task_ptr := Some a\<rparr>"
  have t2: "tasks g' a = Some ?t2" using g(4) f(3) by simp
  have "manager_back a ?e1 = Inr ?e1" using act(1) by (simp add: manager_back_def get_task_def)
  moreover have "sem_wait_manager ?e1 = None" using s by (simp add: sem_wait_manager_def sched_def)
  moreover have "manager_switch sp a g' = Inr (True, ?g)" using t2 act(2) by (auto simp: manager_switch_def get_task_def)
  moreover have "bind_res (get_task a ?g) (\<lambda>t. context_entry (task_context t)) = Inr None"
    using t2 by (simp add: get_task_def context_entry_def)
  ultimately have "served P i sp a ?e1 ?g" unfolding served_def using f(1) g(1,2) by blast
  moreover have "sched ?g []" using g(3) by (simp add: sched_def queue_of_def)
  moreover have "queue_of ?g (doing_queue ?g) []"
    using f(4) g(3,5) rep_Nil_iff [of "nxt g'" "doing_queue f" "nxt f"] by (simp add: queue_of_def same_doing_def sched_def)
  moreover have "pipe_channel ?g = pipe_channel e" using g(5) f(5) i(2) by (auto simp: same_doing_def)
  moreover have "coroutine_get_retval ?g = Inr (to_int r)" "crt_get_err_code ?g = Inr (if r \<ge> 0 then 0 else en)"
    using t2 by (simp_all add: coroutine_get_retval_def crt_get_err_code_def get_curr_def deref_def get_task_def the_init_def)
  ultimately show ?thesis using w g(6) f(6) by (intro exI [of _ ?e1] exI [of _ ?g]) simp
qed

text \<open>
  (C12) A disk read or write by a coroutine gives what the system call gives, from the call to its return:
  in an environment with no other work the call queues the coroutine and wakes the worker whose turn it is; the
  manager waits; that worker takes the request and makes the call \<open>read\<close> or \<open>write\<close>, as was asked, once, on the
  descriptor, buffer and length the coroutine passed; the manager wakes up and resumes the coroutine. There
  \<open>coroutine_get_retval\<close>, which is what the call returns, is the result of the system call converted to
  \<open>int\<close>, and \<open>crt_errno\<close> is 0 or the call's \<open>errno\<close>; queues and pipes are empty again.
\<close>

theorem disk_io_end_to_end:
  assumes "curr_task_ptr e = Some a" and "tasks e a = Some t" and "queue_of e (todo_queue e) []" and "manager_sem e = 0"
    and "queue_of e (doing_queue e) []" and "next_worker e = i" and "pipe_channel e i = []"
  shows "(sys_read P fd ubuf cnt (errno e (Worker i)) (world e) = (r, en, w) \<longrightarrow>
      (\<exists>e1 e2. crt_disk_read fd ubuf cnt e = Inr e1 \<and> stailq_rep (nxt e1) (doing_queue e1) [a] \<and>
        served P i sp a e1 e2 \<and> sched e2 [] \<and> queue_of e2 (doing_queue e2) [] \<and> pipe_channel e2 = pipe_channel e \<and>
        curr_task_ptr e2 = Some a \<and> coroutine_get_retval e2 = Inr (to_int r) \<and>
        crt_get_err_code e2 = Inr (if r \<ge> 0 then 0 else en) \<and> world e2 = w)) \<and>
    (sys_write P fd ubuf cnt (errno e (Worker i)) (world e) = (r, en, w) \<longrightarrow>
      (\<exists>e1 e2. crt_disk_write fd ubuf cnt e = Inr e1 \<and> stailq_rep (nxt e1) (doing_queue e1) [a] \<and>
        served P i sp a e1 e2 \<and> sched e2 [] \<and> queue_of e2 (doing_queue e2) [] \<and> pipe_channel e2 = pipe_channel e \<and>
        curr_task_ptr e2 = Some a \<and> coroutine_get_retval e2 = Inr (to_int r) \<and>
        crt_get_err_code e2 = Inr (if r \<ge> 0 then 0 else en) \<and> world e2 = w))"
proof (intro conjI impI)
  have s: "sched e []" using assms(3,4) by (simp add: sched_def)
  show "sys_read P fd ubuf cnt (errno e (Worker i)) (world e) = (r, en, w) \<Longrightarrow>
      \<exists>e1 e2. crt_disk_read fd ubuf cnt e = Inr e1 \<and> stailq_rep (nxt e1) (doing_queue e1) [a] \<and>
        served P i sp a e1 e2 \<and> sched e2 [] \<and> queue_of e2 (doing_queue e2) [] \<and> pipe_channel e2 = pipe_channel e \<and>
        curr_task_ptr e2 = Some a \<and> coroutine_get_retval e2 = Inr (to_int r) \<and>
        crt_get_err_code e2 = Inr (if r \<ge> 0 then 0 else en) \<and> world e2 = w"
    unfolding crt_disk_read_def coroutine_set_disk_read_def
    by (rule disk_round [OF s assms(1,2,5-7), where io = "sys_read P fd ubuf cnt" and dn = act_disk_read_done])
      (simp_all add: do_task_def do_disk_read_def get_task_def)
  show "sys_write P fd ubuf cnt (errno e (Worker i)) (world e) = (r, en, w) \<Longrightarrow>
      \<exists>e1 e2. crt_disk_write fd ubuf cnt e = Inr e1 \<and> stailq_rep (nxt e1) (doing_queue e1) [a] \<and>
        served P i sp a e1 e2 \<and> sched e2 [] \<and> queue_of e2 (doing_queue e2) [] \<and> pipe_channel e2 = pipe_channel e \<and>
        curr_task_ptr e2 = Some a \<and> coroutine_get_retval e2 = Inr (to_int r) \<and>
        crt_get_err_code e2 = Inr (if r \<ge> 0 then 0 else en) \<and> world e2 = w"
    unfolding crt_disk_write_def coroutine_set_disk_write_def
    by (rule disk_round [OF s assms(1,2,5-7), where io = "sys_write P fd ubuf cnt" and dn = act_disk_write_done])
      (simp_all add: do_task_def do_disk_write_def get_task_def)
qed

theorem disk_io_end_to_end_witness:
  "\<exists>e1 e2. crt_disk_read 3 100 64 ex_env = Inr e1 \<and> served ex_kernel 0 60 1 e1 e2 \<and>
     coroutine_get_retval e2 = Inr 5 \<and> crt_get_err_code e2 = Inr 0"
  using disk_io_end_to_end [OF ex_env_fields(2) _ ex_env_queue(1) _ ex_env_queue(2), THEN conjunct1, of ex_task 0 ex_kernel 3 100 64 5 0 "()" 60]
  by (auto simp: ex_env_fields next_worker_def ex_kernel_def ex_env_def env_zero_def)

section \<open>One pass\<close>

definition run_back :: "addr \<Rightarrow> ('w, 'z) client_scheme res \<Rightarrow> ('w, 'z) client_scheme res" where
  "run_back a r = bind_res r (\<lambda>p. bind_res (manager_back a (cl_env p)) (\<lambda>e. Inr (p\<lparr>cl_env := e\<rparr>)))"

lemma pass_resumed:
  assumes "sched (cl_env p) (a # xs)" and "tasks (cl_env p) a = Some t" and "action t \<in> {act_sem_activation, act_bg_run_done}"
    and "task_context t = Ctx_saved"
  shows "\<exists>e. sched e xs \<and> curr_task_ptr e = Some a \<and> tasks e = tasks (cl_env p) \<and> stacks e = stacks (cl_env p) \<and> ran e = ran (cl_env p) \<and>
    manager_pass run sp p = Some (run_back a (run a None (p\<lparr>cl_env := e\<rparr>))) \<and> same_doing (cl_env p) e \<and> world e = world (cl_env p)"
proof -
  from take_sched [OF assms(1)] obtain e1 e2 where
    e: "sem_wait_manager (cl_env p) = Some e1" "manager_take e1 = Inr (a, e2)" "sched e2 xs" "tasks e2 = tasks (cl_env p)"
      "stacks e2 = stacks (cl_env p)" "ran e2 = ran (cl_env p)" "same_doing (cl_env p) e2" "world e2 = world (cl_env p)" by blast
  let ?e = "e2\<lparr>curr_task_ptr := Some a\<rparr>"
  have "sched ?e xs" by (rule sched_upd [OF e(3)]) (use e(3) in \<open>auto simp: sched_def queue_of_def live_def\<close>)
  moreover have "manager_switch sp a e2 = Inr (True, ?e)" using assms(2,3) e(4) by (auto simp: manager_switch_def get_task_def)
  ultimately show ?thesis using assms(2,4) e
    by (intro exI [of _ ?e]) (simp add: manager_pass_def get_task_def context_entry_def run_back_def Let_def same_doing_def)
qed

lemma pass_resumes:
  assumes "sched (cl_env p) (a # xs)" and "tasks (cl_env p) a = Some t" and "action t = act_sem_activation"
    and "task_context t = Ctx_saved"
  shows "\<exists>e. sched e xs \<and> curr_task_ptr e = Some a \<and> tasks e = tasks (cl_env p) \<and> stacks e = stacks (cl_env p) \<and> ran e = ran (cl_env p) \<and>
    manager_pass run sp p = Some (run_back a (run a None (p\<lparr>cl_env := e\<rparr>)))"
  using pass_resumed [OF assms(1,2) _ assms(4), of run sp] assms(3) by blast

lemma pass_enters:
  assumes "sched (cl_env p) (a # xs)" and "tasks (cl_env p) a = Some t" and "enters sz f x (Some t)"
  shows "\<exists>e t'. sched e xs \<and> curr_task_ptr e = Some a \<and> tasks e = (tasks (cl_env p))(a \<mapsto> t') \<and> stack_ptr t' = Some sp \<and>
    action t' = act_new_coroutine \<and> stacks e = insert sp (stacks (cl_env p)) \<and> ran e = ran (cl_env p) \<and>
    manager_pass run sp p = Some (run_back a (run a (Some (f, x)) (p\<lparr>cl_env := e\<rparr>))) \<and>
    same_doing (cl_env p) e \<and> world e = world (cl_env p)"
proof -
  from take_sched [OF assms(1)] obtain e1 e2 where
    e: "sem_wait_manager (cl_env p) = Some e1" "manager_take e1 = Inr (a, e2)" "sched e2 xs" "tasks e2 = tasks (cl_env p)"
      "stacks e2 = stacks (cl_env p)" "ran e2 = ran (cl_env p)" "same_doing (cl_env p) e2" "world e2 = world (cl_env p)" by blast
  obtain fl fh al ah where tr: "transporter f = (fl, fh)" "transporter x = (al, ah)" by fastforce
  have w: "call_wrapper fl fh al ah = (f, x)" using tr by (auto simp: call_wrapper_def transporter_def halves_join)
  let ?t = "t\<lparr>stack_ptr := Some sp, task_context := Ctx_entry fl fh al ah\<rparr>"
  let ?e = "e2\<lparr>tasks := (tasks e2)(a \<mapsto> ?t), stacks := insert sp (stacks e2), curr_task_ptr := Some a\<rparr>"
  have "sched ?e xs" by (rule sched_upd [OF e(3)]) (use e(3) in \<open>auto simp: sched_def queue_of_def live_def\<close>)
  with assms(2,3) e tr w show ?thesis unfolding enters_def
    by (intro exI [of _ ?e] exI [of _ ?t])
      (auto simp: manager_pass_def manager_switch_def get_task_def upd_task_def context_entry_def run_back_def Let_def same_doing_def)
qed

end
