(* ===== verification/Example_Servers.thy ===== *)
theory Example_Servers
  imports Acoro_Client
begin

text \<open>
  The servers under \<^verbatim>\<open>src/example\<close>: the routine that a coroutine of \<^verbatim>\<open>echo_server.c\<close>,
  \<^verbatim>\<open>echo_server2.c\<close> and \<^verbatim>\<open>chat_server.c\<close> runs for a connection. The calls of \<open>crt_tcp_read\<close> and
  \<open>crt_tcp_read_to\<close> for one byte are a list of their results: the value returned and, if it is 1, the
  byte stored. A routine gives the list of the calls it makes on its descriptors and \<open>None\<close> while it
  still waits for input. The bytes of a buffer are \<open>None\<close> until they are written.
\<close>

section \<open>Buffers and strings\<close>

type_synonym buffer = "u8 option list"

datatype client_act =
    Set_nonblock int
  | Tcp_write int "u8 list"
  | Sock_close int
  | Close int
  | Crt_exit

text \<open>A store to an element of an array, with the check that C leaves out.\<close>

definition buf_put :: "nat \<Rightarrow> u8 \<Rightarrow> buffer \<Rightarrow> buffer res" where
  "buf_put i c b = (if i < length b then Inr (b[i := Some c]) else Inl OutOfBounds)"

text \<open>What \<open>strlen\<close> and \<open>printf\<close> read of a buffer: the bytes before the first 0.\<close>

fun c_string :: "buffer \<Rightarrow> u8 list res" where
  "c_string [] = Inl OutOfBounds"
| "c_string (None # b) = Inl Uninitialised"
| "c_string (Some c # b) = (if c = 0 then Inr [] else map_sum id ((#) c) (c_string b))"

text \<open>The descriptor a routine takes out of its pointer argument.\<close>

definition fd_of :: "u64 \<Rightarrow> int" where
  "fd_of arg = to_int (uint arg)"

lemma c_string_end: "c_string (map Some xs @ Some 0 # b) = Inr (takeWhile (\<lambda>c. c \<noteq> 0) xs)"
  by (induction xs) auto

lemma c_string_app: "0 \<notin> set xs \<Longrightarrow> c_string (map Some xs @ b) = map_sum id ((@) xs) (c_string b)"
proof (induction xs)
  case Nil
  show ?case by (cases "c_string b") simp_all
next
  case (Cons x xs)
  then show ?case by (cases "c_string b") auto
qed

text \<open>A buffer whose first bytes are known.\<close>

definition holds :: "nat \<Rightarrow> u8 list \<Rightarrow> buffer \<Rightarrow> bool" where
  "holds n xs b \<longleftrightarrow> length b = n \<and> length xs \<le> n \<and> take (length xs) b = map Some xs"

lemma holds_Nil [simp]: "holds n [] b \<longleftrightarrow> length b = n"
  by (simp add: holds_def)

lemma holds_put: "holds n xs b \<Longrightarrow> length xs < n \<Longrightarrow> holds n (xs @ [c]) (b[length xs := Some c])"
  by (simp add: holds_def take_Suc_conv_app_nth)

lemma holds_split: "holds n xs b \<Longrightarrow> b = map Some xs @ drop (length xs) b"
  unfolding holds_def by (metis append_take_drop_id)

lemma holds_append: "holds n (xs @ ys) b \<Longrightarrow> holds n xs b"
  unfolding holds_def by (metis append_eq_conv_conj length_append length_map le_add1 le_trans map_append take_take min.absorb1)

lemma holds_string: "holds n (xs @ 0 # ys) b \<Longrightarrow> c_string b = Inr (takeWhile (\<lambda>c. c \<noteq> 0) xs)"
proof -
  assume "holds n (xs @ 0 # ys) b"
  from holds_split [OF this] have "\<exists>r. b = map Some xs @ Some 0 # r"
    by (intro exI [of _ "map Some ys @ drop (length (xs @ 0 # ys)) b"]) simp
  then show ?thesis by (auto simp: c_string_end)
qed

lemma put_holds: "holds n xs b \<Longrightarrow> length xs < n \<Longrightarrow>
    \<exists>b'. buf_put (length xs) c b = Inr b' \<and> holds n (xs @ [c]) b'"
  by (simp add: buf_put_def holds_put) (simp add: holds_def)

lemma put_over: "holds n (xs @ x # ys) b \<Longrightarrow> \<exists>b'. buf_put (length xs) c b = Inr b' \<and> holds n (xs @ c # ys) b'"
  by (auto simp: buf_put_def holds_def take_update_swap list_update_append)

section \<open>echo_server.c\<close>

definition MAX_BUF_LEN :: nat where "MAX_BUF_LEN = 1024 * 1024"

text \<open>The loop of \<open>echo_func\<close>: the final \<open>i\<close>, \<open>nread\<close> and buffer.\<close>

fun echo_read :: "nat \<Rightarrow> int \<Rightarrow> buffer \<Rightarrow> (int \<times> u8) list \<Rightarrow> (nat \<times> int \<times> buffer) option" where
  "echo_read i nread b rs =
     (if i < MAX_BUF_LEN - 1 then
        (case rs of
           [] \<Rightarrow> None
         | (n, c) # rs' \<Rightarrow>
             if n \<noteq> 1 then Some (i, n, b)
             else let b1 = b[i := Some c] in if c = 10 then Some (i, n, b1) else echo_read (i + 1) n b1 rs')
      else Some (i, nread, b))"

declare echo_read.simps [simp del]

text \<open>
  What \<open>echo_func\<close> does with a line: it sends the string and stores 0 at \<open>strlen(buf) - 1\<close>, in front
  of the buffer if the string is empty, to print the line without its newline.
\<close>

definition echo_answer :: "int \<Rightarrow> nat \<Rightarrow> buffer \<Rightarrow> client_act list res" where
  "echo_answer fd i b2 =
     bind_res (buf_put (i + 1) 0 b2) (\<lambda>b3.
     bind_res (c_string b3) (\<lambda>s.
       if s = [] then Inl OutOfBounds
       else
         bind_res (buf_put (length s - 1) 0 b3) (\<lambda>b4.
         bind_res (c_string b4) (\<lambda>_. Inr [Tcp_write fd s, Close fd, Crt_exit]))))"

text \<open>\<open>echo_func\<close>: the new \<open>conn_cnt\<close> and the calls. \<open>m\<close> says whether \<open>malloc\<close> succeeds.\<close>

definition echo_func :: "bool \<Rightarrow> u64 \<Rightarrow> u64 \<Rightarrow> (int \<times> u8) list \<Rightarrow> (u64 \<times> client_act list) res option" where
  "echo_func m arg conn_cnt rs =
     (let fd = fd_of arg in
      if \<not> m then Some (Inl NullDeref)
      else
        (case echo_read 0 0 (replicate MAX_BUF_LEN None) rs of
           None \<Rightarrow> None
         | Some (i, nread, b1) \<Rightarrow> Some (
             bind_res (buf_put (i + 1) 0 b1) (\<lambda>b2.
             bind_res (if nread \<noteq> 1 then bind_res (c_string b2) (\<lambda>_. Inr [Sock_close fd, Crt_exit])
                       else echo_answer fd i b2) (\<lambda>acts.
               Inr (conn_cnt + 1, Set_nonblock fd # acts))))))"

lemma echo_read_bytes:
  assumes "holds MAX_BUF_LEN us b" and "10 \<notin> set xs" and "length us + length xs < MAX_BUF_LEN"
  shows "\<exists>b'. echo_read (length us) nread b (map (Pair 1) xs @ rs) =
      echo_read (length us + length xs) (if xs = [] then nread else 1) b' rs \<and> holds MAX_BUF_LEN (us @ xs) b' \<and>
      drop (length us + length xs) b' = drop (length us + length xs) b"
  using assms
proof (induction xs arbitrary: b us nread)
  case Nil
  then show ?case by auto
next
  case (Cons x xs)
  have "holds MAX_BUF_LEN (us @ [x]) (b[length us := Some x])" by (rule holds_put) (use Cons.prems in auto)
  from Cons.IH [OF this, of 1] Cons.prems show ?case by (subst echo_read.simps) auto
qed

lemma echo_answer_line:
  assumes "holds n (xs @ [10, 0]) b"
  shows "echo_answer fd (length xs) b =
    (case takeWhile (\<lambda>c. c \<noteq> 0) (xs @ [10]) of [] \<Rightarrow> Inl OutOfBounds | s \<Rightarrow> Inr [Tcp_write fd s, Close fd, Crt_exit])"
proof -
  define s where "s = takeWhile (\<lambda>c. c \<noteq> 0) (xs @ [10])"
  from assms have "holds n ((xs @ [10]) @ 0 # []) b" by simp
  from put_over [OF this, of 0] obtain b3 where b3: "buf_put (length xs + 1) 0 b = Inr b3" "holds n ((xs @ [10]) @ 0 # []) b3" by auto
  have str: "c_string b3 = Inr s" unfolding s_def by (rule holds_string [OF b3(2)])
  show ?thesis
  proof (cases "s = []")
    case True
    with b3 str show ?thesis by (simp add: echo_answer_def s_def [symmetric])
  next
    case False
    obtain ys where ys: "xs @ [10] = s @ ys" unfolding s_def by (metis takeWhile_dropWhile_id)
    have eq: "(xs @ [10]) @ 0 # [] = butlast s @ last s # ys @ [0]" using False unfolding ys by simp
    have "holds n (butlast s @ last s # ys @ [0]) b3" using b3(2) by (simp only: eq)
    from put_over [OF this, of 0] obtain b4 where
      b4: "buf_put (length s - 1) 0 b3 = Inr b4" "holds n (butlast s @ 0 # ys @ [0]) b4" by auto
    from False show ?thesis using b3 str b4 holds_string [OF b4(2)]
      by (simp add: echo_answer_def s_def [symmetric] split: list.split)
  qed
qed

lemma echo_func_line:
  assumes "10 \<notin> set xs" and "length xs + 2 \<le> MAX_BUF_LEN"
  shows "echo_func True arg k (map (Pair 1) (xs @ [10]) @ rs) =
    Some (bind_res (case takeWhile (\<lambda>c. c \<noteq> 0) (xs @ [10]) of [] \<Rightarrow> Inl OutOfBounds
        | s \<Rightarrow> Inr [Tcp_write (fd_of arg) s, Close (fd_of arg), Crt_exit]) (\<lambda>acts. Inr (k + 1, Set_nonblock (fd_of arg) # acts)))"
proof -
  let ?n = "length xs" and ?b = "replicate MAX_BUF_LEN None :: buffer"
  from echo_read_bytes [of "[]" ?b xs 0 "(1, 10) # rs"] assms obtain b' where
    b': "echo_read 0 0 ?b (map (Pair 1) (xs @ [10]) @ rs) = echo_read ?n (if xs = [] then 0 else 1) b' ((1, 10) # rs)"
      "holds MAX_BUF_LEN xs b'" by auto
  have r: "echo_read 0 0 ?b (map (Pair 1) (xs @ [10]) @ rs) = Some (?n, 1, b'[?n := Some 10])"
    unfolding b'(1) using assms(2) by (subst echo_read.simps) auto
  have "holds MAX_BUF_LEN (xs @ [10]) (b'[?n := Some 10])" by (rule holds_put [OF b'(2)]) (use assms in simp)
  from put_holds [OF this, of 0] assms(2) obtain b2 where
    b2: "buf_put (?n + 1) 0 (b'[?n := Some 10]) = Inr b2" "holds MAX_BUF_LEN (xs @ [10, 0]) b2" by auto
  from b2 r echo_answer_line [OF b2(2)] show ?thesis by (simp add: echo_func_def Let_def)
qed

lemma echo_func_full:
  assumes "10 \<notin> set xs" and "length xs + 1 = MAX_BUF_LEN"
  shows "echo_func True arg k (map (Pair 1) xs @ rs) = Some (Inl OutOfBounds)"
proof -
  let ?n = "length xs" and ?b = "replicate MAX_BUF_LEN None :: buffer"
  from echo_read_bytes [of "[]" ?b xs 0 rs] assms obtain b' where
    b': "echo_read 0 0 ?b (map (Pair 1) xs @ rs) = echo_read ?n (if xs = [] then 0 else 1) b' rs"
      "holds MAX_BUF_LEN xs b'" by auto
  have "echo_read 0 0 ?b (map (Pair 1) xs @ rs) = Some (?n, if xs = [] then 0 else 1, b')"
    unfolding b'(1) using assms(2) by (subst echo_read.simps) auto
  with b'(2) assms(2) show ?thesis by (simp add: echo_func_def buf_put_def holds_def)
qed

lemma echo_func_error:
  assumes "10 \<notin> set xs" and "0 \<notin> set xs" and "length xs + 2 \<le> MAX_BUF_LEN" and "n \<noteq> 1"
  shows "echo_func True arg k (map (Pair 1) xs @ (n, c) # rs) = Some (Inl Uninitialised)"
proof -
  let ?n = "length xs" and ?b = "replicate MAX_BUF_LEN None :: buffer"
  from echo_read_bytes [of "[]" ?b xs 0 "(n, c) # rs"] assms obtain b' where
    b': "echo_read 0 0 ?b (map (Pair 1) xs @ (n, c) # rs) = echo_read ?n (if xs = [] then 0 else 1) b' ((n, c) # rs)"
      "holds MAX_BUF_LEN xs b'" "drop ?n b' = replicate (MAX_BUF_LEN - ?n) None" by auto
  have r: "echo_read 0 0 ?b (map (Pair 1) xs @ (n, c) # rs) = Some (?n, n, b')"
    unfolding b'(1) using assms by (subst echo_read.simps) auto
  have "MAX_BUF_LEN - ?n = Suc (Suc (MAX_BUF_LEN - ?n - 2))" using assms(3) by simp
  with b'(3) have "drop ?n b' = None # None # replicate (MAX_BUF_LEN - ?n - 2) None" by (metis replicate_Suc)
  with holds_split [OF b'(2)] have "b' = map Some xs @ None # None # replicate (MAX_BUF_LEN - ?n - 2) None" by simp
  then have "buf_put (?n + 1) 0 b' = Inr (map Some xs @ None # Some 0 # replicate (MAX_BUF_LEN - ?n - 2) None)"
    by (simp add: buf_put_def list_update_append)
  with r assms show ?thesis by (simp add: echo_func_def c_string_app)
qed

text \<open>
  (C36) The echo server echoes: of a connection that sends fewer than \<open>MAX_BUF_LEN - 1\<close> bytes and a
  newline, the line is written back with its newline, up to a byte 0; if the line starts with a byte
  0 the routine stores in front of its buffer. A line of \<open>MAX_BUF_LEN - 1\<close> bytes makes the
  terminator go one past the end of the buffer, and after a failed read the message printed
  contains a byte of the buffer that was never written.
\<close>

theorem echo_server_line:
  assumes "10 \<notin> set xs"
  shows "(length xs + 2 \<le> MAX_BUF_LEN \<and> take 1 xs \<noteq> [0] \<longrightarrow>
      echo_func True arg k (map (Pair 1) (xs @ [10]) @ rs) =
        Some (Inr (k + 1, [Set_nonblock (fd_of arg), Tcp_write (fd_of arg) (takeWhile (\<lambda>c. c \<noteq> 0) (xs @ [10])),
          Close (fd_of arg), Crt_exit]))) \<and>
    (length xs + 2 \<le> MAX_BUF_LEN \<and> take 1 xs = [0] \<longrightarrow>
      echo_func True arg k (map (Pair 1) (xs @ [10]) @ rs) = Some (Inl OutOfBounds)) \<and>
    (length xs + 1 = MAX_BUF_LEN \<longrightarrow> echo_func True arg k (map (Pair 1) xs @ rs) = Some (Inl OutOfBounds)) \<and>
    (length xs + 2 \<le> MAX_BUF_LEN \<and> 0 \<notin> set xs \<and> n \<noteq> 1 \<longrightarrow>
      echo_func True arg k (map (Pair 1) xs @ (n, c) # rs) = Some (Inl Uninitialised))"
proof (intro conjI impI)
  assume l: "length xs + 2 \<le> MAX_BUF_LEN \<and> take 1 xs \<noteq> [0]"
  then have "takeWhile (\<lambda>c. c \<noteq> 0) (xs @ [10]) \<noteq> []" by (cases xs) auto
  with echo_func_line [OF assms, of arg k rs] l show "echo_func True arg k (map (Pair 1) (xs @ [10]) @ rs) =
      Some (Inr (k + 1, [Set_nonblock (fd_of arg), Tcp_write (fd_of arg) (takeWhile (\<lambda>c. c \<noteq> 0) (xs @ [10])),
        Close (fd_of arg), Crt_exit]))" by (simp split: list.split)
next
  assume l: "length xs + 2 \<le> MAX_BUF_LEN \<and> take 1 xs = [0]"
  then have "takeWhile (\<lambda>c. c \<noteq> 0) (xs @ [10]) = []" by (cases xs) auto
  with echo_func_line [OF assms, of arg k rs] l
  show "echo_func True arg k (map (Pair 1) (xs @ [10]) @ rs) = Some (Inl OutOfBounds)" by simp
qed (simp_all add: echo_func_full [OF assms] echo_func_error [OF assms])

theorem echo_server_line_witness:
  "echo_func True 7 41 [(1, 104), (1, 105), (1, 10)] =
     Some (Inr (42, [Set_nonblock 7, Tcp_write 7 [104, 105, 10], Close 7, Crt_exit])) \<and>
   echo_func True 7 41 [(1, 0), (1, 10)] = Some (Inl OutOfBounds) \<and>
   echo_func True 7 41 (map (Pair 1) (replicate (MAX_BUF_LEN - 1) 65)) = Some (Inl OutOfBounds) \<and>
   echo_func True 7 41 [(0, 0)] = Some (Inl Uninitialised)"
proof (intro conjI)
  have m: "1000 \<le> MAX_BUF_LEN" by (simp add: MAX_BUF_LEN_def)
  have fd: "fd_of 7 = 7" by (simp add: fd_of_def)
  show "echo_func True 7 41 [(1, 104), (1, 105), (1, 10)] =
     Some (Inr (42, [Set_nonblock 7, Tcp_write 7 [104, 105, 10], Close 7, Crt_exit]))"
    using echo_server_line [of "[104, 105]" 7 41 "[]", THEN conjunct1] m by (simp add: fd)
  show "echo_func True 7 41 [(1, 0), (1, 10)] = Some (Inl OutOfBounds)"
    using echo_server_line [of "[0]" 7 41 "[]", THEN conjunct2, THEN conjunct1] m by simp
  show "echo_func True 7 41 (map (Pair 1) (replicate (MAX_BUF_LEN - 1) 65)) = Some (Inl OutOfBounds)"
    using echo_server_line [of "replicate (MAX_BUF_LEN - 1) 65" 7 41 "[]", THEN conjunct2, THEN conjunct2, THEN conjunct1] m by simp
  show "echo_func True 7 41 [(0, 0)] = Some (Inl Uninitialised)"
    using echo_server_line [of "[]" 7 41 "[]" 0 0, THEN conjunct2, THEN conjunct2, THEN conjunct2] m by simp
qed

section \<open>echo_server2.c\<close>

text \<open>
  The loop of \<open>connection_processor\<close> over its 1024 bytes: a failed read is printed and the loop goes on
  to the next byte; a newline is followed by a terminator, without a test that there is room for it.
\<close>

fun echo2_read :: "nat \<Rightarrow> buffer \<Rightarrow> (int \<times> u8) list \<Rightarrow> buffer res option" where
  "echo2_read i b rs =
     (if i < 1024 then
        (case rs of
           [] \<Rightarrow> None
         | (n, c) # rs' \<Rightarrow>
             let b1 = (if n = 1 then b[i := Some c] else b)
             in if b1 ! i = Some 10 then Some (buf_put (i + 1) 0 b1) else echo2_read (i + 1) b1 rs')
      else Some (Inr b))"

declare echo2_read.simps [simp del]

definition connection_processor :: "u64 \<Rightarrow> (int \<times> u8) list \<Rightarrow> client_act list res option" where
  "connection_processor arg rs =
     map_option (\<lambda>m. bind_res m (\<lambda>b. bind_res (c_string b) (\<lambda>s.
       Inr [Tcp_write (fd_of arg) s, Sock_close (fd_of arg), Crt_exit])))
       (echo2_read 0 (replicate 1024 (Some 0)) rs)"

lemma echo2_read_bytes:
  assumes "holds 1024 us b" and "10 \<notin> set xs" and "length us + length xs \<le> 1024"
  shows "\<exists>b'. echo2_read (length us) b (map (Pair 1) xs @ rs) = echo2_read (length us + length xs) b' rs \<and>
      holds 1024 (us @ xs) b' \<and> drop (length us + length xs) b' = drop (length us + length xs) b"
  using assms
proof (induction xs arbitrary: b us)
  case Nil
  then show ?case by auto
next
  case (Cons x xs)
  have h: "holds 1024 (us @ [x]) (b[length us := Some x])" by (rule holds_put) (use Cons.prems in auto)
  moreover have "length b = 1024" using Cons.prems(1) by (simp add: holds_def)
  ultimately show ?case using Cons.IH [OF h] Cons.prems by (subst echo2_read.simps) auto
qed

lemma echo2_read_failed:
  assumes "length b = 1024" and "i + k = 1024" and "drop i b = replicate k (Some 0)" and "\<forall>r\<in>set rs. fst r \<noteq> 1" and "length rs = k"
  shows "echo2_read i b rs = Some (Inr b)"
  using assms
proof (induction k arbitrary: i rs)
  case 0
  then show ?case by (subst echo2_read.simps) simp
next
  case (Suc k)
  from Suc.prems obtain n c rs' where rs: "rs = (n, c) # rs'" by (metis length_Suc_conv prod.exhaust)
  have d: "drop i b = b ! i # drop (Suc i) b" using Suc.prems by (simp add: Cons_nth_drop_Suc)
  with Suc.prems rs show ?case by (subst echo2_read.simps) (simp add: Suc.IH)
qed

lemma processor_bytes:
  assumes "10 \<notin> set xs" and "length xs \<le> 1024"
  shows "\<exists>b'. echo2_read 0 (replicate 1024 (Some 0)) (map (Pair 1) xs @ rs) = echo2_read (length xs) b' rs \<and>
    b' = map Some xs @ replicate (1024 - length xs) (Some 0)"
proof -
  from echo2_read_bytes [of "[]" "replicate 1024 (Some 0)" xs rs] assms obtain b' where
    "echo2_read 0 (replicate 1024 (Some 0)) (map (Pair 1) xs @ rs) = echo2_read (length xs) b' rs" "holds 1024 xs b'"
    "drop (length xs) b' = replicate (1024 - length xs) (Some 0)" by auto
  with holds_split [of 1024 xs b'] show ?thesis by metis
qed

lemma processor_line:
  assumes "10 \<notin> set xs" and l: "length xs \<le> 1022"
  shows "connection_processor arg (map (Pair 1) (xs @ [10]) @ rs) =
      Some (Inr [Tcp_write (fd_of arg) (takeWhile (\<lambda>c. c \<noteq> 0) (xs @ [10])), Sock_close (fd_of arg), Crt_exit])"
proof -
  let ?n = "length xs" and ?z = "\<lambda>n. replicate n (Some 0) :: buffer"
  from processor_bytes [OF assms(1), of "(1, 10) # rs"] l obtain b where
    r: "echo2_read 0 (?z 1024) (map (Pair 1) (xs @ [10]) @ rs) = echo2_read ?n b ((1, 10) # rs)" "b = map Some xs @ ?z (1024 - ?n)"
    by auto
  have "1024 - ?n = Suc (Suc (1022 - ?n))" using l by simp
  then have b: "b = map Some xs @ Some 0 # Some 0 # ?z (1022 - ?n)" unfolding r(2) by (metis replicate_Suc)
  have e: "echo2_read ?n b ((1, 10) # rs) = Some (Inr (map Some (xs @ [10]) @ Some 0 # ?z (1022 - ?n)))"
    using l by (subst echo2_read.simps) (simp add: b buf_put_def list_update_append nth_append)
  show ?thesis
    unfolding connection_processor_def r(1) e using c_string_end [of "xs @ [10]" "?z (1022 - ?n)"] by simp
qed

text \<open>
  (C37) \<open>connection_processor\<close> echoes a line of at most 1022 bytes and its newline, up to a byte 0. A
  newline that is the 1024th byte makes its terminator go past the end of the buffer; 1024 bytes
  other than 0 and newline make \<open>strlen\<close> read past it. When the connection fails before a newline, the
  routine tries again for each of the remaining bytes of the buffer and then echoes what it has.
\<close>

theorem echo_server2_line:
  assumes "10 \<notin> set xs"
  shows "(length xs \<le> 1022 \<longrightarrow> connection_processor arg (map (Pair 1) (xs @ [10]) @ rs) =
      Some (Inr [Tcp_write (fd_of arg) (takeWhile (\<lambda>c. c \<noteq> 0) (xs @ [10])), Sock_close (fd_of arg), Crt_exit])) \<and>
    (length xs = 1023 \<longrightarrow> connection_processor arg (map (Pair 1) (xs @ [10]) @ rs) = Some (Inl OutOfBounds)) \<and>
    (length xs = 1024 \<and> 0 \<notin> set xs \<longrightarrow> connection_processor arg (map (Pair 1) xs @ rs) = Some (Inl OutOfBounds)) \<and>
    (length xs + length fs = 1024 \<and> fs \<noteq> [] \<and> list_all (\<lambda>r. fst r \<noteq> 1) fs \<longrightarrow> connection_processor arg (map (Pair 1) xs @ fs) =
      Some (Inr [Tcp_write (fd_of arg) (takeWhile (\<lambda>c. c \<noteq> 0) xs), Sock_close (fd_of arg), Crt_exit]))"
proof (intro conjI impI)
  let ?n = "length xs" and ?z = "\<lambda>n. replicate n (Some 0) :: buffer"
  assume l: "?n = 1023"
  from processor_bytes [OF assms, of "(1, 10) # rs"] l obtain b where
    r: "echo2_read 0 (?z 1024) (map (Pair 1) (xs @ [10]) @ rs) = echo2_read 1023 b ((1, 10) # rs)" "b = map Some xs @ ?z 1"
    by auto
  have "echo2_read 1023 b ((1, 10) # rs) = Some (Inl OutOfBounds)"
    by (subst echo2_read.simps) (simp add: r(2) buf_put_def nth_append l)
  with r(1) show "connection_processor arg (map (Pair 1) (xs @ [10]) @ rs) = Some (Inl OutOfBounds)"
    by (simp add: connection_processor_def)
next
  assume l: "length xs = 1024 \<and> 0 \<notin> set xs"
  from processor_bytes [OF assms, of rs] l have
    r: "echo2_read 0 (replicate 1024 (Some 0)) (map (Pair 1) xs @ rs) = echo2_read 1024 (map Some xs) rs" by auto
  have "echo2_read 1024 (map Some xs) rs = Some (Inr (map Some xs))" by (subst echo2_read.simps) simp
  with r c_string_app [of xs "[]"] l show "connection_processor arg (map (Pair 1) xs @ rs) = Some (Inl OutOfBounds)"
    by (simp add: connection_processor_def)
next
  let ?n = "length xs" and ?z = "\<lambda>n. replicate n (Some 0) :: buffer"
  assume l: "?n + length fs = 1024 \<and> fs \<noteq> [] \<and> list_all (\<lambda>r. fst r \<noteq> 1) fs"
  from processor_bytes [OF assms, of fs] l obtain b where
    r: "echo2_read 0 (?z 1024) (map (Pair 1) xs @ fs) = echo2_read ?n b fs" "b = map Some xs @ ?z (1024 - ?n)" by auto
  have e: "echo2_read ?n b fs = Some (Inr b)"
    by (rule echo2_read_failed [of _ _ "length fs"]) (use l in \<open>auto simp: r(2) list_all_iff\<close>)
  have "1024 - ?n = Suc (1023 - ?n)" using l by (cases fs) auto
  then have "c_string b = Inr (takeWhile (\<lambda>c. c \<noteq> 0) xs)" unfolding r(2) by (simp add: c_string_end)
  then show "connection_processor arg (map (Pair 1) xs @ fs) =
      Some (Inr [Tcp_write (fd_of arg) (takeWhile (\<lambda>c. c \<noteq> 0) xs), Sock_close (fd_of arg), Crt_exit])"
    unfolding connection_processor_def r(1) e by simp
qed (rule processor_line [OF assms])

theorem echo_server2_line_witness:
  "connection_processor 7 [(1, 104), (1, 105), (1, 10)] = Some (Inr [Tcp_write 7 [104, 105, 10], Sock_close 7, Crt_exit]) \<and>
   connection_processor 7 (map (Pair 1) (replicate 1023 65 @ [10])) = Some (Inl OutOfBounds) \<and>
   connection_processor 7 (map (Pair 1) (replicate 1024 65)) = Some (Inl OutOfBounds) \<and>
   connection_processor 7 ((1, 65) # replicate 1023 (0, 0)) = Some (Inr [Tcp_write 7 [65], Sock_close 7, Crt_exit])"
proof (intro conjI)
  have fd: "fd_of 7 = 7" by (simp add: fd_of_def)
  show "connection_processor 7 [(1, 104), (1, 105), (1, 10)] = Some (Inr [Tcp_write 7 [104, 105, 10], Sock_close 7, Crt_exit])"
    using echo_server2_line [of "[104, 105]" 7 "[]", THEN conjunct1] by (simp add: fd)
  show "connection_processor 7 (map (Pair 1) (replicate 1023 65 @ [10])) = Some (Inl OutOfBounds)"
    using echo_server2_line [of "replicate 1023 65" 7 "[]", THEN conjunct2, THEN conjunct1]
    by simp
  show "connection_processor 7 (map (Pair 1) (replicate 1024 65)) = Some (Inl OutOfBounds)"
    using echo_server2_line [of "replicate 1024 65" 7 "[]", THEN conjunct2, THEN conjunct2, THEN conjunct1]
    by simp
  show "connection_processor 7 ((1, 65) # replicate 1023 (0, 0)) = Some (Inr [Tcp_write 7 [65], Sock_close 7, Crt_exit])"
    using echo_server2_line [of "[65]" 7 "[]" "replicate 1023 (0, 0)", THEN conjunct2, THEN conjunct2, THEN conjunct2]
    by (simp add: fd list_all_iff)
qed

section \<open>The loops that accept connections\<close>

text \<open>
  The listening socket of \<open>server\<close> in \<^verbatim>\<open>echo_server.c\<close> and \<^verbatim>\<open>chat_server.c\<close>, for any interface and port
  2000: \<open>None\<close> is \<open>exit(-1)\<close>. The result of \<open>setsockopt\<close> is not looked at.
\<close>

definition server_port :: in_port_t where "server_port = 0xD007"

definition server_socket :: "'w posix \<Rightarrow> thread \<Rightarrow> 'w coroutine_env_s \<Rightarrow> int option \<times> 'w coroutine_env_s" where
  "server_socket P th e =
     (let (listenfd, e1) = sys th (sys_socket P) e
      in if listenfd < 0 then (None, e1)
         else
           let (_, e2) = sys th (sys_reuseaddr P listenfd) e1;
               (r, e3) = sys th (sys_bind P listenfd 0 server_port) e2
           in if r < 0 then (None, e3)
              else
                let (r, e4) = sys th (sys_listen P listenfd 128) e3
                in if r < 0 then (None, e4) else (Some listenfd, e4))"

text \<open>
  The loop: one coroutine for every return of \<open>accept\<close>, also if it returns -1. \<open>ad\<close> and \<open>len\<close> are the
  addresses of \<open>client_addr\<close> and \<open>len\<close>, \<open>mems\<close> the memory of the coroutines, one for each pass.
\<close>

fun accept_loop ::
  "'w posix \<Rightarrow> thread \<Rightarrow> u64 option \<Rightarrow> uptr \<Rightarrow> int \<Rightarrow> uptr \<Rightarrow> uptr \<Rightarrow> (addr \<times> task) option list \<Rightarrow> 'w coroutine_env_s \<Rightarrow> 'w coroutine_env_s res" where
  "accept_loop P th attr f listenfd ad len [] e = Inr e"
| "accept_loop P th attr f listenfd ad len (mem # mems) e =
     (let (fd, e1) = sys th (sys_accept P listenfd ad len) e
      in bind_res (crt_create mem attr f (word_of_int fd) e1) (\<lambda>(_, e2). accept_loop P th attr f listenfd ad len mems e2))"

text \<open>\<open>server\<close> of \<^verbatim>\<open>echo_server.c\<close>: the value of \<open>exit\<close> or of \<open>return\<close>.\<close>

definition echo_server ::
  "'w posix \<Rightarrow> thread \<Rightarrow> uptr \<Rightarrow> uptr \<Rightarrow> uptr \<Rightarrow> (nat \<Rightarrow> (addr \<times> task) option) \<Rightarrow> 'w coroutine_env_s \<Rightarrow> (int \<times> 'w coroutine_env_s) res" where
  "echo_server P th f ad len mem e =
     (case server_socket P th e of
        (None, e1) \<Rightarrow> Inr (-1, e1)
      | (Some listenfd, e1) \<Rightarrow> map_sum id (Pair 0) (accept_loop P th None f listenfd ad len (map mem [0..<1000 * 1000]) e1))"

text \<open>\<open>server\<close> of \<^verbatim>\<open>chat_server.c\<close>, which never returns: the first passes of its loop, with stacks of 128 KB.\<close>

definition chat_server ::
  "'w posix \<Rightarrow> thread \<Rightarrow> uptr \<Rightarrow> uptr \<Rightarrow> uptr \<Rightarrow> (addr \<times> task) option list \<Rightarrow> 'w coroutine_env_s \<Rightarrow> (int option \<times> 'w coroutine_env_s) res" where
  "chat_server P th f ad len mems e =
     (case server_socket P th e of
        (None, e1) \<Rightarrow> Inr (Some (-1), e1)
      | (Some listenfd, e1) \<Rightarrow>
          map_sum id (Pair None) (accept_loop P th (Some (crt_attr_setstacksize (1024 * 128))) f listenfd ad len mems e1))"

text \<open>
  \<open>server\<close> of \<^verbatim>\<open>echo_server2.c\<close>, a coroutine: \<open>rs\<close> is what the calls of \<open>crt_tcp_accept\<close> return, with the
  memory of the coroutines; \<open>ip\<close> is 127.0.0.1 in network order.
\<close>

definition echo_server2 ::
  "'w posix \<Rightarrow> thread \<Rightarrow> uptr \<Rightarrow> in_addr_t \<Rightarrow> (int \<times> (addr \<times> task) option) list \<Rightarrow> 'w coroutine_env_s \<Rightarrow> 'w coroutine_env_s res" where
  "echo_server2 P th f ip rs e =
     bind_res (crt_tcp_prepare_sock P th ip server_port e) (\<lambda>(sockfd, e1).
     bind_res (assert_c (sockfd \<ge> 0)) (\<lambda>_.
       create_each None f (map (\<lambda>(fd, mem). (word_of_int fd, mem)) rs) e1))"

text \<open>What the first calls of \<open>accept\<close> return, from the error number and the world given.\<close>

primrec accepts :: "'w posix \<Rightarrow> int \<Rightarrow> uptr \<Rightarrow> uptr \<Rightarrow> nat \<Rightarrow> int \<Rightarrow> 'w \<Rightarrow> int list" where
  "accepts P listenfd ad len 0 en w = []"
| "accepts P listenfd ad len (Suc n) en w =
     (case sys_accept P listenfd ad len en w of (fd, en1, w1) \<Rightarrow> fd # accepts P listenfd ad len n en1 w1)"

lemma fd_of_arg: "- 2147483648 \<le> fd \<Longrightarrow> fd < 2147483648 \<Longrightarrow> fd_of (word_of_int fd) = fd"
  by (simp add: fd_of_def to_int_def uint_word_of_int_eq signed_take_bit_take_bit signed_take_bit_int_eq_self)

lemma accept_all:
  assumes "sched e xs" and "distinct (map fst ms)" and "\<And>a. a \<in> fst ` set ms \<Longrightarrow> tasks e a = None"
  shows "\<exists>e1. accept_loop P th attr f listenfd ad len (map Some ms) e = Inr e1 \<and> sched e1 (xs @ map fst ms) \<and>
    (\<forall>a. a \<notin> fst ` set ms \<longrightarrow> tasks e1 a = tasks e a) \<and>
    list_all2 (\<lambda>fd (a, _). enters (attr_size attr) f (word_of_int fd) (tasks e1 a))
      (accepts P listenfd ad len (length ms) (errno e th) (world e)) ms"
  using assms
proof (induction ms arbitrary: e xs)
  case Nil
  then show ?case by simp
next
  case (Cons m ms)
  obtain a junk where m: "m = (a, junk)" by (cases m)
  obtain fd en w where s: "sys_accept P listenfd ad len (errno e th) (world e) = (fd, en, w)" by (metis prod_cases3)
  let ?e = "e\<lparr>errno := (errno e)(th := en), world := w\<rparr>"
  have "sched ?e xs" by (rule sched_upd [OF Cons.prems(1)]) (use Cons.prems(1) in \<open>auto simp: sched_def queue_of_def live_def\<close>)
  moreover have "tasks ?e a = None" using Cons.prems(3) m by simp
  ultimately obtain e1 t where
    e1: "crt_create (Some (a, junk)) attr f (word_of_int fd) ?e = Inr (cid ?e + 1, e1)" "sched e1 (xs @ [a])" "tasks e1 = (tasks e)(a \<mapsto> t)"
      "enters (attr_size attr) f (word_of_int fd) (Some t)" "errno e1 th = en" "world e1 = w"
    using create_sched [of ?e xs a junk attr f "word_of_int fd"] by (auto simp: kept_def)
  have fresh: "tasks e1 b = None" if "b \<in> fst ` set ms" for b using that Cons.prems(2,3) m e1(3) by auto
  have "distinct (map fst ms)" using Cons.prems(2) by simp
  from Cons.IH [OF e1(2) this fresh] e1(5,6) obtain e2 where
    e2: "accept_loop P th attr f listenfd ad len (map Some ms) e1 = Inr e2" "sched e2 ((xs @ [a]) @ map fst ms)"
      "\<forall>b. b \<notin> fst ` set ms \<longrightarrow> tasks e2 b = tasks e1 b"
      "list_all2 (\<lambda>fd (a, _). enters (attr_size attr) f (word_of_int fd) (tasks e2 a)) (accepts P listenfd ad len (length ms) en w) ms" by auto
  have "tasks e2 a = Some t" using e2(3) e1(3) Cons.prems(2) m by (simp add: image_iff)
  with e1 e2 m s show ?case by (intro exI [of _ e2]) (auto simp: sys_def)
qed

lemma accepts_range:
  assumes "\<And>en w. fst (sys_accept P listenfd ad len en w) \<in> {-1..<2147483648}" and "fd \<in> set (accepts P listenfd ad len n en w)"
  shows "-1 \<le> fd \<and> fd < 2147483648"
  using assms(2)
proof (induction n arbitrary: en w)
  case 0
  then show ?case by simp
next
  case (Suc n)
  obtain fd1 en1 w1 where s: "sys_accept P listenfd ad len en w = (fd1, en1, w1)" by (metis prod_cases3)
  with assms(1) [of en w] have "-1 \<le> fd1 \<and> fd1 < 2147483648" by simp
  with Suc s show ?case by auto
qed

lemma accept_fds:
  assumes "sched e xs" and "distinct (map fst ms)" and "\<And>a. a \<in> fst ` set ms \<Longrightarrow> tasks e a = None"
    and "\<And>en w. fst (sys_accept P listenfd ad len en w) \<in> {-1..<2147483648}"
  shows "\<exists>e1. accept_loop P th attr f listenfd ad len (map Some ms) e = Inr e1 \<and> sched e1 (xs @ map fst ms) \<and>
    list_all2 (\<lambda>fd (a, _). \<exists>x. enters (attr_size attr) f x (tasks e1 a) \<and> fd_of x = fd)
      (accepts P listenfd ad len (length ms) (errno e th) (world e)) ms"
proof -
  from accept_all [OF assms(1-3), of P th attr f listenfd ad len] obtain e1 where
    e1: "accept_loop P th attr f listenfd ad len (map Some ms) e = Inr e1" "sched e1 (xs @ map fst ms)"
      "list_all2 (\<lambda>fd (a, _). enters (attr_size attr) f (word_of_int fd) (tasks e1 a))
        (accepts P listenfd ad len (length ms) (errno e th) (world e)) ms" by blast
  have "list_all2 (\<lambda>fd (a, _). \<exists>x. enters (attr_size attr) f x (tasks e1 a) \<and> fd_of x = fd)
      (accepts P listenfd ad len (length ms) (errno e th) (world e)) ms"
  proof (rule list.rel_mono_strong [OF e1(3)])
    fix fd am assume "fd \<in> set (accepts P listenfd ad len (length ms) (errno e th) (world e))"
    from accepts_range [OF assms(4) this] have "fd_of (word_of_int fd) = fd" by (intro fd_of_arg) auto
    moreover assume "case am of (a, _) \<Rightarrow> enters (attr_size attr) f (word_of_int fd) (tasks e1 a)"
    ultimately show "case am of (a, _) \<Rightarrow> \<exists>x. enters (attr_size attr) f x (tasks e1 a) \<and> fd_of x = fd" by auto
  qed
  with e1 show ?thesis by blast
qed

text \<open>
  (C35) A server makes one coroutine for every connection: when the listening socket is ready, \<open>n\<close> passes
  of the loop of the chat server leave \<open>n\<close> new tasks at the end of the todo queue, in the order of the
  connections, with \<open>n\<close> posts of the manager; each will enter the routine of the server with the
  descriptor that its call of \<open>accept\<close> returned, which the routine gets back unchanged out of its
  pointer argument. The echo server does the same for a million connections, with small stacks, and
  returns 0.
\<close>

theorem server_creates:
  assumes "queue_of e (todo_queue e) xs" and "manager_sem e = length xs" and "distinct (map fst ms)"
    and "\<And>a. a \<in> fst ` set ms \<Longrightarrow> tasks e a = None" and "server_socket P th e0 = (Some listenfd, e)"
    and "\<And>en w. fst (sys_accept P listenfd ad len en w) \<in> {-1..<2147483648}"
  shows "(\<exists>e1. chat_server P th f ad len (map Some ms) e0 = Inr (None, e1) \<and>
      queue_of e1 (todo_queue e1) (xs @ map fst ms) \<and> manager_sem e1 = manager_sem e + length ms \<and>
      list_all2 (\<lambda>fd (a, _). \<exists>x. enters 131072 f x (tasks e1 a) \<and> fd_of x = fd)
        (accepts P listenfd ad len (length ms) (errno e th) (world e)) ms) \<and>
    (length ms = 1000000 \<longrightarrow> (\<exists>e1. echo_server P th f ad len (\<lambda>i. Some (ms ! i)) e0 = Inr (0, e1) \<and>
      queue_of e1 (todo_queue e1) (xs @ map fst ms) \<and> manager_sem e1 = manager_sem e + length ms \<and>
      list_all2 (\<lambda>fd (a, _). \<exists>x. enters 32768 f x (tasks e1 a) \<and> fd_of x = fd)
        (accepts P listenfd ad len (length ms) (errno e th) (world e)) ms))"
proof (intro conjI impI)
  have s: "sched e xs" using assms(1,2) by (simp add: sched_def)
  have a: "attr_size (Some (crt_attr_setstacksize (1024 * 128))) = 131072" by (simp add: attr_size_def crt_attr_setstacksize_def)
  from accept_fds [OF s assms(3,4,6), of th "Some (crt_attr_setstacksize (1024 * 128))" f, unfolded a] assms(2,5)
  show "\<exists>e1. chat_server P th f ad len (map Some ms) e0 = Inr (None, e1) \<and>
      queue_of e1 (todo_queue e1) (xs @ map fst ms) \<and> manager_sem e1 = manager_sem e + length ms \<and>
      list_all2 (\<lambda>fd (a, _). \<exists>x. enters 131072 f x (tasks e1 a) \<and> fd_of x = fd)
        (accepts P listenfd ad len (length ms) (errno e th) (world e)) ms"
    by (auto simp: chat_server_def sched_def)
  assume l: "length ms = 1000000"
  have m: "map (\<lambda>i. Some (ms ! i)) [0..<1000 * 1000] = map Some ms" using l by (intro nth_equalityI) auto
  have b: "attr_size None = 32768" by (simp add: attr_size_def COROUTINE_STACK_SIZE_def)
  from accept_fds [OF s assms(3,4,6), of th None f, unfolded b] assms(2,5)
  show "\<exists>e1. echo_server P th f ad len (\<lambda>i. Some (ms ! i)) e0 = Inr (0, e1) \<and>
      queue_of e1 (todo_queue e1) (xs @ map fst ms) \<and> manager_sem e1 = manager_sem e + length ms \<and>
      list_all2 (\<lambda>fd (a, _). \<exists>x. enters 32768 f x (tasks e1 a) \<and> fd_of x = fd)
        (accepts P listenfd ad len (length ms) (errno e th) (world e)) ms"
    unfolding echo_server_def m by (auto simp: sched_def)
qed

theorem server_creates_witness:
  "\<exists>e1. chat_server (ex_kernel\<lparr>sys_bind := (\<lambda>fd ip port en w. (0, en, w))\<rparr>) (Foreign 0) 7 100 200
      (map Some [(2, ex_task), (3, ex_task)]) ex_env = Inr (None, e1) \<and>
    queue_of e1 (todo_queue e1) [2, 3] \<and> manager_sem e1 = 2"
proof -
  let ?P = "ex_kernel\<lparr>sys_bind := (\<lambda>fd ip port en w. (0, en, w))\<rparr>"
  have "server_socket ?P (Foreign 0) ex_env = (Some 5, ex_env)" by (simp add: server_socket_def sys_def ex_kernel_def)
  moreover have "tasks ex_env a = None" if "a \<in> fst ` set [(2, ex_task), (3, ex_task)]" for a using that by (auto simp: ex_env_fields)
  moreover have "fst (sys_accept ?P 5 100 200 en w) \<in> {-1..<2147483648}" for en w by (simp add: ex_kernel_def)
  moreover have "distinct (map fst [(2 :: addr, ex_task), (3, ex_task)])" "manager_sem ex_env = length ([] :: addr list)"
    by (simp_all add: ex_env_fields)
  ultimately obtain e1 where "chat_server ?P (Foreign 0) 7 100 200 (map Some [(2, ex_task), (3, ex_task)]) ex_env = Inr (None, e1)"
      "queue_of e1 (todo_queue e1) ([] @ map fst [(2, ex_task), (3, ex_task)])" "manager_sem e1 = manager_sem ex_env + length [(2 :: nat, ex_task), (3, ex_task)]"
    using server_creates [OF ex_env_queue(1), of "[(2, ex_task), (3, ex_task)]" ?P "Foreign 0" ex_env 5 100 200 7, THEN conjunct1] by blast
  then show ?thesis by (intro exI [of _ e1]) (simp add: ex_env_fields)
qed

end
