(* ===== verification/Example_Chat.thy ===== *)
theory Example_Chat
  imports Example_Servers
begin

text \<open>
  The chat server of \<^verbatim>\<open>src/example/chat_server.c\<close>: all its connections with the table they share. A
  coroutine gives way to the others only inside a call of the library, so what it does between a
  read of one byte and its next call is one step of the server.
\<close>

section \<open>The routine of a connection\<close>

definition CHAT_FDS :: nat where "CHAT_FDS = 1024 * 1024"

text \<open>The table \<open>chat_client_fd\<close>, and for every connection its \<open>buf\<close> and \<open>cnt\<close>.\<close>

record chat =
  chat_client_fd :: "nat \<Rightarrow> u8"
  conns :: "int \<Rightarrow> (buffer \<times> nat) option"

definition chat_in_table :: "int \<Rightarrow> bool" where
  "chat_in_table i \<longleftrightarrow> 0 \<le> i \<and> i < int CHAT_FDS"

text \<open>\<open>sscanf\<close> with the format \<open>%d\<close>: \<open>None\<close> if there is no number and the variable keeps its value.\<close>

definition sscanf_d :: "u8 list \<Rightarrow> int option" where
  "sscanf_d s =
     (let s1 = dropWhile (\<lambda>c. c = 32 \<or> 9 \<le> c \<and> c \<le> 13) s;
          sign = (case s1 of c # r \<Rightarrow> if c = 45 then - 1 else 1 | [] \<Rightarrow> 1);
          s2 = (case s1 of c # r \<Rightarrow> if c = 45 \<or> c = 43 then r else s1 | [] \<Rightarrow> []);
          ds = takeWhile (\<lambda>c. 48 \<le> c \<and> c \<le> 57) s2
      in if ds = [] then None else Some (sign * foldl (\<lambda>n c. 10 * n + (uint c - 48)) 0 ds))"

text \<open>The number at the start of a message, 0 if there is none.\<close>

definition chat_id :: "u8 list \<Rightarrow> int" where
  "chat_id m = (case sscanf_d m of None \<Rightarrow> 0 | Some i \<Rightarrow> i)"

definition not_online :: "u8 list" where
  "not_online = [110, 111, 116, 32, 111, 110, 108, 105, 110, 101, 10]"

text \<open>
  A full message: \<open>cnt\<close> bytes, of which the last becomes a newline. The number at its start is used as
  an index into the table, without a test. A number that does not fit in an \<open>int\<close>, for which C defines
  no result, is outside the table too.
\<close>

definition chat_message :: "int \<Rightarrow> buffer \<Rightarrow> nat \<Rightarrow> chat \<Rightarrow> (buffer \<times> client_act list) res" where
  "chat_message fd b cnt s =
     bind_res (buf_put (cnt - 1) 0 b) (\<lambda>b1.
     bind_res (c_string b1) (\<lambda>_.
     bind_res (buf_put (cnt - 1) 10 b1) (\<lambda>b2.
     bind_res (buf_put cnt 0 b2) (\<lambda>b3.
     bind_res (c_string b3) (\<lambda>m.
       let chat_client_id = chat_id m
       in if \<not> chat_in_table chat_client_id then Inl OutOfBounds
          else if chat_client_fd s (nat chat_client_id) = 1 then Inr (b3, [Tcp_write chat_client_id m])
          else Inr (b3, [Tcp_write fd not_online]))))))"

text \<open>
  What happens to the server: \<open>accept\<close> has returned and the coroutine with this argument starts; a read
  of one byte by the connection returns \<open>n\<close>, with byte \<open>c\<close> if \<open>n\<close> is 1.
\<close>

datatype chat_event = Accepted u64 | Got int int u8

fun chat_server_func :: "chat_event \<Rightarrow> chat \<Rightarrow> (chat \<times> client_act list) res" where
  "chat_server_func (Accepted arg) s =
     (let fd = fd_of arg in
      if chat_in_table fd
      then Inr (s\<lparr>chat_client_fd := (chat_client_fd s)(nat fd := 1), conns := (conns s)(fd \<mapsto> (replicate 1024 None, 0))\<rparr>, [Set_nonblock fd])
      else Inl OutOfBounds)"
| "chat_server_func (Got fd n c) s =
     (case conns s fd of
        None \<Rightarrow> Inr (s, [])
      | Some (b, cnt) \<Rightarrow>
          if n = 1 then
            bind_res (buf_put cnt c b) (\<lambda>b1.
              if c = 10 \<or> cnt + 1 = 1024 - 1 then
                if cnt + 1 = 1 then Inr (s\<lparr>conns := (conns s)(fd \<mapsto> (b1, 0))\<rparr>, [])
                else bind_res (chat_message fd b1 (cnt + 1) s) (\<lambda>(b2, acts). Inr (s\<lparr>conns := (conns s)(fd \<mapsto> (b2, 0))\<rparr>, acts))
              else Inr (s\<lparr>conns := (conns s)(fd \<mapsto> (b1, cnt + 1))\<rparr>, []))
          else if n \<le> 0 then
            if chat_in_table fd
            then Inr (s\<lparr>chat_client_fd := (chat_client_fd s)(nat fd := 0), conns := (conns s)(fd := None)\<rparr>, [Sock_close fd, Crt_exit])
            else Inl OutOfBounds
          else Inl Aborted)"

definition chat_run :: "chat_event list \<Rightarrow> chat \<Rightarrow> (chat \<times> client_act list) res" where
  "chat_run = run_steps chat_server_func"

definition chat_init :: chat where
  "chat_init = \<lparr>chat_client_fd = (\<lambda>_. 0), conns = (\<lambda>_. None)\<rparr>"

lemma chat_run_simps [simp]:
  "chat_run [] s = Inr (s, [])"
  "chat_run (ev # evs) s = bind_res (chat_server_func ev s) (\<lambda>(s1, as). bind_res (chat_run evs s1) (\<lambda>(s2, as'). Inr (s2, as @ as')))"
  by (simp_all add: chat_run_def)

lemma chat_run_append: "chat_run (xs @ ys) s =
    bind_res (chat_run xs s) (\<lambda>(s1, as). bind_res (chat_run ys s1) (\<lambda>(s2, as'). Inr (s2, as @ as')))"
  by (simp add: chat_run_def run_steps_append)

section \<open>Messages\<close>

lemma chat_message_ok:
  assumes "holds 1024 (us @ [c]) b" and "length us + 2 \<le> 1024"
  shows "let m = takeWhile (\<lambda>c. c \<noteq> 0) (us @ [10]); i = chat_id m in
    if chat_in_table i then \<exists>b'. length b' = 1024 \<and>
      chat_message fd b (length us + 1) s = Inr (b', [if chat_client_fd s (nat i) = 1 then Tcp_write i m else Tcp_write fd not_online])
    else chat_message fd b (length us + 1) s = Inl OutOfBounds"
proof -
  from put_over [OF assms(1), of 0] obtain b1 where b1: "buf_put (length us) 0 b = Inr b1" "holds 1024 (us @ [0]) b1" by blast
  from put_over [OF b1(2), of 10] obtain b2 where b2: "buf_put (length us) 10 b1 = Inr b2" "holds 1024 (us @ [10]) b2" by blast
  from put_holds [OF b2(2), of 0] assms(2) obtain b3 where b3: "buf_put (length us + 1) 0 b2 = Inr b3" "holds 1024 ((us @ [10]) @ [0]) b3"
    by auto
  from b3(2) have "length b3 = 1024" by (simp add: holds_def)
  with b1 b2 b3 holds_string [OF b1(2)] holds_string [OF b3(2)] show ?thesis by (simp add: chat_message_def Let_def)
qed

section \<open>The invariant of the server\<close>

text \<open>
  The table says who is connected; every connection is in the table and holds the bytes of a message
  that has not ended.
\<close>

definition chat_inv :: "chat \<Rightarrow> bool" where
  "chat_inv s \<longleftrightarrow> (\<forall>i. chat_client_fd s i = (if conns s (int i) = None then 0 else 1)) \<and>
     (\<forall>fd b cnt. conns s fd = Some (b, cnt) \<longrightarrow> chat_in_table fd \<and> cnt < 1023 \<and> (\<exists>us. length us = cnt \<and> holds 1024 us b))"

lemma chat_invD:
  assumes "chat_inv s" and "conns s fd = Some (b, cnt)"
  obtains us where "length us = cnt" and "holds 1024 us b" and "cnt < 1023" and "chat_in_table fd"
  using assms unfolding chat_inv_def by blast

lemma chat_inv_conn:
  assumes "chat_inv s" and "conns s fd \<noteq> None" and "holds 1024 us b" and "length us < 1023"
  shows "chat_inv (s\<lparr>conns := (conns s)(fd \<mapsto> (b, length us))\<rparr>)"
  using assms by (auto simp: chat_inv_def)

lemma chat_inv_join: "chat_inv s \<Longrightarrow> chat_in_table fd \<Longrightarrow>
    chat_inv (s\<lparr>chat_client_fd := (chat_client_fd s)(nat fd := 1), conns := (conns s)(fd \<mapsto> (replicate 1024 None, 0))\<rparr>)"
  by (auto simp: chat_inv_def chat_in_table_def)

lemma chat_inv_leave: "chat_inv s \<Longrightarrow> chat_in_table fd \<Longrightarrow>
    chat_inv (s\<lparr>chat_client_fd := (chat_client_fd s)(nat fd := 0), conns := (conns s)(fd := None)\<rparr>)"
  by (auto simp: chat_inv_def chat_in_table_def)

text \<open>What a byte does: it is stored, or it ends a message.\<close>

lemma chat_byte:
  assumes "chat_inv s" and "conns s fd = Some (b, length us)" and "holds 1024 us b" and "length us < 1023"
  shows "if c = 10 \<and> us = [] then \<exists>b'. length b' = 1024 \<and> chat_server_func (Got fd 1 c) s = Inr (s\<lparr>conns := (conns s)(fd \<mapsto> (b', 0))\<rparr>, [])
    else if c = 10 \<or> length us = 1022 then
      let m = takeWhile (\<lambda>c. c \<noteq> 0) (us @ [10]) in
      if chat_in_table (chat_id m) then \<exists>b'. length b' = 1024 \<and> chat_server_func (Got fd 1 c) s =
        Inr (s\<lparr>conns := (conns s)(fd \<mapsto> (b', 0))\<rparr>,
          [if conns s (chat_id m) \<noteq> None then Tcp_write (chat_id m) m else Tcp_write fd not_online])
      else chat_server_func (Got fd 1 c) s = Inl OutOfBounds
    else \<exists>b'. holds 1024 (us @ [c]) b' \<and> chat_server_func (Got fd 1 c) s = Inr (s\<lparr>conns := (conns s)(fd \<mapsto> (b', length us + 1))\<rparr>, [])"
proof -
  from put_holds [OF assms(3), of c] assms(4) obtain b1 where b1: "buf_put (length us) c b = Inr b1" "holds 1024 (us @ [c]) b1" by auto
  have l: "length b1 = 1024" using b1(2) by (simp add: holds_def)
  have online: "chat_client_fd s (nat i) = 1 \<longleftrightarrow> conns s i \<noteq> None" if "chat_in_table i" for i
    using assms(1) that by (auto simp: chat_inv_def chat_in_table_def)
  show ?thesis
  proof (cases "(c = 10 \<or> length us = 1022) \<and> us \<noteq> []")
    case True
    then show ?thesis using assms(2) b1(1) chat_message_ok [OF b1(2), of fd s] assms(4)
      by (auto simp: Let_def online) blast+
  next
    case False
    with assms(2) b1 l show ?thesis by auto
  qed
qed

lemma chat_func_inv:
  assumes "chat_inv s" and "chat_server_func ev s = Inr (s', acts)"
  shows "chat_inv s'"
proof (cases ev)
  case (Accepted arg)
  with assms chat_inv_join show ?thesis by (auto simp: Let_def split: if_splits)
next
  case (Got fd n c)
  show ?thesis
  proof (cases "conns s fd")
    case None
    with assms Got show ?thesis by simp
  next
    case (Some bc)
    obtain b cnt where "conns s fd = Some (b, cnt)" using Some by (cases bc) simp
    with chat_invD [OF assms(1) this] obtain us where
      us: "holds 1024 us b" "conns s fd = Some (b, length us)" "length us < 1023" "chat_in_table fd" by metis
    show ?thesis
    proof (cases "n = 1")
      case True
      have keep: "chat_inv (s\<lparr>conns := (conns s)(fd \<mapsto> (b', length vs))\<rparr>)" if "holds 1024 vs b'" "length vs < 1023" for b' vs
        by (rule chat_inv_conn [OF assms(1) _ that]) (use us in simp)
      show ?thesis using chat_byte [OF assms(1) us(2,1,3), of c] assms(2) us(3) keep [of "[]"] keep [of "us @ [c]"]
        unfolding Got True by (auto simp: Let_def split: if_splits)
    next
      case False
      with assms Got us show ?thesis by (auto simp: chat_inv_leave split: if_splits)
    qed
  qed
qed

text \<open>The events that cannot make the server fault: all but a wrong argument, a wrong count and a wrong number.\<close>

definition chat_safe :: "chat_event \<Rightarrow> chat \<Rightarrow> bool" where
  "chat_safe ev s \<longleftrightarrow>
     (case ev of
        Accepted arg \<Rightarrow> chat_in_table (fd_of arg)
      | Got fd n c \<Rightarrow>
          n \<le> 1 \<and>
          (n = 1 \<longrightarrow> (case conns s fd of None \<Rightarrow> True
             | Some (b, cnt) \<Rightarrow>
                 (c = 10 \<or> cnt = 1022) \<and> cnt \<noteq> 0 \<longrightarrow>
                 chat_in_table (chat_id (takeWhile (\<lambda>c. c \<noteq> 0) (map the (take cnt b) @ [10]))))))"

lemma chat_func_safe:
  assumes "chat_inv s" and "chat_safe ev s"
  shows "\<exists>s' acts. chat_server_func ev s = Inr (s', acts)"
proof (cases ev)
  case (Accepted arg)
  with assms show ?thesis by (simp add: chat_safe_def Let_def)
next
  case (Got fd n c)
  show ?thesis
  proof (cases "conns s fd")
    case None
    with Got show ?thesis by simp
  next
    case (Some bc)
    obtain b cnt where bc: "conns s fd = Some (b, cnt)" using Some by (cases bc) simp
    with chat_invD [OF assms(1) this] obtain us where
      us: "length us = cnt" "holds 1024 us b" "conns s fd = Some (b, length us)" "length us < 1023" "chat_in_table fd" by metis
    have m: "map the (take cnt b) = us" using us(1,2) by (auto simp: holds_def)
    show ?thesis
    proof (cases "n = 1")
      case True
      with Got assms(2) bc m us(1) have "(c = 10 \<or> length us = 1022) \<and> us \<noteq> [] \<longrightarrow>
          chat_in_table (chat_id (takeWhile (\<lambda>c. c \<noteq> 0) (us @ [10])))" by (auto simp: chat_safe_def)
      with chat_byte [OF assms(1) us(3,2,4), of c] Got True show ?thesis
        by (auto simp: Let_def simp del: chat_server_func.simps split: if_splits)
    next
      case False
      with Got us assms(2) show ?thesis by (simp add: chat_safe_def)
    qed
  qed
qed

interpretation chat: fallible_machine chat_server_func chat_inv chat_safe
  by unfold_locales (auto intro: chat_func_inv chat_func_safe)

lemma chat_run_inv: "chat_inv s \<Longrightarrow> chat_run evs s = Inr (s', acts) \<Longrightarrow> chat_inv s'"
  unfolding chat_run_def by (rule chat.run_inv)

lemma chat_init_inv: "chat_inv chat_init"
  by (simp add: chat_inv_def chat_init_def)

section \<open>The server\<close>

text \<open>
  (C32) The table of the chat server is right whatever the connections send and however their bytes
  interleave: in every state it reaches, an entry is 1 exactly if a connection with this descriptor
  is open, every open descriptor is inside the table, and a message under way has fewer than 1023
  bytes of the buffer of 1024.
\<close>

theorem chat_table_right:
  assumes "chat_run evs chat_init = Inr (s, acts)"
  shows "(\<forall>i. chat_client_fd s i = (if conns s (int i) = None then 0 else 1)) \<and>
    (\<forall>fd b cnt. conns s fd = Some (b, cnt) \<longrightarrow> 0 \<le> fd \<and> fd < 1048576 \<and> length b = 1024 \<and> cnt < 1023)"
  using chat_run_inv [OF chat_init_inv assms] by (auto simp: chat_inv_def chat_in_table_def CHAT_FDS_def holds_def)

theorem chat_table_right_witness:
  "\<exists>s acts. chat_run [Accepted 7, Got 7 1 65] chat_init = Inr (s, acts) \<and> chat_client_fd s 7 = 1 \<and> chat_client_fd s 8 = 0"
proof -
  have "\<exists>s acts. chat_run [Accepted 7, Got 7 1 65] chat_init = Inr (s, acts) \<and> conns s 7 \<noteq> None \<and> conns s 8 = None"
    by (simp add: chat_init_def fd_of_def chat_in_table_def CHAT_FDS_def buf_put_def)
  then obtain s acts where s: "chat_run [Accepted 7, Got 7 1 65] chat_init = Inr (s, acts)" "conns s 7 \<noteq> None" "conns s 8 = None"
    by blast
  from chat_table_right [OF s(1), THEN conjunct1, THEN spec, of 7] chat_table_right [OF s(1), THEN conjunct1, THEN spec, of 8] s
  show ?thesis by auto
qed

text \<open>When a byte leads to a fault in a state with the invariant.\<close>

lemma chat_fault_iff:
  assumes "chat_inv s" and "conns s fd = Some (b, cnt)" and "n \<le> 1"
  shows "chat_server_func (Got fd n c) s = Inl f \<longleftrightarrow>
    f = OutOfBounds \<and> n = 1 \<and> (c = 10 \<or> cnt = 1022) \<and> cnt \<noteq> 0 \<and>
    \<not> chat_in_table (chat_id (takeWhile (\<lambda>c. c \<noteq> 0) (map the (take cnt b) @ [10])))"
proof -
  from chat_invD [OF assms(1,2)] obtain us where
    us: "length us = cnt" "holds 1024 us b" "conns s fd = Some (b, length us)" "length us < 1023" "chat_in_table fd"
    using assms(2) by metis
  have m: "map the (take cnt b) = us" using us(1,2) by (auto simp: holds_def)
  show ?thesis
  proof (cases "n = 1")
    case True
    with chat_byte [OF assms(1) us(3,2,4), of c] us(1) m show ?thesis by (auto simp: Let_def split: if_splits)
  next
    case False
    with us assms(3) show ?thesis by simp
  qed
qed

text \<open>
  The events that are wrong: a coroutine for a descriptor outside the table (the loop that accepts makes one with
  -1 when \<open>accept\<close> fails), and a byte of an open connection that ends a message, by a newline or by filling
  the buffer, whose number is outside the table.
\<close>

definition chat_bad :: "chat_event \<Rightarrow> chat \<Rightarrow> bool" where
  "chat_bad ev s \<longleftrightarrow>
     (case ev of
        Accepted arg \<Rightarrow> fd_of arg < 0 \<or> 1048576 \<le> fd_of arg
      | Got fd n c \<Rightarrow> n = 1 \<and> (\<exists>b cnt. conns s fd = Some (b, cnt) \<and> (c = 10 \<or> cnt = 1022) \<and> cnt \<noteq> 0 \<and>
          (let i = chat_id (takeWhile (\<lambda>c. c \<noteq> 0) (map the (take cnt b) @ [10])) in i < 0 \<or> 1048576 \<le> i)))"

lemma chat_bad_faults:
  assumes "chat_inv s" and "case ev of Accepted arg \<Rightarrow> True | Got fd n c \<Rightarrow> n \<le> 1"
  shows "chat_server_func ev s = Inl f \<longleftrightarrow> f = OutOfBounds \<and> chat_bad ev s"
proof (cases ev)
  case (Accepted arg)
  then show ?thesis by (auto simp: chat_bad_def chat_in_table_def CHAT_FDS_def Let_def)
next
  case (Got fd n c)
  show ?thesis
  proof (cases "conns s fd")
    case None
    with Got show ?thesis by (simp add: chat_bad_def)
  next
    case (Some bc)
    obtain b cnt where b: "conns s fd = Some (b, cnt)" using Some by (cases bc) simp
    have "n \<le> 1" using assms(2) Got by simp
    from chat_fault_iff [OF assms(1) b this, of c f] b Got show ?thesis
      by (auto simp: chat_bad_def chat_in_table_def CHAT_FDS_def Let_def)
  qed
qed

text \<open>
  (C33) When the chat server goes wrong: if no read of one byte returns more than 1, a run faults exactly if it comes
  to a wrong event, a descriptor outside the table (as -1, from a failed \<open>accept\<close>) or the end of a message
  whose number is outside the table; the fault is an access outside \<open>chat_client_fd\<close>, and nothing before it faulted.
\<close>

theorem chat_only_fault:
  assumes "list_all (\<lambda>ev. case ev of Accepted arg \<Rightarrow> True | Got fd n c \<Rightarrow> n \<le> 1) evs"
  shows "chat_run evs chat_init = Inl f \<longleftrightarrow>
    f = OutOfBounds \<and> (\<exists>us ev vs s acts. evs = us @ ev # vs \<and> chat_run us chat_init = Inr (s, acts) \<and> chat_bad ev s)"
proof
  assume "chat_run evs chat_init = Inl f"
  with chat.run_fault [OF chat_init_inv] obtain us ev vs s acts where
    e: "evs = us @ ev # vs" "chat_run us chat_init = Inr (s, acts)" "chat_inv s" "chat_server_func ev s = Inl f"
    unfolding chat_run_def by blast
  from chat_bad_faults [OF e(3)] assms e(1,4) have "f = OutOfBounds \<and> chat_bad ev s" by simp
  with e(1,2) show "f = OutOfBounds \<and> (\<exists>us ev vs s acts. evs = us @ ev # vs \<and> chat_run us chat_init = Inr (s, acts) \<and> chat_bad ev s)"
    by blast
next
  assume "f = OutOfBounds \<and> (\<exists>us ev vs s acts. evs = us @ ev # vs \<and> chat_run us chat_init = Inr (s, acts) \<and> chat_bad ev s)"
  then obtain us ev vs s acts where
    e: "f = OutOfBounds" "evs = us @ ev # vs" "chat_run us chat_init = Inr (s, acts)" "chat_bad ev s" by blast
  have "chat_server_func ev s = Inl OutOfBounds"
    using chat_bad_faults [OF chat_run_inv [OF chat_init_inv e(3)], of ev OutOfBounds] assms e(2,4) by simp
  with e(1-3) show "chat_run evs chat_init = Inl f" by (simp add: chat_run_append del: chat_server_func.simps)
qed

text \<open>A client that sends \<open>-1\<close>, and an \<open>accept\<close> that fails, make the server use the entry in front of its table.\<close>

theorem chat_only_fault_witness:
  "chat_run [Accepted 7, Got 7 1 45, Got 7 1 49, Got 7 1 10] chat_init = Inl OutOfBounds \<and>
   chat_run [Accepted 7, Accepted 0xFFFFFFFF] chat_init = Inl OutOfBounds"
proof
  define b :: buffer where "b = (replicate 1024 None)[0 := Some 45, 1 := Some 49]"
  have "\<exists>s acts. chat_run [Accepted 7, Got 7 1 45, Got 7 1 49] chat_init = Inr (s, acts) \<and> conns s 7 = Some (b, 2)"
    by (simp add: b_def chat_init_def fd_of_def chat_in_table_def CHAT_FDS_def buf_put_def)
  then obtain s acts where s: "chat_run [Accepted 7, Got 7 1 45, Got 7 1 49] chat_init = Inr (s, acts)" "conns s 7 = Some (b, 2)"
    by blast
  have "map the (take 2 b) = [45, 49]" by (simp add: b_def take_update_swap numeral_2_eq_2)
  then have bad: "chat_bad (Got 7 1 10) s" using s(2) by (simp add: chat_bad_def chat_id_def sscanf_d_def)
  have "list_all (\<lambda>ev. case ev of Accepted arg \<Rightarrow> True | Got fd n c \<Rightarrow> n \<le> 1) [Accepted 7, Got 7 1 45, Got 7 1 49, Got 7 1 10]" by simp
  from chat_only_fault [OF this, of OutOfBounds] bad s(1)
  show "chat_run [Accepted 7, Got 7 1 45, Got 7 1 49, Got 7 1 10] chat_init = Inl OutOfBounds"
    by (metis append_Cons append_Nil)
next
  obtain s acts where s: "chat_run [Accepted 7] chat_init = Inr (s, acts)"
    by (simp add: chat_init_def fd_of_def chat_in_table_def CHAT_FDS_def)
  have bad: "chat_bad (Accepted 0xFFFFFFFF) s" by (simp add: chat_bad_def fd_of_def to_int_def)
  have "list_all (\<lambda>ev. case ev of Accepted arg \<Rightarrow> True | Got fd n c \<Rightarrow> n \<le> 1) [Accepted 7, Accepted 0xFFFFFFFF]" by simp
  from chat_only_fault [OF this, of OutOfBounds] bad s
  show "chat_run [Accepted 7, Accepted 0xFFFFFFFF] chat_init = Inl OutOfBounds" by (metis append_Cons append_Nil)
qed

lemma chat_line:
  assumes "chat_inv s" and "conns s fd = Some (b, length us)" and "holds 1024 us b" and "10 \<notin> set xs" and "length us + length xs < 1022"
  shows "\<exists>b'. holds 1024 (us @ xs) b' \<and>
    chat_run (map (Got fd 1) xs) s = Inr (s\<lparr>conns := (conns s)(fd \<mapsto> (b', length us + length xs))\<rparr>, [])"
  using assms
proof (induction xs arbitrary: s b us)
  case Nil
  have "s\<lparr>conns := (conns s)(fd \<mapsto> (b, length us))\<rparr> = s" using Nil.prems(2) by (simp add: fun_upd_idem)
  with Nil.prems show ?case by (intro exI [of _ b]) (simp add: fun_upd_def)
next
  case (Cons x xs)
  from chat_byte [OF Cons.prems(1-3), of x] Cons.prems(4,5) obtain b1 where
    b1: "holds 1024 (us @ [x]) b1" "chat_server_func (Got fd 1 x) s = Inr (s\<lparr>conns := (conns s)(fd \<mapsto> (b1, length us + 1))\<rparr>, [])"
    by (auto simp: Let_def)
  let ?s = "s\<lparr>conns := (conns s)(fd \<mapsto> (b1, length us + 1))\<rparr>"
  have inv: "chat_inv ?s" using chat_func_inv [OF Cons.prems(1) b1(2)] .
  have "\<exists>b'. holds 1024 ((us @ [x]) @ xs) b' \<and> chat_run (map (Got fd 1) xs) ?s =
      Inr (?s\<lparr>conns := (conns ?s)(fd \<mapsto> (b', length (us @ [x]) + length xs))\<rparr>, [])"
    by (rule Cons.IH [OF inv _ b1(1)]) (use Cons.prems in auto)
  then obtain b' where b': "holds 1024 (us @ x # xs) b'" "chat_run (map (Got fd 1) xs) ?s =
      Inr (s\<lparr>conns := (conns s)(fd \<mapsto> (b', length us + length (x # xs)))\<rparr>, [])" by auto
  then show ?case by (intro exI [of _ b']) (simp add: b1(2) fun_upd_def del: chat_server_func.simps)
qed

text \<open>
  (C34) Messages are delivered: when a connection whose buffer is empty sends a line without 0 bytes
  of at most 1021 bytes and a newline, and the line starts with the descriptor of an open
  connection, then exactly this line is written to that connection; if the number is inside the
  table but not an open connection, the sender gets \<open>not online\<close>. Either way its buffer is
  empty again and nothing else changes.
\<close>

theorem chat_delivers:
  assumes "chat_run evs chat_init = Inr (s, acts)" and "conns s fd = Some (b, 0)"
    and "xs \<noteq> []" and "10 \<notin> set xs" and "0 \<notin> set xs" and "length xs < 1022"
    and "sscanf_d (xs @ [10]) = Some i" and "0 \<le> i" and "i < 1048576"
  shows "\<exists>b'. chat_run (map (Got fd 1) (xs @ [10])) s = Inr (s\<lparr>conns := (conns s)(fd \<mapsto> (b', 0))\<rparr>,
    [if conns s i \<noteq> None then Tcp_write i (xs @ [10]) else Tcp_write fd not_online])"
proof -
  have inv: "chat_inv s" by (rule chat_run_inv [OF chat_init_inv assms(1)])
  have "holds 1024 [] b" using chat_invD [OF inv assms(2)] by (metis holds_def holds_Nil)
  from chat_line [OF inv _ this assms(4)] assms(2,6) obtain b1 where
    b1: "holds 1024 xs b1" "chat_run (map (Got fd 1) xs) s = Inr (s\<lparr>conns := (conns s)(fd \<mapsto> (b1, length xs))\<rparr>, [])" by auto
  let ?s = "s\<lparr>conns := (conns s)(fd \<mapsto> (b1, length xs))\<rparr>"
  have m: "takeWhile (\<lambda>c. c \<noteq> 0) (xs @ [10]) = xs @ [10]" using assms(5) by (auto simp: takeWhile_eq_all_conv)
  have "chat_inv ?s" by (rule chat_run_inv [OF inv b1(2)])
  moreover have "chat_id (xs @ [10]) = i" "chat_in_table i" using assms(7-9) by (simp_all add: chat_id_def chat_in_table_def CHAT_FDS_def)
  ultimately obtain b' where
    "chat_server_func (Got fd 1 10) ?s = Inr (?s\<lparr>conns := (conns ?s)(fd \<mapsto> (b', 0))\<rparr>,
      [if conns ?s i \<noteq> None then Tcp_write i (xs @ [10]) else Tcp_write fd not_online])"
    using chat_byte [of ?s fd b1 xs 10] b1(1) assms(3,6) by (auto simp: m Let_def simp del: chat_server_func.simps)
  moreover have "conns ?s i \<noteq> None \<longleftrightarrow> conns s i \<noteq> None" using assms(2) by auto
  ultimately show ?thesis using b1(2)
    by (intro exI [of _ b']) (simp only: chat_run_append map_append, simp del: chat_server_func.simps)
qed

text \<open>Two connections, 7 and 8; 7 sends a line to 8.\<close>

theorem chat_delivers_witness:
  "\<exists>s s' acts. chat_run [Accepted 7, Accepted 8] chat_init = Inr (s, acts) \<and>
     chat_run (map (Got 7 1) [56, 32, 104, 105, 10]) s = Inr (s', [Tcp_write 8 [56, 32, 104, 105, 10]])"
proof -
  have "\<exists>s acts. chat_run [Accepted 7, Accepted 8] chat_init = Inr (s, acts) \<and>
      conns s 7 = Some (replicate 1024 None, 0) \<and> conns s 8 \<noteq> None"
    by (simp add: chat_init_def fd_of_def chat_in_table_def CHAT_FDS_def)
  then obtain s acts where s: "chat_run [Accepted 7, Accepted 8] chat_init = Inr (s, acts)"
    "conns s 7 = Some (replicate 1024 None, 0)" "conns s 8 \<noteq> None" by blast
  have "sscanf_d ([56, 32, 104, 105] @ [10]) = Some 8" by (simp add: sscanf_d_def)
  from chat_delivers [OF s(1,2) _ _ _ _ this] s obtain b' where
    "chat_run (map (Got 7 1) ([56, 32, 104, 105] @ [10])) s =
      Inr (s\<lparr>conns := (conns s)(7 \<mapsto> (b', 0))\<rparr>, [if conns s 8 \<noteq> None then Tcp_write 8 ([56, 32, 104, 105] @ [10]) else Tcp_write 7 not_online])"
    by auto
  then have "chat_run (map (Got 7 1) [56, 32, 104, 105, 10]) s =
      Inr (s\<lparr>conns := (conns s)(7 \<mapsto> (b', 0))\<rparr>, [Tcp_write 8 [56, 32, 104, 105, 10]])"
    using s(3) by (simp only: append.simps if_True not_False_eq_True)
  with s(1) show ?thesis by blast
qed

end
