(* ===== verification/Example_Clients.thy ===== *)
theory Example_Clients
  imports Example_Chat
begin

text \<open>
  The clients under \<^verbatim>\<open>src/example\<close>: \<open>connector\<close> of \<^verbatim>\<open>echo_client.c\<close> and of \<^verbatim>\<open>infinite_connector.c\<close>. As for the
  servers, the results of the calls of the library are arguments; a read gives the bytes it stores.
\<close>

section \<open>Printing\<close>

text \<open>\<open>%d\<close> of a number that is not negative, as \<open>rand\<close> gives it.\<close>

fun dec :: "nat \<Rightarrow> u8 list" where
  "dec n = (if n < 10 then [of_nat (48 + n)] else dec (n div 10) @ [of_nat (48 + n mod 10)])"

declare dec.simps [simp del]

text \<open>\<open>snprintf\<close> to the start of a buffer, and a read into it.\<close>

definition buf_snprintf :: "nat \<Rightarrow> u8 list \<Rightarrow> buffer \<Rightarrow> buffer" where
  "buf_snprintf k s b = map Some (take (k - 1) s) @ Some 0 # drop (Suc (length (take (k - 1) s))) b"

definition buf_read :: "u8 list \<Rightarrow> buffer \<Rightarrow> buffer" where
  "buf_read bs b = map Some bs @ drop (length bs) b"

definition digit :: "u8 \<Rightarrow> bool" where
  "digit c \<longleftrightarrow> 48 \<le> c \<and> c \<le> 57"

lemma dec_digits: "list_all digit (dec n)"
proof (induction n rule: dec.induct)
  case (1 n)
  have "digit (of_nat (48 + k))" if "k < 10" for k
    using that by (auto simp: digit_def word_le_nat_alt unat_word_ariths unat_of_nat)
  with 1 show ?case by (subst dec.simps) auto
qed

lemma dec_length: "n < 10 ^ Suc k \<Longrightarrow> length (dec n) \<le> Suc k"
proof (induction k arbitrary: n)
  case 0
  then show ?case by (subst dec.simps) simp
next
  case (Suc k)
  then have "n div 10 < 10 ^ Suc k" by (simp add: div_less_iff_less_mult)
  from Suc.IH [OF this] show ?case by (subst dec.simps) simp
qed

lemma dec_not_Nil: "dec n \<noteq> []"
  by (subst dec.simps) simp

lemma dec_value: "foldl (\<lambda>n c. 10 * n + (uint c - 48)) 0 (dec n) = int n"
proof (induction n rule: dec.induct)
  case (1 n)
  have u: "uint (of_nat k :: u8) = int k" if "k < 256" for k using that by (simp add: unsigned_of_nat take_bit_nat_eq_self)
  have d: "uint (of_nat (48 + k) :: u8) = 48 + int k" if "k < 10" for k using u [of "48 + k"] that by simp
  show ?case
  proof (cases "n < 10")
    case True
    with d [of n] show ?thesis by (subst dec.simps) simp
  next
    case False
    moreover have "10 * int (n div 10) + int (n mod 10) = int n" by (simp add: zdiv_int zmod_int)
    ultimately show ?thesis using 1 d [of "n mod 10"] by (subst dec.simps) simp
  qed
qed

lemma dec_no_sep: "10 \<notin> set (dec n)" "0 \<notin> set (dec n)"
  using dec_digits [of n] by (auto simp: list_all_iff digit_def)

text \<open>What is printed with \<open>%d\<close> is read back with \<open>%d\<close>.\<close>

lemma scan_dec: "rest = [] \<or> \<not> digit (hd rest) \<Longrightarrow> sscanf_d (dec n @ rest) = Some (int n)"
proof -
  assume r: "rest = [] \<or> \<not> digit (hd rest)"
  obtain c cs where c: "dec n = c # cs" using dec_not_Nil by (cases "dec n") auto
  have dc: "digit c" using dec_digits [of n] by (simp add: c)
  then have "\<not> (c = 32 \<or> 9 \<le> c \<and> c \<le> 13)" "c \<noteq> 45" "c \<noteq> 43" by (auto simp: digit_def word_le_nat_alt)
  then have w: "dropWhile (\<lambda>c. c = 32 \<or> 9 \<le> c \<and> c \<le> 13) (dec n @ rest) = dec n @ rest"
    and s: "(case dec n @ rest of [] \<Rightarrow> 1 | c # r \<Rightarrow> if c = 45 then - 1 else 1) = (1 :: int)"
      "(case dec n @ rest of [] \<Rightarrow> [] | c # r \<Rightarrow> if c = 45 \<or> c = 43 then r else dec n @ rest) = dec n @ rest"
    unfolding c by auto
  have t: "takeWhile (\<lambda>c. 48 \<le> c \<and> c \<le> 57) (dec n @ rest) = dec n"
    using r dec_digits [of n] by (cases rest) (auto simp: takeWhile_append list_all_iff digit_def)
  show ?thesis by (simp only: sscanf_d_def Let_def w s t dec_value dec_not_Nil if_False mult_1)
qed

section \<open>echo_client.c\<close>

text \<open>
  \<open>connector\<close>: \<open>fd\<close> is the result of \<open>crt_tcp_blocked_connect\<close>, \<open>rnd\<close> of \<open>rand\<close>, \<open>nwrite\<close> of \<open>crt_tcp_write\<close>, \<open>nread\<close>
  of \<open>crt_tcp_read\<close>, which stores \<open>bs\<close>. The result has the calls and what is printed.
\<close>

definition echo_connector :: "int \<Rightarrow> nat \<Rightarrow> int \<Rightarrow> int \<Rightarrow> u8 list \<Rightarrow> (client_act list \<times> u8 list option) res" where
  "echo_connector fd rnd nwrite nread bs =
     (if fd < 0 then Inr ([Crt_exit], None)
      else
        let b = buf_snprintf 128 (dec rnd @ [10]) (replicate 128 (Some 0)) in
        bind_res (c_string b) (\<lambda>s.
        bind_res (assert_c (nwrite = int (length s))) (\<lambda>_.
        let b1 = buf_read bs b in
        bind_res (assert_c (nread = int (length s))) (\<lambda>_.
        bind_res (buf_put (nat nread) 0 b1) (\<lambda>b2.
        bind_res (c_string b2) (\<lambda>out. Inr ([Tcp_write fd s, Sock_close fd, Crt_exit], Some out)))))))"

lemma snprintf_string: "length s < k \<Longrightarrow> 0 \<notin> set s \<Longrightarrow> c_string (buf_snprintf k s b) = Inr s"
  by (simp add: buf_snprintf_def c_string_end takeWhile_eq_all_conv) (metis)

lemma dec_line: "rnd < 2147483648 \<Longrightarrow> length (dec rnd @ [10]) \<le> 11"
  using dec_length [of rnd 9] by simp

lemma echo_connector_gets:
  assumes "0 \<le> fd" and "rnd < 2147483648" and "length bs = length (dec rnd @ [10])"
  shows "echo_connector fd rnd (int (length (dec rnd @ [10]))) (int (length (dec rnd @ [10]))) bs =
    Inr ([Tcp_write fd (dec rnd @ [10]), Sock_close fd, Crt_exit], Some (takeWhile (\<lambda>c. c \<noteq> 0) bs))"
proof -
  let ?l = "dec rnd @ [10]" and ?b = "buf_snprintf 128 (dec rnd @ [10]) (replicate 128 (Some 0))"
  have l: "length ?l \<le> 11" "0 \<notin> set ?l" using dec_line [OF assms(2)] dec_no_sep(2) [of rnd] by auto
  then have s: "c_string ?b = Inr ?l" by (intro snprintf_string) auto
  have b: "buf_read bs ?b = map Some bs @ Some 0 # drop (Suc (length ?l)) (replicate 128 (Some 0))"
    using l(1) assms(3) by (simp add: buf_read_def buf_snprintf_def)
  have "buf_put (length ?l) 0 (buf_read bs ?b) = Inr (buf_read bs ?b)"
    unfolding b buf_put_def assms(3) [symmetric] by (simp add: list_update_append del: map_append append_assoc)
  moreover have "c_string (buf_read bs ?b) = Inr (takeWhile (\<lambda>c. c \<noteq> 0) bs)" unfolding b c_string_end ..
  moreover have "nat (1 + int (length (dec rnd))) = Suc (length (dec rnd))" by simp
  ultimately show ?thesis using assms(1) s by (simp add: echo_connector_def Let_def del: append_assoc)
qed

text \<open>
  (C38) What a client of the echo example does, for every outcome of its calls. If it cannot connect, it ends. Otherwise
  it fails one of its assertions exactly if the write or the read did not transfer the whole line, which is its random
  number in decimal and a newline; if both did, it prints the bytes it got, up to a byte 0, and closes. The
  echo server answers this line with the same line, so a client that gets its answer prints the number it sent.
\<close>

theorem echo_client_server:
  assumes "rnd < 2147483648" and "line = dec rnd @ [10]"
  shows "(fd < 0 \<longrightarrow> echo_connector fd rnd nwrite nread bs = Inr ([Crt_exit], None)) \<and>
    (0 \<le> fd \<and> (nwrite \<noteq> int (length line) \<or> nread \<noteq> int (length line)) \<longrightarrow>
      echo_connector fd rnd nwrite nread bs = Inl AssertFailed) \<and>
    (0 \<le> fd \<and> nwrite = int (length line) \<and> nread = int (length line) \<and> length bs = length line \<longrightarrow>
      echo_connector fd rnd nwrite nread bs =
        Inr ([Tcp_write fd line, Sock_close fd, Crt_exit], Some (takeWhile (\<lambda>c. c \<noteq> 0) bs))) \<and>
    echo_func True arg k (map (Pair 1) line @ rs) =
      Some (Inr (k + 1, [Set_nonblock (fd_of arg), Tcp_write (fd_of arg) line, Close (fd_of arg), Crt_exit])) \<and>
    takeWhile (\<lambda>c. c \<noteq> 0) line = line"
proof (intro conjI impI)
  have l: "length line \<le> 11" "0 \<notin> set line" using dec_line [OF assms(1)] dec_no_sep(2) [of rnd] assms(2) by auto
  show t: "takeWhile (\<lambda>c. c \<noteq> 0) line = line" using l(2) by (auto simp: takeWhile_eq_all_conv)
  have "length (dec rnd) + 2 \<le> MAX_BUF_LEN" using l(1) assms(2) by (simp add: MAX_BUF_LEN_def)
  from echo_func_line [OF dec_no_sep(1) this, of arg k rs, folded assms(2), unfolded t] assms(2)
  show "echo_func True arg k (map (Pair 1) line @ rs) =
      Some (Inr (k + 1, [Set_nonblock (fd_of arg), Tcp_write (fd_of arg) line, Close (fd_of arg), Crt_exit]))"
    by (simp split: list.splits)
  have s: "c_string (buf_snprintf 128 line (replicate 128 (Some 0))) = Inr line" using l by (intro snprintf_string) auto
  show "fd < 0 \<Longrightarrow> echo_connector fd rnd nwrite nread bs = Inr ([Crt_exit], None)" by (simp add: echo_connector_def)
  show "0 \<le> fd \<and> (nwrite \<noteq> int (length line) \<or> nread \<noteq> int (length line)) \<Longrightarrow> echo_connector fd rnd nwrite nread bs = Inl AssertFailed"
    using s by (auto simp: echo_connector_def Let_def assms(2) [symmetric] assert_c_def)
  show "0 \<le> fd \<and> nwrite = int (length line) \<and> nread = int (length line) \<and> length bs = length line \<Longrightarrow>
      echo_connector fd rnd nwrite nread bs = Inr ([Tcp_write fd line, Sock_close fd, Crt_exit], Some (takeWhile (\<lambda>c. c \<noteq> 0) bs))"
    using echo_connector_gets [of fd rnd bs] assms by auto
qed

theorem echo_client_server_witness:
  "echo_connector 5 7 2 2 [55, 10] = Inr ([Tcp_write 5 [55, 10], Sock_close 5, Crt_exit], Some [55, 10]) \<and>
   echo_connector 5 7 2 1 [55] = Inl AssertFailed \<and>
   echo_func True 6 0 [(1, 55), (1, 10)] = Some (Inr (1, [Set_nonblock 6, Tcp_write 6 [55, 10], Close 6, Crt_exit]))"
proof -
  have l: "[55, 10] = dec 7 @ [10]" by (simp add: dec.simps)
  have fd: "fd_of 6 = 6" by (simp add: fd_of_def)
  note e = echo_client_server [OF _ l]
  show ?thesis using e [of 5 2 2 "[55, 10]" 6 0 "[]"] e [of 5 2 1 "[55]" 6 0 "[]"] by (simp add: fd)
qed

section \<open>infinite_connector.c\<close>

text \<open>The request of \<open>connector\<close>, with two random numbers in its path.\<close>

definition header :: "nat \<Rightarrow> nat \<Rightarrow> u8 list" where
  "header r1 r2 = map of_char ''GET /'' @ dec r1 @ dec r2 @ map of_char '' HTTP/1.0'' @ [13, 10] @
     map of_char ''User-Agent: curl/7.19.7'' @ [13, 10] @ map of_char ''Host: 122.11.56.5:8080'' @ [13, 10] @
     map of_char ''Accept: */*'' @ [13, 10, 13, 10]"

definition token :: "u8 list" where
  "token = [116, 111, 107, 101, 110]"

fun strstr :: "u8 list \<Rightarrow> u8 list \<Rightarrow> bool" where
  "strstr [] t \<longleftrightarrow> t = []"
| "strstr (c # s) t \<longleftrightarrow> take (length t) (c # s) = t \<or> strstr s t"

text \<open>
  The loop at the label \<open>loop\<close>: the reads of at most 20 bytes until a message with the token comes. \<open>None\<close>
  while it still reads. \<open>alive\<close> is \<open>alive_cnt\<close>.
\<close>

fun token_loop :: "int \<Rightarrow> int \<Rightarrow> buffer \<Rightarrow> (int \<times> u8 list) list \<Rightarrow> (int \<times> client_act list) res option" where
  "token_loop fd alive b [] = None"
| "token_loop fd alive b ((nread, bs) # rs) =
     (if nread < 0 then Some (Inl Aborted)
      else
        (case bind_res (buf_put (nat nread) 0 (buf_read bs b)) (\<lambda>b1. map_sum id (Pair b1) (c_string b1)) of
           Inl f \<Rightarrow> Some (Inl f)
         | Inr (b1, s) \<Rightarrow>
             if strstr s token then Some (Inr (alive - 1, [Sock_close fd, Crt_exit])) else token_loop fd alive b1 rs))"

text \<open>\<open>connector\<close>: the new \<open>alive_cnt\<close> and the calls.\<close>

definition infinite_connector ::
  "int \<Rightarrow> nat \<Rightarrow> nat \<Rightarrow> int \<Rightarrow> int \<Rightarrow> (int \<times> u8 list) list \<Rightarrow> (int \<times> client_act list) res option" where
  "infinite_connector fd r1 r2 nwrite alive rs =
     (let b = buf_snprintf 2048 (header r1 r2) (replicate 2048 (Some 0)) in
      case bind_res (buf_put 2047 0 b) (\<lambda>b1. map_sum id (Pair b1) (c_string b1)) of
        Inl f \<Rightarrow> Some (Inl f)
      | Inr (b1, s) \<Rightarrow>
          if fd < 0 then Some (Inl Aborted)
          else if nwrite \<noteq> int (length s) then Some (Inl Aborted)
          else map_option (map_sum id (\<lambda>(a, acts). (a, Tcp_write fd s # acts))) (token_loop fd (alive + 1) b1 rs))"

text \<open>A read of at most 20 bytes, and the string the loop looks at after it.\<close>

definition short_read :: "int \<times> u8 list \<Rightarrow> bool" where
  "short_read r \<longleftrightarrow> fst r = int (length (snd r)) \<and> length (snd r) \<le> 20"

definition message :: "int \<times> u8 list \<Rightarrow> u8 list" where
  "message r = takeWhile (\<lambda>c. c \<noteq> 0) (snd r)"

lemma read_message:
  assumes "short_read r" and "length b = 2048"
  shows "\<exists>b1. buf_put (nat (fst r)) 0 (buf_read (snd r) b) = Inr b1 \<and> length b1 = 2048 \<and> c_string b1 = Inr (message r)"
proof -
  obtain bs where r: "r = (int (length bs), bs)" "length bs \<le> 20" using assms(1) by (cases r) (auto simp: short_read_def)
  have "drop (length bs) b = b ! length bs # drop (Suc (length bs)) b" using r(2) assms(2) by (simp add: Cons_nth_drop_Suc)
  then have "buf_put (length bs) 0 (buf_read bs b) = Inr (map Some bs @ Some 0 # drop (Suc (length bs)) b)"
    by (simp add: buf_put_def buf_read_def list_update_append)
  with r assms(2) show ?thesis by (simp add: c_string_end message_def)
qed

lemma token_loop_waits:
  assumes "list_all (\<lambda>r. short_read r \<and> \<not> strstr (message r) token) rs" and "length b = 2048"
  shows "\<exists>b1. length b1 = 2048 \<and> token_loop fd alive b (rs @ rs') = token_loop fd alive b1 rs'"
  using assms
proof (induction rs arbitrary: b)
  case Nil
  then show ?case by auto
next
  case (Cons r rs)
  from read_message [of r b] Cons.prems obtain b1 where
    b1: "buf_put (nat (fst r)) 0 (buf_read (snd r) b) = Inr b1" "length b1 = 2048" "c_string b1 = Inr (message r)" by auto
  have "token_loop fd alive b (r # rs @ rs') = token_loop fd alive b1 (rs @ rs')"
    using b1 Cons.prems(1) by (cases r) (auto simp: short_read_def)
  with Cons.IH [of b1] b1(2) Cons.prems(1) show ?case by simp
qed

lemma header_ok:
  assumes "r1 < 2147483648" and "r2 < 2147483648"
  shows "length (header r1 r2) < 2047" and "0 \<notin> set (header r1 r2)"
  using dec_length [of r1 9] dec_length [of r2 9] dec_no_sep(2) assms by (auto simp: header_def)

text \<open>
  (C39) The connector of the load generator waits for its token for ever: it sends its request and
  reads until one read alone contains \<open>token\<close>; then it closes the connection and takes
  itself out of \<open>alive_cnt\<close>. Reads without the token in them never end the loop: neither the end of
  the connection, which gives reads of 0 bytes, nor a token that comes in two pieces.
\<close>

theorem infinite_connector_waits:
  assumes "0 \<le> fd" and "r1 < 2147483648" and "r2 < 2147483648" and "nwrite = int (length (header r1 r2))"
    and "list_all (\<lambda>r. short_read r \<and> \<not> strstr (message r) token) rs"
  shows "infinite_connector fd r1 r2 nwrite alive rs = None \<and>
    (short_read r \<and> strstr (message r) token \<longrightarrow> infinite_connector fd r1 r2 nwrite alive (rs @ r # rs') =
      Some (Inr (alive, [Tcp_write fd (header r1 r2), Sock_close fd, Crt_exit])))"
proof -
  let ?h = "header r1 r2" and ?z = "replicate 2048 (Some 0) :: buffer"
  note h = header_ok [OF assms(2,3)]
  have b: "buf_snprintf 2048 ?h ?z = map Some ?h @ Some 0 # replicate (2047 - length ?h) (Some 0)" using h(1) by (simp add: buf_snprintf_def)
  have p: "buf_put 2047 0 (buf_snprintf 2048 ?h ?z) = Inr (buf_snprintf 2048 ?h ?z)"
  proof -
    have "(map Some ?h @ Some 0 # replicate (2047 - length ?h) (Some 0)) ! 2047 = Some 0" using h(1) by (simp add: nth_append nth_Cons')
    then show ?thesis unfolding b buf_put_def using h(1) by (simp del: list_update_append) (metis list_update_id)
  qed
  have s: "c_string (buf_snprintf 2048 ?h ?z) = Inr ?h" using h by (intro snprintf_string) auto
  have l: "length (buf_snprintf 2048 ?h ?z) = 2048" unfolding b using h(1) by simp
  have run: "infinite_connector fd r1 r2 nwrite alive qs =
      map_option (map_sum id (\<lambda>(a, acts). (a, Tcp_write fd ?h # acts))) (token_loop fd (alive + 1) (buf_snprintf 2048 ?h ?z) qs)" for qs
    using assms(1,4) p s by (simp add: infinite_connector_def)
  from token_loop_waits [OF assms(5) l, of fd "alive + 1" "[]"] have "infinite_connector fd r1 r2 nwrite alive rs = None" unfolding run by auto
  moreover have "infinite_connector fd r1 r2 nwrite alive (rs @ r # rs') = Some (Inr (alive, [Tcp_write fd ?h, Sock_close fd, Crt_exit]))"
    if t: "short_read r" "strstr (message r) token"
  proof -
    from token_loop_waits [OF assms(5) l, of fd "alive + 1" "r # rs'"] obtain b1 where
      b1: "length b1 = 2048" "token_loop fd (alive + 1) (buf_snprintf 2048 ?h ?z) (rs @ r # rs') = token_loop fd (alive + 1) b1 (r # rs')" by auto
    from read_message [OF t(1) b1(1)] t have "token_loop fd (alive + 1) b1 (r # rs') = Some (Inr (alive, [Sock_close fd, Crt_exit]))"
      by (cases r) (auto simp: short_read_def)
    with b1(2) show ?thesis unfolding run by simp
  qed
  ultimately show ?thesis by blast
qed

theorem infinite_connector_waits_witness:
  "infinite_connector 5 17 4 (int (length (header 17 4))) 0 [(0, []), (3, [116, 111, 107]), (2, [101, 110])] = None \<and>
   infinite_connector 5 17 4 (int (length (header 17 4))) 0 [(0, []), (5, token)] =
     Some (Inr (0, [Tcp_write 5 (header 17 4), Sock_close 5, Crt_exit]))"
proof (intro conjI)
  show "infinite_connector 5 17 4 (int (length (header 17 4))) 0 [(0, []), (3, [116, 111, 107]), (2, [101, 110])] = None"
    by (rule infinite_connector_waits [THEN conjunct1]) (simp_all add: short_read_def message_def token_def)
  show "infinite_connector 5 17 4 (int (length (header 17 4))) 0 [(0, []), (5, token)] =
      Some (Inr (0, [Tcp_write 5 (header 17 4), Sock_close 5, Crt_exit]))"
    using infinite_connector_waits [of 5 17 4 "int (length (header 17 4))" "[(0, [])]" 0 "(5, token)" "[]", THEN conjunct2]
    by (simp add: short_read_def message_def token_def)
qed

section \<open>The main functions\<close>

text \<open>\<open>atoi\<close>, for numbers that fit in an \<open>int\<close>, and \<open>htons\<close> on a little-endian machine.\<close>

definition atoi :: "u8 list \<Rightarrow> int" where
  "atoi s = (case sscanf_d s of None \<Rightarrow> 0 | Some n \<Rightarrow> n)"

definition htons :: "in_port_t \<Rightarrow> in_port_t" where
  "htons x = push_bit 8 x OR drop_bit 8 x"

text \<open>
  \<open>main\<close> of both clients up to the loop in which it waits: it leaves with a code, or has set \<open>ip\<close> and \<open>port\<close>
  and created the connectors, the \<open>i\<close>th with the memory \<open>mems i\<close>. \<open>inet_addr\<close> is the function of the C library.
\<close>

datatype client_main = Main_exit int | Main_waits in_addr_t in_port_t

definition connect_main ::
  "'w posix \<Rightarrow> thread \<Rightarrow> (thread \<Rightarrow> int) \<Rightarrow> 'w \<Rightarrow> (u8 list \<Rightarrow> in_addr_t) \<Rightarrow> u8 list list \<Rightarrow> uptr \<Rightarrow>
   (nat \<Rightarrow> (addr \<times> task) option) \<Rightarrow> (client_main \<times> 'w coroutine_env_s) res" where
  "connect_main P th en w inet_addr argv connector mems =
     bind_res (init_coroutine_env P th 0 en w) (\<lambda>(_, e).
       if length argv \<noteq> 4 then Inr (Main_exit (- 1), e)
       else
         let ip = inet_addr (argv ! 1); port = htons (of_int (atoi (argv ! 2))); times = atoi (argv ! 3)
         in bind_res (create_each None connector (map (\<lambda>i. (of_nat i, mems i)) [0..<nat times]) e) (\<lambda>e1.
              Inr (Main_waits ip port, e1)))"

text \<open>
  The last loop of \<open>main\<close> in \<^verbatim>\<open>infinite_connector.c\<close>: \<open>cs\<close> are the values of \<open>alive_cnt\<close> it finds, one every ten
  seconds; \<open>None\<close> if it is still waiting after them.
\<close>

fun alive_loop :: "int list \<Rightarrow> int option" where
  "alive_loop [] = None"
| "alive_loop (c # cs) = (if c = 0 then Some 0 else alive_loop cs)"

definition infinite_main ::
  "'w posix \<Rightarrow> thread \<Rightarrow> (thread \<Rightarrow> int) \<Rightarrow> 'w \<Rightarrow> (u8 list \<Rightarrow> in_addr_t) \<Rightarrow> u8 list list \<Rightarrow> uptr \<Rightarrow>
   (nat \<Rightarrow> (addr \<times> task) option) \<Rightarrow> int list \<Rightarrow> (int option \<times> 'w coroutine_env_s) res" where
  "infinite_main P th en w inet_addr argv connector mems cs =
     bind_res (connect_main P th en w inet_addr argv connector mems) (\<lambda>(m, e).
       Inr (case m of Main_exit c \<Rightarrow> Some c | Main_waits _ _ \<Rightarrow> alive_loop cs, e))"

lemma alive_loop_exits: "alive_loop cs = (if 0 \<in> set cs then Some 0 else None)"
  by (induction cs) auto

text \<open>A client that is given the port of the servers, 2000, connects to the port they listen on.\<close>

lemma htons_twice: "htons (htons x) = x"
  by (rule bit_word_eqI) (auto simp: htons_def bit_simps)

lemma atoi_server_port: "htons (of_int (atoi (dec 2000))) = server_port"
  using scan_dec [of "[]" 2000] by (simp add: atoi_def htons_def server_port_def)

text \<open>
  With three arguments \<open>main\<close> creates as many connectors as the last one says, in order, each of which
  gets its own number back out of its pointer argument; with another number of arguments it leaves
  with -1 and creates nothing.
\<close>

lemma clients_created:
  assumes "init_coroutine_env P th 0 en w = Inr (fds, e)" and "sched e []" and "tasks e = Map.empty"
    and "inj ad" and "length argv = 4" and "argv ! 3 = dec n" and "n < 2147483648"
  shows "\<exists>e1. connect_main P th en w inet argv c (\<lambda>i. Some (ad i, junk i)) =
      Inr (Main_waits (inet (argv ! 1)) (htons (of_int (atoi (argv ! 2)))), e1) \<and>
    sched e1 (map ad [0..<n]) \<and>
    (\<forall>i<n. enters COROUTINE_STACK_SIZE c (of_nat i) (tasks e1 (ad i)) \<and> fd_of (of_nat i) = int i)"
proof -
  let ?ms = "map (\<lambda>i. (ad i, junk i)) [0..<n]" and ?us = "map of_nat [0..<n] :: uptr list"
  have t: "atoi (argv ! 3) = int n" using scan_dec [of "[]" n] assms(6) by (simp add: atoi_def)
  have z: "map (\<lambda>i. (of_nat i, Some (ad i, junk i))) [0..<n] = zip ?us (map Some ?ms)"
    by (simp add: zip_map_map zip_same_conv_map)
  have d: "distinct (map fst ?ms)" using assms(4) by (simp add: distinct_map comp_def inj_on_def inj_def)
  from create_all [OF assms(2) d, of ?us None c] assms(3) obtain e1 where
    e1: "create_each None c (zip ?us (map Some ?ms)) e = Inr e1" "sched e1 ([] @ map fst ?ms)"
      "list_all2 (\<lambda>x (a, _). enters (attr_size None) c x (tasks e1 a)) ?us ?ms" by auto
  have "enters COROUTINE_STACK_SIZE c (of_nat i) (tasks e1 (ad i))" if "i < n" for i
    using e1(3) that unfolding list_all2_conv_all_nth by (auto simp: attr_size_def)
  moreover have "fd_of (of_nat i) = int i" if "i < n" for i
    using that assms(7) by (simp add: fd_of_def unsigned_of_nat take_bit_nat_eq_self)
  ultimately show ?thesis using assms(1,5) t e1(1,2) z by (simp add: connect_main_def comp_def)
qed

lemma clients_usage:
  assumes "init_coroutine_env P th 0 en w = Inr (fds, e)" and "length argv \<noteq> 4"
  shows "connect_main P th en w inet argv c mems = Inr (Main_exit (- 1), e) \<and>
    infinite_main P th en w inet argv c mems cs = Inr (Some (- 1), e)"
  using assms by (simp add: connect_main_def infinite_main_def)

end
