(* ===== verification/Example_Pingpong.thy ===== *)
theory Example_Pingpong
  imports Acoro_Client
begin

text \<open>
  \<^verbatim>\<open>src/example/sem_pingpong.c\<close>: two coroutines that wake each other through two semaphores, run by
  the manager on the queues and semaphores of the library. The loop index of a suspended coroutine,
  which its stack keeps, is in \<open>pp_frames\<close>; the bytes \<open>master\<close> has written to the pipe of \<open>pingpong\<close> are
  in \<open>pp_pipe\<close>.
\<close>

section \<open>The program\<close>

definition NUM :: nat where "NUM = 1000000"

datatype pp_frame = Master nat | Slave nat

record 'w pp = "'w client" +
  pp_sem0 :: crt_sem_t
  pp_sem1 :: crt_sem_t
  pp_frames :: "addr \<Rightarrow> pp_frame option"
  pp_pipe :: "u8 list"

text \<open>The current coroutine is suspended inside \<open>crt_sem_wait\<close>.\<close>

definition pp_suspend :: "pp_frame \<Rightarrow> 'w pp \<Rightarrow> 'w pp" where
  "pp_suspend f p = p\<lparr>pp_frames := (\<lambda>a. if curr_task_ptr (cl_env p) = Some a then Some f else pp_frames p a)\<rparr>"

text \<open>The loop of \<open>slave\<close> from its test; a slave that is resumed is in \<open>crt_sem_wait\<close> again.\<close>

function slave_loop :: "nat \<Rightarrow> 'w pp \<Rightarrow> 'w pp res" where
  "slave_loop i p =
     (if i < NUM then
        bind_res (crt_sem_wait (pp_sem0 p) (cl_env p)) (\<lambda>(r, s0, e).
          if r then
            bind_res (crt_sem_post (pp_sem1 p) e) (\<lambda>(s1, e1). slave_loop (i + 1) (p\<lparr>cl_env := e1, pp_sem0 := s0, pp_sem1 := s1\<rparr>))
          else Inr (pp_suspend (Slave i) (p\<lparr>cl_env := e, pp_sem0 := s0\<rparr>)))
      else bind_res (crt_exit (cl_env p)) (\<lambda>e. Inr (p\<lparr>cl_env := e\<rparr>)))"
  by pat_completeness auto
termination by (relation "measure (\<lambda>(i, _). NUM - i)") auto

text \<open>The loop of \<open>master\<close> from its test, and what it does when it is resumed in \<open>crt_sem_wait\<close>.\<close>

function master_loop :: "nat \<Rightarrow> 'w pp \<Rightarrow> 'w pp res" where
  "master_loop i p =
     (if i < NUM then
        bind_res (crt_sem_post (pp_sem0 p) (cl_env p)) (\<lambda>(s0, e).
        bind_res (crt_sem_wait (pp_sem1 p) e) (\<lambda>(r, s1, e1).
          let p1 = p\<lparr>cl_env := e1, pp_sem0 := s0, pp_sem1 := s1\<rparr>
          in if r then master_loop (i + 1) p1 else Inr (pp_suspend (Master i) p1)))
      else bind_res (crt_exit (cl_env p)) (\<lambda>e. Inr (p\<lparr>cl_env := e, pp_pipe := pp_pipe p @ [99]\<rparr>)))"
  by pat_completeness auto
termination by (relation "measure (\<lambda>(i, _). NUM - i)") auto

declare slave_loop.simps [simp del] master_loop.simps [simp del]

definition master_resume :: "nat \<Rightarrow> 'w pp \<Rightarrow> 'w pp res" where
  "master_resume i p =
     bind_res (crt_sem_wait (pp_sem1 p) (cl_env p)) (\<lambda>(r, s1, e).
       let p1 = p\<lparr>cl_env := e, pp_sem1 := s1\<rparr>
       in if r then master_loop (i + 1) p1 else Inr (pp_suspend (Master i) p1))"

text \<open>
  \<open>master\<close> from its start; \<open>cs\<close> is the address of \<open>slave\<close>, \<open>sem\<close> that of the array of semaphores, \<open>mem\<close>
  the memory \<open>crt_create\<close> gets for the slave.
\<close>

definition master :: "(addr \<times> task) option \<Rightarrow> uptr \<Rightarrow> uptr \<Rightarrow> 'w pp \<Rightarrow> 'w pp res" where
  "master mem cs sem p =
     bind_res (crt_create mem None cs sem (cl_env p)) (\<lambda>(_, e).
       master_loop 0 (p\<lparr>cl_env := e, pp_sem0 := crt_sem_init 0, pp_sem1 := crt_sem_init 0\<rparr>))"

text \<open>
  What a coroutine of the program does when the manager switches to it; \<open>cm\<close> and \<open>cs\<close> are the addresses
  of its two routines.
\<close>

definition pp_run :: "(addr \<times> task) option \<Rightarrow> uptr \<Rightarrow> uptr \<Rightarrow> uptr \<Rightarrow> addr \<Rightarrow> (uptr \<times> uptr) option \<Rightarrow> 'w pp \<Rightarrow> 'w pp res" where
  "pp_run mem cm cs sem a c p =
     (case c of
        Some (f, x) \<Rightarrow> if f = cm then master mem cs sem p else if f = cs then slave_loop 0 p else Inl Aborted
      | None \<Rightarrow>
          (case pp_frames p a of
             Some (Master i) \<Rightarrow> master_resume i p
           | Some (Slave i) \<Rightarrow> slave_loop i p
           | None \<Rightarrow> Inl Uninitialised))"

text \<open>\<open>pingpong\<close> up to the \<open>read\<close> that waits for the byte of the master.\<close>

definition pingpong :: "(addr \<times> task) option \<Rightarrow> uptr \<Rightarrow> uptr \<Rightarrow> 'w coroutine_env_s \<Rightarrow> (u64 \<times> 'w coroutine_env_s) res" where
  "pingpong mem cm pipefd e = crt_create mem None cm pipefd e"

section \<open>The turns\<close>

lemma slave_first_half:
  assumes "i < NUM" and "sched e []" and "tasks e m = Some tm" and "cl_env p = e"
    and "sem_value (pp_sem0 p) = 1" and "sem_value (pp_sem1 p) = 0" and "sem_task_ptr (pp_sem1 p) = Some m"
  shows "\<exists>e1. sched e1 [m] \<and> kept e e1 \<and> tasks e1 = (tasks e)(m \<mapsto> tm\<lparr>action := act_sem_activation\<rparr>) \<and>
    slave_loop i p = slave_loop (i + 1) (p\<lparr>cl_env := e1, pp_sem0 := (pp_sem0 p)\<lparr>sem_task_ptr := None, sem_value := 0\<rparr>,
      pp_sem1 := (pp_sem1 p)\<lparr>sem_value := 1\<rparr>\<rparr>)"
proof -
  from post_waiting [OF assms(2,7,3)] assms(6) obtain e1 where
    e1: "crt_sem_post (pp_sem1 p) e = Inr ((pp_sem1 p)\<lparr>sem_value := 1\<rparr>, e1)" "sched e1 [m]"
      "tasks e1 = (tasks e)(m \<mapsto> tm\<lparr>action := act_sem_activation\<rparr>)" "kept e e1" by auto
  have "slave_loop i p = slave_loop (i + 1) (p\<lparr>cl_env := e1, pp_sem0 := (pp_sem0 p)\<lparr>sem_task_ptr := None, sem_value := 0\<rparr>,
      pp_sem1 := (pp_sem1 p)\<lparr>sem_value := 1\<rparr>\<rparr>)"
    using assms(1,4,5) e1(1) by (subst slave_loop.simps) (simp add: wait_passes)
  with e1 show ?thesis by blast
qed

text \<open>The turn of the slave: it takes the token of \<open>sem[0]\<close>, wakes the master and waits again or exits.\<close>

lemma slave_turn:
  assumes "i < NUM" and "sched (cl_env p) []" and "curr_task_ptr (cl_env p) = Some sl" and "m \<noteq> sl"
    and "tasks (cl_env p) m = Some tm" and "tasks (cl_env p) sl = Some ts" and "action ts \<noteq> act_finished_coroutine" and "stack_ptr ts = Some sp"
    and "sem_value (pp_sem0 p) = 1" and "sem_value (pp_sem1 p) = 0" and "sem_task_ptr (pp_sem1 p) = Some m"
  shows "\<exists>p1. run_back sl (slave_loop i p) = Inr p1 \<and> sched (cl_env p1) [m] \<and> pp_pipe p1 = pp_pipe p \<and>
    pp_frames p1 m = pp_frames p m \<and> sem_value (pp_sem1 p1) = 1 \<and> sem_task_ptr (pp_sem1 p1) = Some m \<and>
    (if i + 1 < NUM then
       tasks (cl_env p1) = (tasks (cl_env p))(m \<mapsto> tm\<lparr>action := act_sem_activation\<rparr>, sl \<mapsto> ts\<lparr>task_context := Ctx_saved\<rparr>) \<and>
       stacks (cl_env p1) = stacks (cl_env p) \<and> ran (cl_env p1) = ran (cl_env p) \<and> pp_frames p1 sl = Some (Slave (i + 1)) \<and>
       sem_value (pp_sem0 p1) = 0 \<and> sem_task_ptr (pp_sem0 p1) = Some sl
     else
       tasks (cl_env p1) = (tasks (cl_env p))(m \<mapsto> tm\<lparr>action := act_sem_activation\<rparr>, sl := None) \<and>
       stacks (cl_env p1) = stacks (cl_env p) - {sp} \<and> ran (cl_env p1) = ran (cl_env p) + 1)"
proof -
  from slave_first_half [OF assms(1,2,5) refl assms(9-11)] obtain e1 where
    e1: "sched e1 [m]" "kept (cl_env p) e1" "tasks e1 = (tasks (cl_env p))(m \<mapsto> tm\<lparr>action := act_sem_activation\<rparr>)"
      "slave_loop i p = slave_loop (i + 1) (p\<lparr>cl_env := e1, pp_sem0 := (pp_sem0 p)\<lparr>sem_task_ptr := None, sem_value := 0\<rparr>,
        pp_sem1 := (pp_sem1 p)\<lparr>sem_value := 1\<rparr>\<rparr>)" by blast
  have c: "curr_task_ptr e1 = Some sl" "tasks e1 sl = Some ts" "stacks e1 = stacks (cl_env p)" "ran e1 = ran (cl_env p)"
    using e1(2,3) assms(3,4,6) by (auto simp: kept_def)
  let ?p = "p\<lparr>cl_env := e1, pp_sem0 := (pp_sem0 p)\<lparr>sem_task_ptr := None, sem_value := 0\<rparr>, pp_sem1 := (pp_sem1 p)\<lparr>sem_value := 1\<rparr>\<rparr>"
  show ?thesis
  proof (cases "i + 1 < NUM")
    case True
    let ?e = "e1\<lparr>tasks := (tasks e1)(sl \<mapsto> ts\<lparr>task_context := Ctx_saved\<rparr>)\<rparr>"
    let ?p1 = "pp_suspend (Slave (i + 1)) (?p\<lparr>cl_env := ?e, pp_sem0 := (pp_sem0 p)\<lparr>sem_value := 0, sem_task_ptr := Some sl\<rparr>\<rparr>)"
    have "slave_loop (i + 1) ?p = Inr ?p1"
      using True by (subst slave_loop.simps) (simp add: wait_suspends [OF _ c(1,2)])
    moreover have "manager_back sl ?e = Inr ?e" by (rule back_waiting [where t = "ts\<lparr>task_context := Ctx_saved\<rparr>"]) (use assms(7) in auto)
    moreover have "sched ?e [m]" by (rule sched_upd [OF e1(1)]) (use e1(3) assms(4) in auto)
    ultimately show ?thesis using True e1(3,4) c assms(4,11) by (intro exI [of _ ?p1]) (simp add: run_back_def pp_suspend_def)
  next
    case False
    from exit_back [OF e1(1) c(1,2) assms(8)] assms(4) obtain e2 e3 where
      "crt_exit e1 = Inr e2" "manager_back sl e2 = Inr e3" "sched e3 [m]" "tasks e3 = (tasks e1)(sl := None)"
      "stacks e3 = stacks e1 - {sp}" "ran e3 = ran e1 + 1" by auto
    moreover from this(1) False have "slave_loop (i + 1) ?p = Inr (?p\<lparr>cl_env := e2\<rparr>)" by (subst slave_loop.simps) simp
    ultimately show ?thesis using False e1(3,4) c assms(11)
      by (intro exI [of _ "?p\<lparr>cl_env := e3\<rparr>"]) (simp add: run_back_def)
  qed
qed

text \<open>The turn of the master while there are rounds left: it wakes the slave and waits.\<close>

lemma master_turn:
  assumes "i + 1 < NUM" and "sched (cl_env p) []" and "curr_task_ptr (cl_env p) = Some m" and "m \<noteq> sl"
    and "tasks (cl_env p) m = Some tm" and "tasks (cl_env p) sl = Some ts" and "action tm \<noteq> act_finished_coroutine"
    and "sem_value (pp_sem1 p) = 1" and "sem_value (pp_sem0 p) = 0" and "sem_task_ptr (pp_sem0 p) = Some sl"
  shows "\<exists>p1. run_back m (master_resume i p) = Inr p1 \<and> sched (cl_env p1) [sl] \<and> pp_pipe p1 = pp_pipe p \<and>
    pp_frames p1 sl = pp_frames p sl \<and> pp_frames p1 m = Some (Master (i + 1)) \<and>
    sem_value (pp_sem0 p1) = 1 \<and> sem_value (pp_sem1 p1) = 0 \<and> sem_task_ptr (pp_sem1 p1) = Some m \<and>
    tasks (cl_env p1) = (tasks (cl_env p))(sl \<mapsto> ts\<lparr>action := act_sem_activation\<rparr>, m \<mapsto> tm\<lparr>task_context := Ctx_saved\<rparr>) \<and>
    stacks (cl_env p1) = stacks (cl_env p) \<and> ran (cl_env p1) = ran (cl_env p)"
proof -
  let ?p = "p\<lparr>pp_sem1 := (pp_sem1 p)\<lparr>sem_task_ptr := None, sem_value := 0\<rparr>\<rparr>"
  have r: "master_resume i p = master_loop (i + 1) ?p" using assms(8) by (simp add: master_resume_def wait_passes)
  from post_waiting [OF assms(2,10,6)] assms(9) obtain e1 where
    e1: "crt_sem_post (pp_sem0 p) (cl_env p) = Inr ((pp_sem0 p)\<lparr>sem_value := 1\<rparr>, e1)" "sched e1 [sl]"
      "tasks e1 = (tasks (cl_env p))(sl \<mapsto> ts\<lparr>action := act_sem_activation\<rparr>)" "kept (cl_env p) e1" by auto
  have c: "curr_task_ptr e1 = Some m" "tasks e1 m = Some tm" "stacks e1 = stacks (cl_env p)" "ran e1 = ran (cl_env p)"
    using e1(3,4) assms(3,4,5) by (auto simp: kept_def)
  let ?e = "e1\<lparr>tasks := (tasks e1)(m \<mapsto> tm\<lparr>task_context := Ctx_saved\<rparr>)\<rparr>"
  let ?p1 = "pp_suspend (Master (i + 1)) (p\<lparr>cl_env := ?e, pp_sem0 := (pp_sem0 p)\<lparr>sem_value := 1\<rparr>,
    pp_sem1 := (pp_sem1 p)\<lparr>sem_value := 0, sem_task_ptr := Some m\<rparr>\<rparr>)"
  have "master_loop (i + 1) ?p = Inr ?p1"
    using assms(1) e1(1) by (subst master_loop.simps) (simp add: wait_suspends [OF _ c(1,2)])
  moreover have "manager_back m ?e = Inr ?e" by (rule back_waiting [where t = "tm\<lparr>task_context := Ctx_saved\<rparr>"]) (use assms(7) in auto)
  moreover have "sched ?e [sl]" by (rule sched_upd [OF e1(2)]) (use e1(3) assms(4) in auto)
  ultimately show ?thesis using r e1(3) c assms(4) by (intro exI [of _ ?p1]) (simp add: run_back_def pp_suspend_def)
qed

text \<open>Its last turn: it writes to the pipe and exits.\<close>

lemma master_last_turn:
  assumes "sched (cl_env p) []" and "curr_task_ptr (cl_env p) = Some m" and "tasks (cl_env p) m = Some tm" and "stack_ptr tm = Some sp"
    and "sem_value (pp_sem1 p) = 1" and "NUM \<le> i + 1"
  shows "\<exists>p1. run_back m (master_resume i p) = Inr p1 \<and> sched (cl_env p1) [] \<and> pp_pipe p1 = pp_pipe p @ [99] \<and>
    tasks (cl_env p1) = (tasks (cl_env p))(m := None) \<and> stacks (cl_env p1) = stacks (cl_env p) - {sp} \<and> ran (cl_env p1) = ran (cl_env p) + 1"
proof -
  let ?p = "p\<lparr>pp_sem1 := (pp_sem1 p)\<lparr>sem_task_ptr := None, sem_value := 0\<rparr>\<rparr>"
  have r: "master_resume i p = master_loop (i + 1) ?p" using assms(5) by (simp add: master_resume_def wait_passes)
  from exit_back [OF assms(1-4)] obtain e2 e3 where
    e: "crt_exit (cl_env p) = Inr e2" "manager_back m e2 = Inr e3" "sched e3 []" "tasks e3 = (tasks (cl_env p))(m := None)"
      "stacks e3 = stacks (cl_env p) - {sp}" "ran e3 = ran (cl_env p) + 1" by auto
  have "master_loop (i + 1) ?p = Inr (?p\<lparr>cl_env := e2, pp_pipe := pp_pipe p @ [99]\<rparr>)"
    using e(1) assms(6) by (subst master_loop.simps) simp
  with r e show ?thesis by (intro exI [of _ "?p\<lparr>cl_env := e3, pp_pipe := pp_pipe p @ [99]\<rparr>"]) (simp add: run_back_def)
qed

text \<open>Its first turn: it creates the slave, posts \<open>sem[0]\<close> before anybody waits, and waits.\<close>

lemma master_first_turn:
  assumes "0 < NUM" and "sched (cl_env p) []" and "curr_task_ptr (cl_env p) = Some m" and "m \<noteq> sl"
    and "tasks (cl_env p) m = Some tm" and "tasks (cl_env p) sl = None" and "action tm \<noteq> act_finished_coroutine"
  shows "\<exists>p1 ts. run_back m (master (Some (sl, junk)) cs sem p) = Inr p1 \<and> sched (cl_env p1) [sl] \<and> pp_pipe p1 = pp_pipe p \<and>
    pp_frames p1 m = Some (Master 0) \<and> sem_value (pp_sem0 p1) = 1 \<and> sem_value (pp_sem1 p1) = 0 \<and> sem_task_ptr (pp_sem1 p1) = Some m \<and>
    tasks (cl_env p1) = (tasks (cl_env p))(sl \<mapsto> ts, m \<mapsto> tm\<lparr>task_context := Ctx_saved\<rparr>) \<and> enters COROUTINE_STACK_SIZE cs sem (Some ts) \<and>
    stacks (cl_env p1) = stacks (cl_env p) \<and> ran (cl_env p1) = ran (cl_env p)"
proof -
  from create_sched [OF assms(2,6), of junk None cs sem] obtain e1 ts where
    e1: "crt_create (Some (sl, junk)) None cs sem (cl_env p) = Inr (cid (cl_env p) + 1, e1)" "sched e1 [sl]"
      "tasks e1 = (tasks (cl_env p))(sl \<mapsto> ts)" "enters COROUTINE_STACK_SIZE cs sem (Some ts)" "kept (cl_env p) e1" by (auto simp: attr_size_def)
  have c: "curr_task_ptr e1 = Some m" "tasks e1 m = Some tm" "stacks e1 = stacks (cl_env p)" "ran e1 = ran (cl_env p)"
    using e1(3,5) assms(3,4,5) by (auto simp: kept_def)
  let ?e = "e1\<lparr>tasks := (tasks e1)(m \<mapsto> tm\<lparr>task_context := Ctx_saved\<rparr>)\<rparr>"
  let ?p1 = "pp_suspend (Master 0) (p\<lparr>cl_env := ?e, pp_sem0 := (crt_sem_init 0)\<lparr>sem_value := 1\<rparr>, pp_sem1 := (crt_sem_init 0)\<lparr>sem_task_ptr := Some m\<rparr>\<rparr>)"
  have z: "sem_value (crt_sem_init 0) = 0" "sem_task_ptr (crt_sem_init 0) = None" by (simp_all add: crt_sem_init_def)
  have "master (Some (sl, junk)) cs sem p = Inr ?p1"
    using assms(1) e1(1) by (simp add: master_def master_loop.simps [of 0] post_free z wait_suspends [OF z(1) c(1,2)])
  moreover have "manager_back m ?e = Inr ?e" by (rule back_waiting [where t = "tm\<lparr>task_context := Ctx_saved\<rparr>"]) (use assms(7) in auto)
  moreover have "sched ?e [sl]" by (rule sched_upd [OF e1(2)]) (use e1(3) assms(4) in auto)
  ultimately show ?thesis using e1(3,4) c z by (intro exI [of _ ?p1] exI [of _ ts]) (simp add: run_back_def pp_suspend_def)
qed

section \<open>Rounds\<close>

text \<open>
  The states between two passes, \<open>T\<close>, \<open>S\<close> and \<open>r\<close> being the other tasks and stacks and the coroutines
  finished before: it is the turn of the slave for the round \<open>i\<close>, or of the master, whose round is \<open>i\<close>.
\<close>

definition at_slave where
  "at_slave T S r m sl spm sps cs i p \<longleftrightarrow>
     (\<exists>tm ts. sched (cl_env p) [sl] \<and> tasks (cl_env p) = T(m \<mapsto> tm, sl \<mapsto> ts) \<and> ran (cl_env p) = r \<and> pp_pipe p = [] \<and>
       task_context tm = Ctx_saved \<and> stack_ptr tm = Some spm \<and> pp_frames p m = Some (Master i) \<and>
       sem_value (pp_sem0 p) = 1 \<and> sem_value (pp_sem1 p) = 0 \<and> sem_task_ptr (pp_sem1 p) = Some m \<and>
       (if i = 0 then (\<exists>sz x. enters sz cs x (Some ts)) \<and> stacks (cl_env p) = insert spm S
        else action ts = act_sem_activation \<and> task_context ts = Ctx_saved \<and> stack_ptr ts = Some sps \<and>
          pp_frames p sl = Some (Slave i) \<and> stacks (cl_env p) = insert sps (insert spm S)))"

definition at_master where
  "at_master T S r m sl spm sps i p \<longleftrightarrow>
     (\<exists>tm ts. sched (cl_env p) [m] \<and> pp_pipe p = [] \<and> action tm = act_sem_activation \<and> task_context tm = Ctx_saved \<and>
       stack_ptr tm = Some spm \<and> pp_frames p m = Some (Master i) \<and> sem_value (pp_sem1 p) = 1 \<and>
       (if i + 1 < NUM then
          tasks (cl_env p) = T(m \<mapsto> tm, sl \<mapsto> ts) \<and> task_context ts = Ctx_saved \<and> stack_ptr ts = Some sps \<and>
          pp_frames p sl = Some (Slave (i + 1)) \<and> sem_value (pp_sem0 p) = 0 \<and> sem_task_ptr (pp_sem0 p) = Some sl \<and>
          ran (cl_env p) = r \<and> stacks (cl_env p) = insert sps (insert spm S)
        else tasks (cl_env p) = T(m \<mapsto> tm) \<and> ran (cl_env p) = r + 1 \<and> stacks (cl_env p) = insert spm S))"

lemma pass_start:
  assumes "sched (cl_env p) [m]" and "tasks (cl_env p) = T(m \<mapsto> tm)" and "enters sz cm x (Some tm)" and "T sl = None" and "m \<noteq> sl" and "pp_pipe p = []"
  shows "\<exists>p1. manager_pass (pp_run (Some (sl, junk)) cm cs sem) spm p = Some (Inr p1) \<and>
    at_slave T (stacks (cl_env p)) (ran (cl_env p)) m sl spm sps cs 0 p1"
proof -
  have "tasks (cl_env p) m = Some tm" using assms(2) by simp
  from pass_enters [OF assms(1) this assms(3), of spm "pp_run (Some (sl, junk)) cm cs sem"] obtain e t where
    e: "sched e []" "curr_task_ptr e = Some m" "tasks e = (tasks (cl_env p))(m \<mapsto> t)" "stack_ptr t = Some spm"
      "action t = act_new_coroutine" "stacks e = insert spm (stacks (cl_env p))" "ran e = ran (cl_env p)"
      "manager_pass (pp_run (Some (sl, junk)) cm cs sem) spm p = Some (run_back m (master (Some (sl, junk)) cs sem (p\<lparr>cl_env := e\<rparr>)))"
    by (auto simp: pp_run_def)
  have "\<exists>p1 ts. run_back m (master (Some (sl, junk)) cs sem (p\<lparr>cl_env := e\<rparr>)) = Inr p1 \<and> sched (cl_env p1) [sl] \<and>
      pp_pipe p1 = pp_pipe (p\<lparr>cl_env := e\<rparr>) \<and> pp_frames p1 m = Some (Master 0) \<and> sem_value (pp_sem0 p1) = 1 \<and>
      sem_value (pp_sem1 p1) = 0 \<and> sem_task_ptr (pp_sem1 p1) = Some m \<and>
      tasks (cl_env p1) = (tasks (cl_env (p\<lparr>cl_env := e\<rparr>)))(sl \<mapsto> ts, m \<mapsto> t\<lparr>task_context := Ctx_saved\<rparr>) \<and> enters COROUTINE_STACK_SIZE cs sem (Some ts) \<and>
      stacks (cl_env p1) = stacks (cl_env (p\<lparr>cl_env := e\<rparr>)) \<and> ran (cl_env p1) = ran (cl_env (p\<lparr>cl_env := e\<rparr>))"
    by (rule master_first_turn) (use e assms in \<open>simp_all add: NUM_def\<close>)
  then obtain p1 ts where p1: "run_back m (master (Some (sl, junk)) cs sem (p\<lparr>cl_env := e\<rparr>)) = Inr p1" "sched (cl_env p1) [sl]"
      "pp_pipe p1 = []" "pp_frames p1 m = Some (Master 0)" "sem_value (pp_sem0 p1) = 1" "sem_value (pp_sem1 p1) = 0"
      "sem_task_ptr (pp_sem1 p1) = Some m" "tasks (cl_env p1) = T(m \<mapsto> t\<lparr>task_context := Ctx_saved\<rparr>, sl \<mapsto> ts)"
      "enters COROUTINE_STACK_SIZE cs sem (Some ts)"
      "stacks (cl_env p1) = insert spm (stacks (cl_env p))" "ran (cl_env p1) = ran (cl_env p)"
    using assms(2,5,6) e(3,6,7) by (auto simp: fun_upd_twist)
  then have "at_slave T (stacks (cl_env p)) (ran (cl_env p)) m sl spm sps cs 0 p1"
    unfolding at_slave_def using e(4)
    by (intro exI [of _ "t\<lparr>task_context := Ctx_saved\<rparr>"] exI [of _ ts]) auto
  with e(8) p1(1) show ?thesis by simp
qed

lemma slave_entered:
  assumes "at_slave T S r m sl spm sps cs i p" and "cm \<noteq> cs" and "i = 0 \<Longrightarrow> sp = sps"
  shows "\<exists>e tm t. sched e [] \<and> curr_task_ptr e = Some sl \<and> tasks e = T(m \<mapsto> tm, sl \<mapsto> t) \<and> action t \<noteq> act_finished_coroutine \<and>
    task_context tm = Ctx_saved \<and> stack_ptr tm = Some spm \<and> stack_ptr t = Some sps \<and> stacks e = insert sps (insert spm S) \<and> ran e = r \<and>
    manager_pass (pp_run mem cm cs sem) sp p = Some (run_back sl (slave_loop i (p\<lparr>cl_env := e\<rparr>)))"
proof -
  from assms(1) obtain tm ts where a: "sched (cl_env p) [sl]" "tasks (cl_env p) = T(m \<mapsto> tm, sl \<mapsto> ts)" "ran (cl_env p) = r"
      "task_context tm = Ctx_saved" "stack_ptr tm = Some spm"
      and b: "if i = 0 then (\<exists>sz x. enters sz cs x (Some ts)) \<and> stacks (cl_env p) = insert spm S
        else action ts = act_sem_activation \<and> task_context ts = Ctx_saved \<and> stack_ptr ts = Some sps \<and>
          pp_frames p sl = Some (Slave i) \<and> stacks (cl_env p) = insert sps (insert spm S)"
    unfolding at_slave_def by blast
  have sl: "tasks (cl_env p) sl = Some ts" using a(2) by simp
  show ?thesis
  proof (cases "i = 0")
    case True
    with b obtain sz x where arg: "enters sz cs x (Some ts)" "stacks (cl_env p) = insert spm S" by auto
    from pass_enters [OF a(1) sl arg(1), of sp "pp_run mem cm cs sem"] True assms(2,3) arg(2) a(2,3) obtain e t where
      "sched e []" "curr_task_ptr e = Some sl" "tasks e = T(m \<mapsto> tm, sl \<mapsto> t)" "action t = act_new_coroutine"
      "stack_ptr t = Some sps" "stacks e = insert sps (insert spm S)" "ran e = r"
      "manager_pass (pp_run mem cm cs sem) sp p = Some (run_back sl (slave_loop i (p\<lparr>cl_env := e\<rparr>)))" by (auto simp: pp_run_def)
    with a(4,5) show ?thesis by (intro exI [of _ e] exI [of _ tm] exI [of _ t]) simp
  next
    case False
    with b have t: "action ts = act_sem_activation" "task_context ts = Ctx_saved" "stack_ptr ts = Some sps" "pp_frames p sl = Some (Slave i)"
      "stacks (cl_env p) = insert sps (insert spm S)" by simp_all
    from pass_resumes [OF a(1) sl t(1,2), of "pp_run mem cm cs sem" sp] t a(2,3) obtain e where
      "sched e []" "curr_task_ptr e = Some sl" "tasks e = T(m \<mapsto> tm, sl \<mapsto> ts)" "stacks e = insert sps (insert spm S)" "ran e = r"
      "manager_pass (pp_run mem cm cs sem) sp p = Some (run_back sl (slave_loop i (p\<lparr>cl_env := e\<rparr>)))" by (auto simp: pp_run_def)
    with t(1,3) a(4,5) show ?thesis by (intro exI [of _ e] exI [of _ tm] exI [of _ ts]) simp
  qed
qed

lemma pass_slave:
  assumes "at_slave T S r m sl spm sps cs i p" and "i < NUM" and "m \<noteq> sl" and "T sl = None" and "cm \<noteq> cs"
    and "sps \<notin> insert spm S" and "i = 0 \<Longrightarrow> sp = sps"
  shows "\<exists>p1. manager_pass (pp_run mem cm cs sem) sp p = Some (Inr p1) \<and> at_master T S r m sl spm sps i p1"
proof -
  have a: "pp_pipe p = []" "pp_frames p m = Some (Master i)" "sem_value (pp_sem0 p) = 1" "sem_value (pp_sem1 p) = 0"
    "sem_task_ptr (pp_sem1 p) = Some m" using assms(1) by (auto simp: at_slave_def)
  from slave_entered [OF assms(1,5,7), of mem sem] obtain e tm t where
    e: "sched e []" "curr_task_ptr e = Some sl" "tasks e = T(m \<mapsto> tm, sl \<mapsto> t)" "action t \<noteq> act_finished_coroutine"
      "task_context tm = Ctx_saved" "stack_ptr tm = Some spm" "stack_ptr t = Some sps" "stacks e = insert sps (insert spm S)" "ran e = r"
      "manager_pass (pp_run mem cm cs sem) sp p = Some (run_back sl (slave_loop i (p\<lparr>cl_env := e\<rparr>)))" by blast
  from slave_turn [of i "p\<lparr>cl_env := e\<rparr>" sl m tm t sps] assms(2,3) e a obtain p1 where
    p1: "run_back sl (slave_loop i (p\<lparr>cl_env := e\<rparr>)) = Inr p1" "sched (cl_env p1) [m]" "pp_pipe p1 = []" "pp_frames p1 m = Some (Master i)"
      "sem_value (pp_sem1 p1) = 1"
      "if i + 1 < NUM then
         tasks (cl_env p1) = (tasks e)(m \<mapsto> tm\<lparr>action := act_sem_activation\<rparr>, sl \<mapsto> t\<lparr>task_context := Ctx_saved\<rparr>) \<and>
         stacks (cl_env p1) = stacks e \<and> ran (cl_env p1) = ran e \<and> pp_frames p1 sl = Some (Slave (i + 1)) \<and>
         sem_value (pp_sem0 p1) = 0 \<and> sem_task_ptr (pp_sem0 p1) = Some sl
       else tasks (cl_env p1) = (tasks e)(m \<mapsto> tm\<lparr>action := act_sem_activation\<rparr>, sl := None) \<and>
         stacks (cl_env p1) = stacks e - {sps} \<and> ran (cl_env p1) = ran e + 1"
    by auto
  have "T(m \<mapsto> tm, sl \<mapsto> t, m \<mapsto> u, sl := v) = T(m \<mapsto> u, sl := v)" for u v using assms(3) by (auto simp: fun_eq_iff)
  moreover have "T(m \<mapsto> u, sl := None) = T(m \<mapsto> u)" for u using assms(3,4) by (auto simp: fun_eq_iff)
  ultimately have "at_master T S r m sl spm sps i p1" unfolding at_master_def using p1 e(3,5-9) assms(6)
    by (intro exI [of _ "tm\<lparr>action := act_sem_activation\<rparr>"] exI [of _ "t\<lparr>task_context := Ctx_saved\<rparr>"]) (auto split: if_splits)
  with p1(1) e(10) show ?thesis by simp
qed

lemma pass_master:
  assumes "at_master T S r m sl spm sps i p" and "i + 1 < NUM" and "m \<noteq> sl"
  shows "\<exists>p1. manager_pass (pp_run mem cm cs sem) sp p = Some (Inr p1) \<and> at_slave T S r m sl spm sps cs (i + 1) p1"
proof -
  from assms(1,2) obtain tm ts where a: "sched (cl_env p) [m]" "pp_pipe p = []" "action tm = act_sem_activation" "task_context tm = Ctx_saved"
       "stack_ptr tm = Some spm" "pp_frames p m = Some (Master i)" "sem_value (pp_sem1 p) = 1"
      "tasks (cl_env p) = T(m \<mapsto> tm, sl \<mapsto> ts)" "task_context ts = Ctx_saved" "stack_ptr ts = Some sps"
      "pp_frames p sl = Some (Slave (i + 1))" "sem_value (pp_sem0 p) = 0" "sem_task_ptr (pp_sem0 p) = Some sl"
      "ran (cl_env p) = r" "stacks (cl_env p) = insert sps (insert spm S)"
    unfolding at_master_def by auto
  have m: "tasks (cl_env p) m = Some tm" using a(8) assms(3) by simp
  from pass_resumes [OF a(1) m a(3,4), of "pp_run mem cm cs sem" sp] a(6) obtain e where
    e: "sched e []" "curr_task_ptr e = Some m" "tasks e = tasks (cl_env p)" "stacks e = stacks (cl_env p)" "ran e = ran (cl_env p)"
      "manager_pass (pp_run mem cm cs sem) sp p = Some (run_back m (master_resume i (p\<lparr>cl_env := e\<rparr>)))" by (auto simp: pp_run_def)
  from master_turn [of i "p\<lparr>cl_env := e\<rparr>" m sl tm ts] assms(2,3) e a m obtain p1 where
    p1: "run_back m (master_resume i (p\<lparr>cl_env := e\<rparr>)) = Inr p1" "sched (cl_env p1) [sl]" "pp_pipe p1 = []"
      "pp_frames p1 sl = Some (Slave (i + 1))" "pp_frames p1 m = Some (Master (i + 1))" "sem_value (pp_sem0 p1) = 1"
      "sem_value (pp_sem1 p1) = 0" "sem_task_ptr (pp_sem1 p1) = Some m"
      "tasks (cl_env p1) = (tasks e)(sl \<mapsto> ts\<lparr>action := act_sem_activation\<rparr>, m \<mapsto> tm\<lparr>task_context := Ctx_saved\<rparr>)"
      "stacks (cl_env p1) = stacks e" "ran (cl_env p1) = ran e" by auto
  have "T(m \<mapsto> tm, sl \<mapsto> ts, sl \<mapsto> u, m \<mapsto> v) = T(m \<mapsto> v, sl \<mapsto> u)" for u v using assms(3) by (auto simp: fun_eq_iff)
  with p1 a e have "at_slave T S r m sl spm sps cs (i + 1) p1" unfolding at_slave_def
    by (intro exI [of _ "tm\<lparr>task_context := Ctx_saved\<rparr>"] exI [of _ "ts\<lparr>action := act_sem_activation\<rparr>"]) simp
  with p1(1) e(6) show ?thesis by simp
qed

lemma pass_last:
  assumes "at_master T S r m sl spm sps i p" and "i + 1 = NUM" and "T m = None" and "spm \<notin> S"
  shows "\<exists>p1. manager_pass (pp_run mem cm cs sem) sp p = Some (Inr p1) \<and> sched (cl_env p1) [] \<and> pp_pipe p1 = [99] \<and>
    tasks (cl_env p1) = T \<and> stacks (cl_env p1) = S \<and> ran (cl_env p1) = r + 2"
proof -
  from assms(1,2) obtain tm where a: "sched (cl_env p) [m]" "pp_pipe p = []" "action tm = act_sem_activation" "task_context tm = Ctx_saved"
       "stack_ptr tm = Some spm" "pp_frames p m = Some (Master i)" "sem_value (pp_sem1 p) = 1"
      "tasks (cl_env p) = T(m \<mapsto> tm)" "ran (cl_env p) = r + 1" "stacks (cl_env p) = insert spm S"
    unfolding at_master_def by auto
  have m: "tasks (cl_env p) m = Some tm" using a(8) by simp
  from pass_resumes [OF a(1) m a(3,4), of "pp_run mem cm cs sem" sp] a(6) obtain e where
    e: "sched e []" "curr_task_ptr e = Some m" "tasks e = tasks (cl_env p)" "stacks e = stacks (cl_env p)" "ran e = ran (cl_env p)"
      "manager_pass (pp_run mem cm cs sem) sp p = Some (run_back m (master_resume i (p\<lparr>cl_env := e\<rparr>)))" by (auto simp: pp_run_def)
  from master_last_turn [of "p\<lparr>cl_env := e\<rparr>" m tm spm i] assms(2) e a m obtain p1 where
    "run_back m (master_resume i (p\<lparr>cl_env := e\<rparr>)) = Inr p1" "sched (cl_env p1) []" "pp_pipe p1 = [99]"
    "tasks (cl_env p1) = (tasks e)(m := None)" "stacks (cl_env p1) = stacks e - {spm}" "ran (cl_env p1) = ran e + 1" by auto
  with e a assms(3,4) show ?thesis by (auto simp: fun_eq_iff)
qed

lemma rounds:
  assumes "manager_passes (pp_run mem cm cs sem) sp 1 p = Some (Inr p0)" and "at_slave T S r m sl spm (sp 1) cs 0 p0"
    and "m \<noteq> sl" and "T sl = None" and "cm \<noteq> cs" and "sp 1 \<notin> insert spm S" and "i < NUM"
  shows "\<exists>p1. manager_passes (pp_run mem cm cs sem) sp (2 * i + 2) p = Some (Inr p1) \<and> at_master T S r m sl spm (sp 1) i p1"
proof -
  have "\<exists>p1. manager_passes (pp_run mem cm cs sem) sp (2 * i + 1) p = Some (Inr p1) \<and> at_slave T S r m sl spm (sp 1) cs i p1" if "i < NUM" for i
    using that
  proof (induction i)
    case 0
    with assms(1,2) show ?case by simp
  next
    case (Suc i)
    then obtain p1 where p1: "manager_passes (pp_run mem cm cs sem) sp (2 * i + 1) p = Some (Inr p1)" "at_slave T S r m sl spm (sp 1) cs i p1" by auto
    from pass_slave [OF p1(2) _ assms(3-6), of "sp (2 * i + 1)" mem sem] Suc.prems obtain p2 where
      p2: "manager_pass (pp_run mem cm cs sem) (sp (2 * i + 1)) p1 = Some (Inr p2)" "at_master T S r m sl spm (sp 1) i p2" by auto
    from pass_master [OF p2(2) _ assms(3), of mem cm cs sem "sp (2 * i + 2)"] Suc.prems obtain p3 where
      "manager_pass (pp_run mem cm cs sem) (sp (2 * i + 2)) p2 = Some (Inr p3)" "at_slave T S r m sl spm (sp 1) cs (i + 1) p3" by auto
    with p1(1) p2(1) show ?case by auto
  qed
  from this [OF assms(7)] obtain p1 where
    p1: "manager_passes (pp_run mem cm cs sem) sp (2 * i + 1) p = Some (Inr p1)" "at_slave T S r m sl spm (sp 1) cs i p1" by blast
  from pass_slave [OF p1(2) assms(7) assms(3-6), of "sp (2 * i + 1)" mem sem] p1(1) show ?thesis by auto
qed

text \<open>
  (C14) The ping-pong program runs to its end: when \<open>pingpong\<close> has created the master in an environment
  without other work, \<open>2 * NUM + 1\<close> passes of the manager, none of which blocks or faults, take the two
  coroutines through their \<open>NUM\<close> rounds; after them the master has written to the pipe \<open>pingpong\<close> waits
  for, both coroutines are finished, their tasks and stacks are freed, and the manager has nothing
  left to do.
\<close>

theorem pingpong_completes:
  fixes e :: "'w coroutine_env_s"
  assumes "queue_of e (todo_queue e) []" and "manager_sem e = 0" and "tasks e m = None" and "tasks e sl = None" and "m \<noteq> sl"
    and "sp 0 \<notin> stacks e" and "sp 1 \<notin> stacks e" and "sp 0 \<noteq> sp 1" and "cm \<noteq> cs"
    and "pp_pipe p = []"
  shows "\<exists>e1 p1. pingpong (Some (m, junk)) cm pipefd e = Inr (cid e + 1, e1) \<and>
    manager_passes (pp_run (Some (sl, junk')) cm cs sem) sp (2 * NUM + 1) (p\<lparr>cl_env := e1\<rparr>) = Some (Inr p1) \<and>
    pp_pipe p1 = [99] \<and> tasks (cl_env p1) = tasks e \<and> stacks (cl_env p1) = stacks e \<and> ran (cl_env p1) = ran e + 2 \<and>
    queue_of (cl_env p1) (todo_queue (cl_env p1)) [] \<and> manager_sem (cl_env p1) = 0"
proof -
  let ?mem = "Some (sl, junk')"
  have "sched e []" using assms(1,2) by (simp add: sched_def)
  from create_sched [OF this assms(3), of junk None cm pipefd] obtain e1 t where
    e1: "crt_create (Some (m, junk)) None cm pipefd e = Inr (cid e + 1, e1)" "sched e1 [m]" "tasks e1 = (tasks e)(m \<mapsto> t)"
      "enters (attr_size None) cm pipefd (Some t)"
      "stacks e1 = stacks e" "ran e1 = ran e" by (auto simp: kept_def)
  from pass_start [of "p\<lparr>cl_env := e1\<rparr>" m "tasks e" t "attr_size None" cm pipefd sl junk' cs sem "sp 0" "sp 1"] e1 assms(4,5,10) obtain p0 where
    p0: "manager_pass (pp_run ?mem cm cs sem) (sp 0) (p\<lparr>cl_env := e1\<rparr>) = Some (Inr p0)" "at_slave (tasks e) (stacks e) (ran e) m sl (sp 0) (sp 1) cs 0 p0" by auto
  then have "manager_passes (pp_run ?mem cm cs sem) sp 1 (p\<lparr>cl_env := e1\<rparr>) = Some (Inr p0)" by simp
  from rounds [OF this p0(2) assms(5,4,9), of "NUM - 1"] assms(7,8) obtain p2 where
    p2: "manager_passes (pp_run ?mem cm cs sem) sp (2 * NUM) (p\<lparr>cl_env := e1\<rparr>) = Some (Inr p2)"
      "at_master (tasks e) (stacks e) (ran e) m sl (sp 0) (sp 1) (NUM - 1) p2" by (auto simp: NUM_def)
  from pass_last [OF p2(2) _ assms(3,6), of ?mem cm cs sem "sp (2 * NUM)"] obtain p1 where
    "manager_pass (pp_run ?mem cm cs sem) (sp (2 * NUM)) p2 = Some (Inr p1)" "sched (cl_env p1) []" "pp_pipe p1 = [99]"
    "tasks (cl_env p1) = tasks e" "stacks (cl_env p1) = stacks e" "ran (cl_env p1) = ran e + 2" by (auto simp: NUM_def)
  with e1(1) p2(1) show ?thesis by (intro exI [of _ e1] exI [of _ p1]) (simp add: sched_def pingpong_def)
qed

theorem pingpong_completes_witness:
  "\<exists>e1 p1. pingpong (Some (2, ex_task)) 100 9 ex_env = Inr (1, e1) \<and>
    manager_passes (pp_run (Some (3, ex_task)) 100 200 77) (\<lambda>n. 1000 + n) 2000001
      \<lparr>cl_env = e1, pp_sem0 = crt_sem_init 5, pp_sem1 = crt_sem_init 6, pp_frames = (\<lambda>_. None), pp_pipe = []\<rparr> = Some (Inr p1) \<and>
    pp_pipe p1 = [99] \<and> stacks (cl_env p1) = {50} \<and> ran (cl_env p1) = 2"
  using pingpong_completes [OF ex_env_queue(1), of 2 3 "\<lambda>n. 1000 + n" 100 200
      "\<lparr>cl_env = ex_env, pp_sem0 = crt_sem_init 5, pp_sem1 = crt_sem_init 6, pp_frames = (\<lambda>_. None), pp_pipe = []\<rparr>" ex_task 9 ex_task 77]
  by (simp add: ex_env_fields NUM_def) blast

end
