(* ===== verification/Example_Nested.thy ===== *)
theory Example_Nested
  imports Acoro_Client
begin

text \<open>
  \<^verbatim>\<open>src/example/coro_in_coro.c\<close>: a coroutine that creates twenty others. None of them calls \<open>crt_exit\<close>;
  a routine that returns ends in \<open>call_wrapper\<close>, from which the context goes back to the manager.
  \<open>cc_log\<close> is what the coroutines print.
\<close>

section \<open>The program\<close>

record 'w cc = "'w client" +
  cc_log :: "int list"

definition secondary_corotine :: "uptr \<Rightarrow> 'w cc \<Rightarrow> 'w cc res" where
  "secondary_corotine arg p = Inr (p\<lparr>cc_log := cc_log p @ [sint arg]\<rparr>)"

text \<open>\<open>cs\<close> is the address of \<open>secondary_corotine\<close>, \<open>mems\<close> the memory the twenty calls of \<open>crt_create\<close> get.\<close>

definition main_corotine :: "(addr \<times> task) option list \<Rightarrow> uptr \<Rightarrow> 'w cc \<Rightarrow> 'w cc res" where
  "main_corotine mems cs p =
     bind_res (create_each None cs (zip (map of_nat [0..<20]) mems) (cl_env p)) (\<lambda>e. Inr (p\<lparr>cl_env := e\<rparr>))"

definition cc_run :: "(addr \<times> task) option list \<Rightarrow> uptr \<Rightarrow> uptr \<Rightarrow> addr \<Rightarrow> (uptr \<times> uptr) option \<Rightarrow> 'w cc \<Rightarrow> 'w cc res" where
  "cc_run mems cm cs a c p =
     (case c of
        Some (f, x) \<Rightarrow> if f = cm then main_corotine mems cs p else if f = cs then secondary_corotine x p else Inl Aborted
      | None \<Rightarrow> Inl Uninitialised)"

section \<open>The passes\<close>

text \<open>After the first pass and \<open>k\<close> more: the coroutines from \<open>k\<close> on wait, the others have run and are still allocated.\<close>

definition cc_at where
  "cc_at e0 m ms sp cs k p \<longleftrightarrow>
     sched (cl_env p) (map fst (drop k ms)) \<and> cc_log p = map int [0..<k] \<and> ran (cl_env p) = ran e0 \<and>
     stacks (cl_env p) = stacks e0 \<union> sp ` {..k} \<and> dom (tasks (cl_env p)) = insert m (dom (tasks e0) \<union> fst ` set ms) \<and>
     (\<forall>i<20. k \<le> i \<longrightarrow> enters COROUTINE_STACK_SIZE cs (of_nat i) (tasks (cl_env p) (fst (ms ! i))))"

lemma cc_first:
  assumes "sched (cl_env p) [m]" and "tasks (cl_env p) = (tasks e0)(m \<mapsto> t)" and "enters sz cm x (Some t)"
    and "distinct (map fst ms)" and "length ms = 20" and "\<And>a. a \<in> fst ` set ms \<Longrightarrow> tasks e0 a = None \<and> a \<noteq> m"
    and "cc_log p = []" and "ran (cl_env p) = ran e0" and "stacks (cl_env p) = stacks e0"
  shows "\<exists>p1. manager_pass (cc_run (map Some ms) cm cs) (sp 0) p = Some (Inr p1) \<and> cc_at e0 m ms sp cs 0 p1"
proof -
  have "tasks (cl_env p) m = Some t" using assms(2) by simp
  from pass_enters [OF assms(1) this assms(3), of "sp 0" "cc_run (map Some ms) cm cs"] obtain e u where
    e: "sched e []" "tasks e = (tasks e0)(m \<mapsto> u)" "stack_ptr u = Some (sp 0)" "action u = act_new_coroutine"
      "stacks e = insert (sp 0) (stacks e0)" "ran e = ran e0"
      "manager_pass (cc_run (map Some ms) cm cs) (sp 0) p = Some (run_back m (main_corotine (map Some ms) cs (p\<lparr>cl_env := e\<rparr>)))"
    using assms(2,8,9) by (auto simp: cc_run_def)
  have f: "tasks e a = None" if "a \<in> fst ` set ms" for a using assms(6) [OF that] e(2) by simp
  from create_all [OF e(1) assms(4) f, of "map of_nat [0..<20]" None cs] assms(5) obtain e1 where
    e1: "create_each None cs (zip (map of_nat [0..<20]) (map Some ms)) e = Inr e1" "sched e1 (map fst ms)" "kept e e1"
      "\<forall>a. a \<notin> fst ` set ms \<longrightarrow> tasks e1 a = tasks e a"
      "list_all2 (\<lambda>x (a, _). enters (attr_size None) cs x (tasks e1 a)) (map of_nat [0..<20]) ms" by auto
  have n: "enters COROUTINE_STACK_SIZE cs (of_nat i) (tasks e1 (fst (ms ! i)))" if "i < 20" for i
    using e1(5) that unfolding list_all2_conv_all_nth by (auto simp: attr_size_def case_prod_beta)
  have d: "dom (tasks e1) = insert m (dom (tasks e0) \<union> fst ` set ms)"
  proof -
    have "tasks e1 a \<noteq> None" if "a \<in> fst ` set ms" for a
      using that n assms(5) by (fastforce simp: in_set_conv_nth enters_def)
    then show ?thesis using e1(4) e(2) by (auto simp: dom_def) (metis option.distinct(1))+
  qed
  have "tasks e1 m = Some u" using e1(4) e(2) assms(6) by (metis fun_upd_same)
  then have "manager_back m e1 = Inr e1" by (rule back_waiting) (simp add: e(4))
  then have "manager_pass (cc_run (map Some ms) cm cs) (sp 0) p = Some (Inr (p\<lparr>cl_env := e1\<rparr>))"
    using e(7) e1(1) by (simp add: main_corotine_def run_back_def)
  moreover have "cc_at e0 m ms sp cs 0 (p\<lparr>cl_env := e1\<rparr>)"
    using e1(2,3) e(5,6) d n assms(7) by (auto simp: cc_at_def kept_def)
  ultimately show ?thesis by blast
qed

lemma cc_next:
  assumes "cc_at e0 m ms sp cs k p" and "k < 20" and "length ms = 20" and "distinct (map fst ms)" and "cm \<noteq> cs"
  shows "\<exists>p1. manager_pass (cc_run mems cm cs) (sp (Suc k)) p = Some (Inr p1) \<and> cc_at e0 m ms sp cs (Suc k) p1"
proof -
  let ?a = "fst (ms ! k)"
  have c: "sched (cl_env p) (?a # map fst (drop (Suc k) ms))" "enters COROUTINE_STACK_SIZE cs (of_nat k) (tasks (cl_env p) ?a)"
    using assms(1-3) by (auto simp: cc_at_def Cons_nth_drop_Suc [symmetric])
  then obtain t where t: "tasks (cl_env p) ?a = Some t" "enters COROUTINE_STACK_SIZE cs (of_nat k) (Some t)" by (auto simp: enters_def)
  from pass_enters [OF c(1) t, of "sp (Suc k)" "cc_run mems cm cs"] obtain e u where
    e: "sched e (map fst (drop (Suc k) ms))" "tasks e = (tasks (cl_env p))(?a \<mapsto> u)" "action u = act_new_coroutine"
      "stacks e = insert (sp (Suc k)) (stacks (cl_env p))" "ran e = ran (cl_env p)"
      "manager_pass (cc_run mems cm cs) (sp (Suc k)) p = Some (run_back ?a (secondary_corotine (of_nat k) (p\<lparr>cl_env := e\<rparr>)))"
    using assms(5) by (auto simp: cc_run_def)
  let ?p = "p\<lparr>cl_env := e, cc_log := cc_log p @ [int k]\<rparr>"
  have "sint (of_nat k :: u64) = int k" using assms(2) by (simp add: signed_of_nat signed_take_bit_int_eq_self)
  moreover have "manager_back ?a e = Inr e" by (rule back_waiting [where t = u]) (simp_all add: e(2,3))
  ultimately have "manager_pass (cc_run mems cm cs) (sp (Suc k)) p = Some (Inr ?p)"
    using e(6) by (simp add: secondary_corotine_def run_back_def)
  moreover have "fst (ms ! i) \<noteq> ?a" if "i < 20" "Suc k \<le> i" for i
    using that assms(2-4) by (auto simp: distinct_conv_nth)
  then have "cc_at e0 m ms sp cs (Suc k) ?p"
    using assms(1,2) e t(1) by (auto simp: cc_at_def atMost_Suc)
  ultimately show ?thesis by blast
qed

text \<open>
  (C40) The nested example runs all its coroutines, and loses them: in an environment without other
  work, 21 passes of the manager run the main coroutine and then the twenty it created, in order,
  each with its own number; after them the manager waits, but none of the 21 tasks and stacks has been
  freed and none is counted as finished, because a routine that returns does not reach \<open>crt_exit\<close>.
\<close>

theorem nested_runs_and_leaks:
  assumes "queue_of e (todo_queue e) []" and "manager_sem e = 0" and "tasks e m = None"
    and "distinct (map fst ms)" and "length ms = 20" and "\<And>a. a \<in> fst ` set ms \<Longrightarrow> tasks e a = None \<and> a \<noteq> m"
    and "cm \<noteq> cs" and "cc_log p = []"
  shows "\<exists>e1 p1. crt_create (Some (m, junk)) None cm 0 e = Inr (cid e + 1, e1) \<and>
    manager_passes (cc_run (map Some ms) cm cs) sp 21 (p\<lparr>cl_env := e1\<rparr>) = Some (Inr p1) \<and>
    cc_log p1 = [0..19] \<and> manager_passes (cc_run (map Some ms) cm cs) sp 22 (p\<lparr>cl_env := e1\<rparr>) = None \<and>
    dom (tasks (cl_env p1)) = insert m (dom (tasks e) \<union> fst ` set ms) \<and>
    stacks (cl_env p1) = stacks e \<union> sp ` {..20} \<and> ran (cl_env p1) = ran e"
proof -
  let ?run = "cc_run (map Some ms) cm cs"
  have "sched e []" using assms(1,2) by (simp add: sched_def)
  from create_sched [OF this assms(3), of junk None cm 0] obtain e1 t where
    e1: "crt_create (Some (m, junk)) None cm 0 e = Inr (cid e + 1, e1)" "sched e1 [m]" "tasks e1 = (tasks e)(m \<mapsto> t)"
      "enters (attr_size None) cm 0 (Some t)" "stacks e1 = stacks e" "ran e1 = ran e" by (auto simp: kept_def)
  let ?p = "p\<lparr>cl_env := e1\<rparr>"
  have "\<exists>p1. manager_passes ?run sp (Suc k) ?p = Some (Inr p1) \<and> cc_at e m ms sp cs k p1" if "k \<le> 20" for k
    using that
  proof (induction k)
    case 0
    from cc_first [of ?p m e t "attr_size None" cm 0 ms cs sp] e1 assms(4-6,8) show ?case by auto
  next
    case (Suc k)
    then obtain p1 where "manager_passes ?run sp (Suc k) ?p = Some (Inr p1)" "cc_at e m ms sp cs k p1" by auto
    with cc_next [of e m ms sp cs k p1 cm "map Some ms"] Suc.prems assms(4,5,7) show ?case by auto
  qed
  from this [of 20] obtain p1 where p1: "manager_passes ?run sp (Suc 20) ?p = Some (Inr p1)" "cc_at e m ms sp cs 20 p1" by auto
  have "manager_pass ?run (sp 21) p1 = None"
    using p1(2) assms(5) by (simp add: cc_at_def sched_def manager_pass_def sem_wait_manager_def)
  moreover have p21: "manager_passes ?run sp 21 ?p = Some (Inr p1)" using p1(1) by simp
  ultimately have "manager_passes ?run sp (Suc 21) ?p = None" by (simp only: manager_passes.simps option.case sum.case)
  moreover have "map int [0..<20] = [0..19]" by (simp add: upt_rec upto.simps)
  ultimately show ?thesis using e1(1) p1(2) p21 by (intro exI [of _ e1] exI [of _ p1]) (simp add: cc_at_def)
qed

theorem nested_runs_and_leaks_witness:
  "\<exists>ms e1 p1. crt_create (Some (2, ex_task)) None 100 0 ex_env = Inr (1, e1) \<and>
    manager_passes (cc_run (map Some ms) 100 200) (\<lambda>n. 1000 + n) 21 \<lparr>cl_env = e1, cc_log = []\<rparr> = Some (Inr p1) \<and>
    cc_log p1 = [0..19] \<and> ran (cl_env p1) = 0"
proof -
  define ms where "ms = map (\<lambda>i. (i, ex_task)) [3..<23 :: nat]"
  have "distinct (map fst ms)" "length ms = 20" by (simp_all add: ms_def comp_def)
  moreover have "tasks ex_env a = None \<and> a \<noteq> 2" if "a \<in> fst ` set ms" for a using that by (auto simp: ms_def ex_env_fields)
  moreover have "manager_sem ex_env = 0" "tasks ex_env 2 = None" by (simp_all add: ex_env_fields)
  ultimately obtain e1 p1 where
    "crt_create (Some (2, ex_task)) None 100 0 ex_env = Inr (cid ex_env + 1, e1)"
    "manager_passes (cc_run (map Some ms) 100 200) (\<lambda>n. 1000 + n) 21 (\<lparr>cl_env = ex_env, cc_log = []\<rparr>\<lparr>cl_env := e1\<rparr>) = Some (Inr p1)"
    "cc_log p1 = [0..19]" "ran (cl_env p1) = ran ex_env"
    using nested_runs_and_leaks [OF ex_env_queue(1), of 2 ms 100 200 "\<lparr>cl_env = ex_env, cc_log = []\<rparr>" ex_task "\<lambda>n. 1000 + n"] by auto
  then show ?thesis by (intro exI [of _ ms] exI [of _ e1] exI [of _ p1]) (simp add: ex_env_fields)
qed

end
