(* ===== verification/Example_Background.thy ===== *)
theory Example_Background
  imports Acoro_Client
begin

text \<open>
  \<^verbatim>\<open>src/example/bg_worker.c\<close>: a coroutine that has a routine run in a background worker and prints the
  thread it ran in. The world of the program is the memory of the thread identifiers that routines
  write through their result pointers; \<open>bg_out\<close> is what the coroutine prints
  behind the size of a thread identifier, \<open>bg_pipe\<close> what it writes to
  the pipe of \<open>main\<close>.
\<close>

section \<open>The program\<close>

record bg_world =
  bg_tid :: "uptr \<Rightarrow> u64 option"

record bg = "bg_world client" +
  bg_out :: "(u64 \<times> u64) list"
  bg_pipe :: "u8 list"

text \<open>\<open>self\<close> is \<open>pthread_self\<close> in the thread that calls the routine.\<close>

definition fetch_bg_thread_id :: "u64 \<Rightarrow> uptr \<Rightarrow> uptr \<Rightarrow> (bg_world, int) syscall" where
  "fetch_bg_thread_id self arg result en w = (0, en, w\<lparr>bg_tid := (bg_tid w)(result \<mapsto> self)\<rparr>)"

text \<open>The calls of worker \<open>i\<close>: a background routine is looked up at its address \<open>cf\<close>.\<close>

definition bg_posix :: "bg_world posix \<Rightarrow> (thread \<Rightarrow> u64) \<Rightarrow> uptr \<Rightarrow> nat \<Rightarrow> bg_world posix" where
  "bg_posix P self cf i =
     P\<lparr>sys_bg := (\<lambda>f x res. if f = cf then fetch_bg_thread_id (self (Worker i)) x res else sys_bg P f x res)\<rparr>"

text \<open>\<open>bg_run_main_func\<close> up to the switch inside \<open>crt_bg_run\<close>, and from there; \<open>tid\<close> is the address of its variable.\<close>

definition bg_run_main_func :: "uptr \<Rightarrow> uptr \<Rightarrow> bg \<Rightarrow> bg res" where
  "bg_run_main_func cf tid p = bind_res (crt_bg_run cf 0 tid (cl_env p)) (\<lambda>e. Inr (p\<lparr>cl_env := e\<rparr>))"

definition bg_run_main_resume :: "(thread \<Rightarrow> u64) \<Rightarrow> uptr \<Rightarrow> bg \<Rightarrow> bg res" where
  "bg_run_main_resume self tid p =
     bind_res (the_init (bg_tid (world (cl_env p)) tid)) (\<lambda>v.
     bind_res (crt_exit (cl_env p)) (\<lambda>e.
       Inr (p\<lparr>cl_env := e, bg_out := bg_out p @ [(self Manager, v)], bg_pipe := bg_pipe p @ [101]\<rparr>)))"

definition bg_run :: "(thread \<Rightarrow> u64) \<Rightarrow> uptr \<Rightarrow> uptr \<Rightarrow> uptr \<Rightarrow> addr \<Rightarrow> (uptr \<times> uptr) option \<Rightarrow> bg \<Rightarrow> bg res" where
  "bg_run self cm cf tid a c p =
     (case c of
        Some (f, x) \<Rightarrow> if f = cm then bg_run_main_func cf tid p else Inl Aborted
      | None \<Rightarrow> bg_run_main_resume self tid p)"

text \<open>The \<open>read\<close> of \<open>main\<close>, which blocks while its pipe is empty (\<open>None\<close>), and its assertion.\<close>

definition bg_main_read :: "bg \<Rightarrow> unit res option" where
  "bg_main_read p = (case bg_pipe p of [] \<Rightarrow> None | c # _ \<Rightarrow> Some (assert_c (c = 101)))"

section \<open>The run\<close>

text \<open>The first pass: the coroutine is queued for the worker whose turn it is.\<close>

lemma bg_first:
  assumes "sched (cl_env p) [m]" and "tasks (cl_env p) m = Some t" and "enters sz cm x (Some t)"
    and "queue_of (cl_env p) (doing_queue (cl_env p)) []" and "pipe_channel (cl_env p) (next_worker (cl_env p)) = []"
  shows "\<exists>e t'. manager_pass (bg_run self cm cf tid) sp p = Some (Inr (p\<lparr>cl_env := e\<rparr>)) \<and> sched e [] \<and>
    tasks e = (tasks (cl_env p))(m \<mapsto> t') \<and> action t' = act_bg_run \<and> stack_ptr t' = Some sp \<and> task_context t' = Ctx_saved \<and>
    args t' = Routine_arg \<lparr>r_func = cf, r_arg = 0, r_result = tid\<rparr> \<and>
    stailq_rep (nxt e) (doing_queue e) [m] \<and> pipe_channel e (next_worker (cl_env p)) = [0xee] \<and>
    stacks e = insert sp (stacks (cl_env p)) \<and> ran e = ran (cl_env p) \<and> world e = world (cl_env p)"
proof -
  from pass_enters [OF assms(1-3), of sp "bg_run self cm cf tid"] obtain e u where
    e: "sched e []" "curr_task_ptr e = Some m" "tasks e = (tasks (cl_env p))(m \<mapsto> u)" "stack_ptr u = Some sp"
      "stacks e = insert sp (stacks (cl_env p))" "ran e = ran (cl_env p)" "same_doing (cl_env p) e" "world e = world (cl_env p)"
      "manager_pass (bg_run self cm cf tid) sp p = Some (run_back m (bg_run_main_func cf tid (p\<lparr>cl_env := e\<rparr>)))"
    by (auto simp: bg_run_def)
  let ?t = "u\<lparr>action := act_bg_run, args := Routine_arg \<lparr>r_func = cf, r_arg = 0, r_result = tid\<rparr>\<rparr>"
  have d: "next_worker e = next_worker (cl_env p)" "pipe_channel e = pipe_channel (cl_env p)" "doing_queue e = doing_queue (cl_env p)"
    using e(7) by (auto simp: same_doing_def next_worker_def)
  have "queue_of e (doing_queue e) []"
    using assms(4) e(1) rep_Nil_iff [of "nxt e" "doing_queue (cl_env p)" "nxt (cl_env p)"] by (simp add: queue_of_def sched_def d)
  moreover have "set_bg_run cf 0 tid e = Inr (e\<lparr>tasks := (tasks e)(m \<mapsto> ?t)\<rparr>)"
    using e(2,3) by (simp add: set_bg_run_def upd_curr_def get_curr_def deref_def upd_task_def)
  ultimately obtain nx q where
    w: "crt_bg_run cf 0 tid e = Inr (e\<lparr>tasks := (tasks e)(m \<mapsto> ?t\<lparr>task_context := Ctx_saved\<rparr>), nxt := nx,
      doing_queue := q, bg_worker_id := bg_worker_id e + 1, pipe_channel := (pipe_channel e)(next_worker e := [0xee])\<rparr>)"
      "stailq_rep nx q [m]"
    using crt_wait_ok [where e = e and a = m and t = u and t' = ?t and ys = "[]" and request = "set_bg_run cf 0 tid"] e(2,3) assms(5)
    by (auto simp: crt_bg_run_def d PIPE_CAPACITY_def)
  let ?e = "e\<lparr>tasks := (tasks e)(m \<mapsto> ?t\<lparr>task_context := Ctx_saved\<rparr>), nxt := nx,
      doing_queue := q, bg_worker_id := bg_worker_id e + 1, pipe_channel := (pipe_channel e)(next_worker e := [0xee])\<rparr>"
  have "manager_pass (bg_run self cm cf tid) sp p = Some (Inr (p\<lparr>cl_env := ?e\<rparr>))"
    using e(9) w(1) by (simp add: bg_run_main_func_def run_back_def manager_back_def get_task_def)
  moreover have "sched ?e []" using e(1) rep_Nil_iff [of nx "todo_queue e" "nxt e"] by (simp add: sched_def queue_of_def)
  ultimately show ?thesis using e w(2) d by (intro exI [of _ ?e] exI [of _ "?t\<lparr>task_context := Ctx_saved\<rparr>"]) simp
qed

text \<open>The worker runs the routine in its own thread and hands the coroutine back.\<close>

lemma bg_worker:
  assumes "sched e []" and "tasks e m = Some t" and "action t = act_bg_run"
    and "args t = Routine_arg \<lparr>r_func = cf, r_arg = 0, r_result = tid\<rparr>"
    and "stailq_rep (nxt e) (doing_queue e) [m]" and "pipe_channel e i = [0xee]"
  shows "\<exists>e' t'. new_event_handler (bg_posix P self cf i) i EV_READ e = Inr e' \<and> sched e' [m] \<and>
    tasks e' = (tasks e)(m \<mapsto> t') \<and> action t' = act_bg_run_done \<and> stack_ptr t' = stack_ptr t \<and> task_context t' = task_context t \<and>
    ret_val t' = Some 0 \<and> queue_of e' (doing_queue e') [] \<and> pipe_channel e' i = [] \<and> stacks e' = stacks e \<and> ran e' = ran e \<and>
    bg_tid (world e') tid = Some (self (Worker i))"
proof -
  let ?t = "t\<lparr>ret_val := Some 0, ret_err_code := Some 0, action := act_bg_run_done\<rparr>"
  let ?w = "(world e)\<lparr>bg_tid := (bg_tid (world e))(tid \<mapsto> self (Worker i))\<rparr>"
  have "\<exists>e'. new_event_handler (bg_posix P self cf i) i EV_READ e = Inr e' \<and> sched e' [m] \<and> tasks e' = (tasks e)(m \<mapsto> ?t) \<and>
    queue_of e' (doing_queue e') [] \<and> pipe_channel e' = (pipe_channel e)(i := []) \<and> stacks e' = stacks e \<and> ran e' = ran e \<and> world e' = ?w"
    by (rule worker_hands_back [OF assms(1,2,5,6), where en = "errno e"])
      (use assms(2-4) in \<open>simp add: do_task_def get_task_def do_bg_run_def bg_posix_def fetch_bg_thread_id_def sys_def set_ret_def upd_task_def\<close>)
  then obtain e' where "new_event_handler (bg_posix P self cf i) i EV_READ e = Inr e'" "sched e' [m]" "tasks e' = (tasks e)(m \<mapsto> ?t)"
    "queue_of e' (doing_queue e') []" "pipe_channel e' = (pipe_channel e)(i := [])" "stacks e' = stacks e" "ran e' = ran e" "world e' = ?w" by blast
  then show ?thesis by (intro exI [of _ e'] exI [of _ ?t]) simp
qed

text \<open>The second pass: the coroutine prints both threads, writes the byte \<open>main\<close> waits for, and ends.\<close>

lemma bg_second:
  assumes "sched (cl_env p) [m]" and "tasks (cl_env p) m = Some t" and "action t = act_bg_run_done" and "task_context t = Ctx_saved"
    and "stack_ptr t = Some st" and "bg_tid (world (cl_env p)) tid = Some v"
  shows "\<exists>e. manager_pass (bg_run self cm cf tid) sp p =
      Some (Inr (p\<lparr>cl_env := e, bg_out := bg_out p @ [(self Manager, v)], bg_pipe := bg_pipe p @ [101]\<rparr>)) \<and>
    sched e [] \<and> tasks e = (tasks (cl_env p))(m := None) \<and> stacks e = stacks (cl_env p) - {st} \<and> ran e = ran (cl_env p) + 1 \<and>
    same_doing (cl_env p) e"
proof -
  from pass_resumed [OF assms(1,2) _ assms(4), of "bg_run self cm cf tid" sp] assms(3) obtain e where
    e: "sched e []" "curr_task_ptr e = Some m" "tasks e = tasks (cl_env p)" "stacks e = stacks (cl_env p)" "ran e = ran (cl_env p)"
      "same_doing (cl_env p) e" "world e = world (cl_env p)"
      "manager_pass (bg_run self cm cf tid) sp p = Some (run_back m (bg_run_main_resume self tid (p\<lparr>cl_env := e\<rparr>)))"
    by (auto simp: bg_run_def)
  have "tasks e m = Some t" using assms(2) e(3) by simp
  from exit_back [OF e(1,2) this assms(5)] obtain e1 e2 where
    x: "crt_exit e = Inr e1" "manager_back m e1 = Inr e2" "sched e2 []" "tasks e2 = (tasks e)(m := None)" "stacks e2 = stacks e - {st}"
      "ran e2 = ran e + 1" "same_doing e e2" by auto
  with e assms(6) show ?thesis
    by (intro exI [of _ e2]) (auto simp: bg_run_main_resume_def run_back_def the_init_def same_doing_def)
qed

text \<open>
  (C15) The background example runs to its end: in an environment without other work, the manager's first
  pass queues the coroutine for the worker \<open>i\<close> whose turn it is, and \<open>main\<close> still waits; the worker's event
  handler runs \<open>fetch_bg_thread_id\<close> in its own thread and hands the coroutine back; the manager's second
  pass prints the manager's thread and the worker's, in this order, and writes the byte. Then \<open>main\<close> reads
  the byte it expects, the task and its stack are freed, both queues are empty and the manager waits.
\<close>

theorem bg_worker_completes:
  assumes "queue_of e (todo_queue e) []" and "manager_sem e = 0" and "queue_of e (doing_queue e) []"
    and "tasks e m = None" and "next_worker e = i" and "pipe_channel e i = []" and "bg_out p = []" and "bg_pipe p = []"
  shows "\<exists>e1 p1 e2 p2. crt_create (Some (m, junk)) None cm x e = Inr (cid e + 1, e1) \<and>
    manager_pass (bg_run self cm cf tid) sp (p\<lparr>cl_env := e1\<rparr>) = Some (Inr p1) \<and> bg_main_read p1 = None \<and>
    new_event_handler (bg_posix P self cf i) i EV_READ (cl_env p1) = Inr e2 \<and>
    manager_pass (bg_run self cm cf tid) sp' (p1\<lparr>cl_env := e2\<rparr>) = Some (Inr p2) \<and>
    bg_out p2 = [(self Manager, self (Worker i))] \<and> bg_main_read p2 = Some (Inr ()) \<and>
    tasks (cl_env p2) = tasks e \<and> stacks (cl_env p2) = stacks e - {sp} \<and> ran (cl_env p2) = ran e + 1 \<and>
    queue_of (cl_env p2) (todo_queue (cl_env p2)) [] \<and> queue_of (cl_env p2) (doing_queue (cl_env p2)) [] \<and>
    pipe_channel (cl_env p2) i = [] \<and> manager_pass (bg_run self cm cf tid) sp' p2 = None"
proof -
  have "sched e []" using assms(1,2) by (simp add: sched_def)
  from create_sched [OF this assms(4), of junk None cm x] obtain e1 t where
    e1: "crt_create (Some (m, junk)) None cm x e = Inr (cid e + 1, e1)" "sched e1 [m]" "tasks e1 = (tasks e)(m \<mapsto> t)"
      "enters (attr_size None) cm x (Some t)" "kept e e1" by auto
  have k: "doing_queue e1 = doing_queue e" "pipe_channel e1 = pipe_channel e" "next_worker e1 = i" "stacks e1 = stacks e" "ran e1 = ran e"
    using e1(5) assms(5) by (auto simp: kept_def same_doing_def next_worker_def)
  have "queue_of e1 (doing_queue e1) []"
    using assms(3) e1(2) rep_Nil_iff [of "nxt e1" "doing_queue e" "nxt e"] by (simp add: queue_of_def sched_def k)
  with bg_first [of "p\<lparr>cl_env := e1\<rparr>" m t "attr_size None" cm x self cf tid sp] e1 k assms(6) obtain f u where
    f: "manager_pass (bg_run self cm cf tid) sp (p\<lparr>cl_env := e1\<rparr>) = Some (Inr (p\<lparr>cl_env := f\<rparr>))" "sched f []"
      "tasks f = (tasks e)(m \<mapsto> u)" "action u = act_bg_run" "stack_ptr u = Some sp" "task_context u = Ctx_saved"
      "args u = Routine_arg \<lparr>r_func = cf, r_arg = 0, r_result = tid\<rparr>" "stailq_rep (nxt f) (doing_queue f) [m]"
      "pipe_channel f i = [0xee]" "stacks f = insert sp (stacks e)" "ran f = ran e" by auto
  have "tasks f m = Some u" using f(3) by simp
  from bg_worker [OF f(2) this f(4,7-9), of P self] obtain g w where
    g: "new_event_handler (bg_posix P self cf i) i EV_READ f = Inr g" "sched g [m]" "tasks g = (tasks e)(m \<mapsto> w)"
      "action w = act_bg_run_done" "stack_ptr w = Some sp" "task_context w = Ctx_saved" "queue_of g (doing_queue g) []"
      "pipe_channel g i = []" "stacks g = insert sp (stacks e)" "ran g = ran e" "bg_tid (world g) tid = Some (self (Worker i))"
    using f(3,5,6,10,11) by auto
  from bg_second [of "p\<lparr>cl_env := g\<rparr>" m w sp tid "self (Worker i)" self cm cf sp'] g obtain h where
    h: "manager_pass (bg_run self cm cf tid) sp' (p\<lparr>cl_env := g\<rparr>) =
        Some (Inr (p\<lparr>cl_env := h, bg_out := bg_out p @ [(self Manager, self (Worker i))], bg_pipe := bg_pipe p @ [101]\<rparr>))"
      "sched h []" "tasks h = (tasks e)(m := None)" "stacks h = stacks e - {sp}" "ran h = ran e + 1" "same_doing g h" by auto
  let ?p2 = "p\<lparr>cl_env := h, bg_out := bg_out p @ [(self Manager, self (Worker i))], bg_pipe := bg_pipe p @ [101]\<rparr>"
  have "tasks h = tasks e" using h(3) assms(4) by (simp add: fun_upd_idem)
  moreover have "queue_of h (doing_queue h) []"
    using g(7) h(2,6) rep_Nil_iff [of "nxt h" "doing_queue h" "nxt g"] by (simp add: queue_of_def sched_def same_doing_def)
  moreover have "manager_pass (bg_run self cm cf tid) sp' ?p2 = None"
    using h(2) by (simp add: manager_pass_def sem_wait_manager_def sched_def)
  moreover have "queue_of h (todo_queue h) []" "pipe_channel h i = []" using h(2,6) g(8) by (auto simp: sched_def same_doing_def)
  ultimately show ?thesis using e1(1) f(1) g(1) h(1,4,5) assms(7,8)
    by (intro exI [of _ e1] exI [of _ "p\<lparr>cl_env := f\<rparr>"] exI [of _ g] exI [of _ ?p2]) (simp add: bg_main_read_def)
qed

definition ex_self :: "thread \<Rightarrow> u64" where
  "ex_self th = (case th of Manager \<Rightarrow> 10 | Worker i \<Rightarrow> 20 + of_nat i | Foreign i \<Rightarrow> 5)"

theorem bg_worker_completes_witness:
  "\<forall>P. \<exists>e1 p1 e2 p2. crt_create (Some (1, ex_task)) None 100 7 (env_zero 4 (\<lambda>_. 0) \<lparr>bg_tid = Map.empty\<rparr>) = Inr (1, e1) \<and>
     manager_pass (bg_run ex_self 100 200 300) 50 \<lparr>cl_env = e1, bg_out = [], bg_pipe = []\<rparr> = Some (Inr p1) \<and>
     new_event_handler (bg_posix P ex_self 200 0) 0 EV_READ (cl_env p1) = Inr e2 \<and>
     manager_pass (bg_run ex_self 100 200 300) 60 (p1\<lparr>cl_env := e2\<rparr>) = Some (Inr p2) \<and>
     bg_out p2 = [(10, 20)] \<and> bg_main_read p2 = Some (Inr ())"
proof
  fix P :: "bg_world posix"
  let ?e = "env_zero 4 (\<lambda>_. 0) \<lparr>bg_tid = Map.empty\<rparr>"
  have q: "queue_of ?e (todo_queue ?e) []" "queue_of ?e (doing_queue ?e) []"
    by (simp_all add: queue_of_def env_zero_def list_new_def rep_init)
  have "manager_sem ?e = 0" "tasks ?e 1 = None" "next_worker ?e = 0" "pipe_channel ?e 0 = []" "cid ?e = 0"
    by (simp_all add: env_zero_def next_worker_def)
  with bg_worker_completes [OF q(1) _ q(2), of 1 0 "\<lparr>cl_env = ?e, bg_out = [], bg_pipe = []\<rparr>" ex_task 100 7 ex_self 200 300 50 P 60]
  show "\<exists>e1 p1 e2 p2. crt_create (Some (1, ex_task)) None 100 7 ?e = Inr (1, e1) \<and>
     manager_pass (bg_run ex_self 100 200 300) 50 \<lparr>cl_env = e1, bg_out = [], bg_pipe = []\<rparr> = Some (Inr p1) \<and>
     new_event_handler (bg_posix P ex_self 200 0) 0 EV_READ (cl_env p1) = Inr e2 \<and>
     manager_pass (bg_run ex_self 100 200 300) 60 (p1\<lparr>cl_env := e2\<rparr>) = Some (Inr p2) \<and>
     bg_out p2 = [(10, 20)] \<and> bg_main_read p2 = Some (Inr ())"
    by (simp add: ex_self_def) blast
qed

end
