(* ===== verification/Spec2Isabelle.thy ===== *)
theory Spec2Isabelle
  imports Bsdqueue_Programs Libev_Contract Acoro_Results Acoro_Lifecycle
    Example_Clients Example_Pingpong Example_Nested Example_Background
begin

text \<open>
  A verification of async_coro, a library of coroutines over \<open>ucontext\<close> for programs that wait for
  disks, sockets and timers.

  \<^bold>\<open>The program.\<close> \<^verbatim>\<open>src/src/acoro.c\<close> runs all coroutines in one \<^emph>\<open>manager\<close> thread. A coroutine
  that has to wait stores a request in its task, pushes the task to the \<open>doing\<close> queue, writes a byte
  to the pipe of a \<^emph>\<open>background worker\<close> and switches to the manager. The worker's event loop (libev,
  \<^verbatim>\<open>src/vendor/ev.c\<close>) calls \<open>new_event_handler\<close> for the byte; it takes a task from the queue and runs
  its request to the end (disk, blocking connect, background routine) or parks it in the loop with
  watchers (socket transfers, connect with timeout, accept, sleep), whose callbacks finish it later. A
  finished task goes to the \<open>todo\<close> queue with a post of the manager's semaphore, and the manager
  resumes the coroutine. The queues are the STAILQ lists of \<^verbatim>\<open>src/src/bsdqueue.h\<close>.

  \<^bold>\<open>The theories.\<close> Every definition carries the name of the code it models.
  \<^item> \<open>Prelude\<close>: the result type (\<open>fault + 'a\<close>: NULL and dangling pointers, uninitialised reads, accesses
    outside an array, failed assertions and \<open>abort\<close> are values), its bind, C integers.
  \<^item> \<open>Bsdqueue\<close>, \<open>Bsdqueue_Programs\<close>: the queue macros on a map of next pointers; \<open>stailq_rep\<close> is the
    list a head represents. The locale \<open>task_fifo\<close> is what the library needs of a queue, interpreted
    by the macros. Programs of queue operations equal programs on lists; the errors of the macros.
  \<^item> \<open>Libev_Heap\<close>: the 4-ary timer heap with its back indices.
  \<^item> \<open>Libev_Loop\<close>, \<open>Libev_Watchers\<close>, \<open>Libev_Reify\<close>, \<open>Libev_Contract\<close>: watchers, descriptor lists and
    changes, events, expired timers and pending callbacks, the invariant of a loop (\<open>lp_inv\<close>), and the
    contracts the library relies on: \<open>watcher_loop\<close> for what a loop does on its own, \<open>watcher_client\<close>
    on top of it with the starts and stops of the handlers, both interpreted by the functions of libev.
  \<^item> \<open>Acoro_Env\<close>: tasks, arguments, the environment, and \<open>posix\<close>, the system calls as a parameter.
  \<^item> \<open>Acoro_Worker\<close>, \<open>Acoro_Manager\<close>, \<open>Acoro_Init\<close>: the functions of \<^verbatim>\<open>acoro.c\<close> and \<^verbatim>\<open>acoro.h\<close>.
  \<^item> \<open>Acoro_Handlers\<close>: each function of a worker completes its task or parks it and touches nothing
    else (\<open>completed\<close>, \<open>parked\<close>, \<open>frame\<close>).
  \<^item> \<open>Acoro_Schedule\<close>: the abstract scheduler, what the library promises about where tasks are and in
    which order they run, without links, counters and watchers.
  \<^item> \<open>Acoro_System\<close>, \<open>Acoro_Safety\<close>: all threads and the kernel as the step relation \<open>sys_step\<close>, its
    invariant \<open>sys_inv\<close>, preserved by every step, each of which is a step of the abstract scheduler
    (\<open>sys_step_sim\<close>), and the reachable states. \<open>sys_step\<close> keeps the obligations below; \<open>any_step\<close> adds the steps
    that break one of them, with the \<open>breach\<close> they are. \<open>manager_run\<close> counts the manager's moves in a run of all threads.
  \<^item> \<open>Acoro_Calls\<close>, \<open>Acoro_Results\<close>, \<open>Acoro_Lifecycle\<close>: what the calls of the interface give their
    caller, from \<open>crt_create\<close> to the bytes of a socket transfer; starting and destroying the library, and the
    manager's way to the task at the head of its queue.
  \<^item> \<open>Acoro_Client\<close>: what programs on the library share. \<open>fallible_machine\<close> is a machine with an
    invariant and events that cannot make it fault, interpreted by the chat server; \<open>manager_pass\<close> is
    one pass of the manager over the coroutines of a program, \<open>served\<close> the way of a request through the manager, a
    worker and the manager again.
  \<^item> \<open>Example_Servers\<close>, \<open>Example_Chat\<close>, \<open>Example_Clients\<close>, \<open>Example_Pingpong\<close>, \<open>Example_Nested\<close>,
    \<open>Example_Background\<close>: the programs under \<^verbatim>\<open>src/example\<close>: what the servers send back and where they leave
    their buffers, the shared table of the chat server, client and server together, three programs run
    to their end by the manager, one of them with a worker.
  \<^item> this theory: the properties of the whole system, among them that it refines the abstract scheduler.

  \<^bold>\<open>Concurrency.\<close> A step is code that no other thread can come between. Functions are cut where
  threads share something: \<open>Push\<close>, \<open>Shift\<close> and \<open>Unshift\<close> (each under the queue's mutex), the semaphore,
  the pipes. A worker's loop and the task it works on belong to that worker alone, so a handler is one
  step up to its \<open>sem_post\<close>.

  \<^bold>\<open>Loops.\<close> Loops that end structurally are \<open>fun\<close>; the others are \<open>partial_function (option)\<close>, where
  \<open>None\<close> is a run that never ends: a walk of a cyclic list, \<open>fd_reify\<close>, \<open>timers_reify\<close>, the loop of a
  socket transfer; the loops of the ping-pong coroutines are \<open>function\<close> with a measure. The theorems
  prove that they return; the transfer loop ends because every pass moves bytes or was interrupted, and
  \<open>posix_ok\<close> gives a measure of the interruptions to come. No fuel is used.

  \<^bold>\<open>Hypotheses.\<close> \<open>posix_ok\<close>, \<open>pipe_ok\<close>, \<open>reads_input\<close>, \<open>writes_output\<close>, \<open>pipe_view\<close>, \<open>flag_view\<close> and
  \<open>socket_view\<close> state documented behaviour of the system calls. The steps of \<open>sys_step\<close> have the obligations of
  the program and of the machine as guards:
  descriptors are non-negative, those of socket transfers are non-blocking, transfers ask for less
  than \<open>2 ^ 63\<close> bytes; semaphores start with a non-negative value, have one waiter, stay below \<open>INT_MAX\<close>, and are posted
  once per waiter (\<open>second_post_breaks_queue\<close> shows what two posts do) with an implemented priority;
  fewer than 65536 wake-ups are unread (\<open>full_pipe_asserts\<close>); there is memory for tasks and loops; the clock
  does not go back; and the kernel reports no event for an empty pipe and does not reject the
  descriptor of a pipe or of an \<open>accept\<close> (whose error branch reads an uninitialised variable). These are the
  only steps left out: \<open>any_step\<close> has all of them, and \<open>faults_come_from_breaches\<close> says that a run can fault only after
  one of them. The invariants of reachable states hold in every state before the first of them.

  \<^bold>\<open>Not modelled.\<close> The contents of coroutine stacks and registers (a context is the routine it will
  enter, or saved); the failure of \<open>malloc\<close> for stacks and arrays, of \<open>pthread_create\<close> and of
  \<open>sem_init\<close>; what other threads do between the beginning of \<open>destroy_coroutine_env\<close> and their end, except for
  the steps \<open>destroy_races\<close> names; calls of the coroutine interface other than \<open>crt_create\<close> by threads of the user; of libev the other watchers and
  backends, the bookkeeping of the epoll backend beyond whether a descriptor is taken, loop creation and the reading of clocks, whose results are any
  values here; the \<open>main\<close> functions of the example programs that only start the library and sleep, and
  the tests, which are clients of the interface.
\<close>

section \<open>Where a task can be\<close>

text \<open>
  The places a task can be in, read off the state: not allocated, in one of the two queues
  (whose contents are \<open>xs\<close> and \<open>ys\<close>), in the hands of a worker, parked in a worker's loop, run by
  the manager, waiting in a semaphore, or left behind by a routine that returned without
  \<open>crt_exit\<close>.
\<close>

fun in_place :: "'w system \<Rightarrow> addr list \<Rightarrow> addr list \<Rightarrow> addr \<Rightarrow> owner \<Rightarrow> bool" where
  "in_place s xs ys a O_none \<longleftrightarrow> tasks (env s) a = None"
| "in_place s xs ys a O_todo \<longleftrightarrow> a \<in> set xs"
| "in_place s xs ys a O_doing \<longleftrightarrow> a \<in> set ys"
| "in_place s xs ys a (O_hand i) \<longleftrightarrow> i < wcount s \<and> wpc s i = W_run a"
| "in_place s xs ys a (O_parked i) \<longleftrightarrow>
     i < wcount s \<and> wpc s i \<noteq> W_start \<and>
     (engaged (worker_ev (env s) i) (IoW a) \<or> engaged (worker_ev (env s) i) (TimerW a))"
| "in_place s xs ys a O_running \<longleftrightarrow>
     mpc s = M_switch a \<or> mpc s = M_run a \<or>
     mpc s = M_back a \<and> (\<exists>t. tasks (env s) a = Some t \<and> action t = act_finished_coroutine)"
| "in_place s xs ys a O_sem \<longleftrightarrow> (\<exists>k. sem_task_ptr (sems s k) = Some a \<and> sem_value (sems s k) = 0)"
| "in_place s xs ys a O_lost \<longleftrightarrow> a \<in> returned s"

lemma place_iff:
  assumes i: "inv_with NB {} own xs ys s"
  shows "in_place s xs ys a ow \<longleftrightarrow> own a = ow"
proof -
  note d = inv_withD [OF i]
  show ?thesis
  proof (cases ow)
    case O_none then show ?thesis using d(2) by (simp add: owned_ok_def)
  next
    case O_todo then show ?thesis using d(1) by (simp add: queues_ok_def)
  next
    case O_doing then show ?thesis using d(1) by (simp add: queues_ok_def)
  next
    case (O_hand k) then show ?thesis using d(4) by (simp add: workers_ok_def)
  next
    case (O_parked k)
    have "engaged (worker_ev (env s) k) (IoW a) \<or> engaged (worker_ev (env s) k) (TimerW a)" if o: "own a = O_parked k"
    proof -
      from owned_task [OF d(2), of a] o obtain t where "parked_ok NB (worker_ev (env s) k) a t" by (auto simp: task_ok_def)
      then show ?thesis by (simp add: parked_ok_def split: if_splits)
    qed
    moreover have "k < wcount s \<Longrightarrow> wpc s k \<noteq> W_start \<Longrightarrow>
        engaged (worker_ev (env s) k) (IoW a) \<or> engaged (worker_ev (env s) k) (TimerW a) \<Longrightarrow> own a = O_parked k"
    proof -
      assume k: "k < wcount s" "wpc s k \<noteq> W_start"
      then have "loop_okay {} own k (pipe_channel (env s) k) (worker_ev (env s) k)" using d(4) by (simp add: workers_ok_def)
      then show "engaged (worker_ev (env s) k) (IoW a) \<or> engaged (worker_ev (env s) k) (TimerW a) \<Longrightarrow> own a = O_parked k"
        unfolding loop_okay_def by blast
    qed
    moreover have "own a = O_parked k \<Longrightarrow> k < wcount s \<and> wpc s k \<noteq> W_start" using d(4) unfolding workers_ok_def by blast
    ultimately show ?thesis unfolding O_parked in_place.simps by blast
  next
    case O_running then show ?thesis using d(5) by (cases "mpc s") (auto simp: manager_ok_def)
  next
    case O_sem then show ?thesis using d(6) by (auto simp: sems_ok_def)
  next
    case O_lost then show ?thesis using d(6) by (simp add: sems_ok_def)
  qed
qed

text \<open>The state \<open>S\<close> of the abstract scheduler says what the queues and the places of the system are.\<close>

definition refines :: "'w system \<Rightarrow> schedule \<Rightarrow> bool" where
  "refines s S \<longleftrightarrow>
     stailq_rep (nxt (env s)) (todo_queue (env s)) (todo S) \<and> stailq_rep (nxt (env s)) (doing_queue (env s)) (doing S) \<and>
     (\<forall>a ow. in_place s (todo S) (doing S) a ow \<longleftrightarrow> place S a = ow)"

lemma inv_refines:
  assumes "inv_with NB {} own xs ys s"
  shows "refines s \<lparr>place = own, todo = xs, doing = ys\<rparr>"
  using inv_withD(1) [OF assms] place_iff [OF assms] by (simp add: refines_def queues_ok_def)

lemma step_refines:
  assumes "posix_ok m NB P" and "pipe_ok P" and "\<And>k. 0 \<le> sint (v k)" and "reachable P NB th n en w v (Inr s)"
  shows "\<exists>S. refines s S \<and> sched_reach S \<and>
    (\<forall>pfd s'. (\<forall>i. 0 \<le> pfd i) \<longrightarrow> sys_step P NB pfd s (Inr s') \<longrightarrow> (\<exists>S'. refines s' S' \<and> sched_step S S'))"
proof -
  from reachable_sched [OF assms] obtain own xs ys where i: "inv_with NB {} own xs ys s"
    and r: "sched_reach \<lparr>place = own, todo = xs, doing = ys\<rparr>" by blast
  have "\<exists>S'. refines s' S' \<and> sched_step \<lparr>place = own, todo = xs, doing = ys\<rparr> S'"
    if fd: "\<forall>i. 0 \<le> pfd i" and st: "sys_step P NB pfd s (Inr s')" for pfd s'
  proof -
    from fd have "\<And>i. 0 \<le> pfd i" by blast
    from sys_step_sim [OF assms(1) this i st] obtain own' xs' ys' where "inv_with NB {} own' xs' ys' s'"
      "sched_step \<lparr>place = own, todo = xs, doing = ys\<rparr> \<lparr>place = own', todo = xs', doing = ys'\<rparr>"
      by (auto simp: inv_to_def)
    with inv_refines show ?thesis by blast
  qed
  with inv_refines [OF i] r show ?thesis by blast
qed

section \<open>Properties of the whole system\<close>

text \<open>
  (C1) Faults come from breaches: take any run from the state \<open>init_coroutine_env\<close> sets up, any interleaving of the
  manager with the coroutines it runs, the background workers, the event loops, the kernel and the threads that create
  coroutines, with steps that keep the obligations of the program and of the machine and steps that break them. If it
  ends in a NULL or dangling pointer, an uninitialised read, a failed assertion or a call of \<open>abort\<close>, one of its steps
  was a breach of an obligation: a socket request on a blocking or negative descriptor or for \<open>2 ^ 63\<close> bytes or
  more, a request to a worker with a full pipe, a \<open>malloc\<close> or \<open>ev_loop_new\<close> that failed, a semaphore initialised with a
  negative value or while somebody waits in it, a post with another flag, at \<open>INT_MAX\<close> or a second one for the
  same waiter, a second waiter, an event for an empty pipe or with the error bit, a clock that goes back,
  or a kernel that does not watch the descriptor of a pipe or of an \<open>accept\<close>. And four of these are always
  faults at once: the full pipe, the two failed allocations and the other flag.
\<close>

theorem faults_come_from_breaches:
  assumes "posix_ok m NB P" and "pipe_ok P" and "\<And>k. 0 \<le> sint (v k)" and "any_run P NB th n en w v bs r"
  shows "((\<exists>f. r = Inl f) \<longrightarrow> (\<exists>b. Some b \<in> set bs)) \<and>
    (\<forall>us b. bs = us @ [Some b] \<longrightarrow>
      (b = Full_pipe \<longrightarrow> r = Inl AssertFailed) \<and> (b = No_memory \<longrightarrow> r = Inl NullDeref) \<and>
      (b = Bad_flag \<longrightarrow> r = Inl Aborted) \<and> (b = No_loop \<longrightarrow> r = Inl AssertFailed))"
proof (intro conjI allI impI)
  show "\<exists>b. Some b \<in> set bs" if "\<exists>f. r = Inl f"
  proof (rule ccontr)
    assume "\<nexists>b. Some b \<in> set bs"
    then have "set bs \<subseteq> {None}" by (metis insertCI not_Some_eq subsetI)
    from reachable_inv [OF assms(1-3) clean_run [OF assms(4) this]] that show False by auto
  qed
qed (use last_breach [of P NB th n en w v] assms(4) in blast)+

theorem faults_come_from_breaches_witness:
  "(\<exists>s bs. any_run ex_posix {} (Foreign 0) 2 (\<lambda>_. 0) () (\<lambda>_. 0) bs (Inr s) \<and> mpc s = M_run 1 \<and> set bs \<subseteq> {None} \<and>
     (\<forall>r. sys_step ex_posix {} (CurrReadPipe [(3, 4), (3, 4)]) s r \<longrightarrow> (\<exists>s'. r = Inr s'))) \<and>
   (\<exists>b. any_run ex_posix {} (Foreign 0) 2 (\<lambda>_. 0) () (\<lambda>_. 0) [Some No_memory] (Inl NullDeref) \<and> Some b \<in> set [Some No_memory])"
proof
  let ?p = "CurrReadPipe [(3, 4), (3, 4)]" and ?s0 = "init_system (env_zero 2 (\<lambda>_. 0) ()) (\<lambda>_. 0)"
  have v: "\<And>k. 0 \<le> sint ((\<lambda>_. 0 :: u32) k)" by simp
  obtain s where s: "sys_reach ex_posix {} ?p ?s0 (Inr s)" "mpc s = M_run 1" using ex_run ex_init by (auto simp: reachable_def)
  from reach_clean [OF s(1)] obtain k where k: "any_reach ex_posix {} ?p ?s0 (replicate k None) (Inr s)" by blast
  have "\<exists>s'. r = Inr s'" if "sys_step ex_posix {} ?p s r" for r
  proof -
    have "any_run ex_posix {} (Foreign 0) 2 (\<lambda>_. 0) () (\<lambda>_. 0) (replicate k None @ [None]) r"
      using any_next [OF k a_step [OF that]] ex_init by (auto simp: any_run_def)
    from faults_come_from_breaches [OF ex_posix_ok v this, THEN conjunct1] show ?thesis by (cases r) auto
  qed
  moreover have "any_run ex_posix {} (Foreign 0) 2 (\<lambda>_. 0) () (\<lambda>_. 0) (replicate k None) (Inr s)"
    using k ex_init by (auto simp: any_run_def)
  ultimately show "\<exists>s bs. any_run ex_posix {} (Foreign 0) 2 (\<lambda>_. 0) () (\<lambda>_. 0) bs (Inr s) \<and> mpc s = M_run 1 \<and> set bs \<subseteq> {None} \<and>
     (\<forall>r. sys_step ex_posix {} (CurrReadPipe [(3, 4), (3, 4)]) s r \<longrightarrow> (\<exists>s'. r = Inr s'))"
    using s(2) by (intro exI [of _ s] exI [of _ "replicate k None"]) auto
  have "any_reach ex_posix {} ?p ?s0 ([] @ [Some No_memory]) (Inl NullDeref)"
    using any_next [OF any_init a_f_create [of ex_posix "{}" ?p ?s0 None 7 9]] by (simp add: create_push_def)
  then show "\<exists>b. any_run ex_posix {} (Foreign 0) 2 (\<lambda>_. 0) () (\<lambda>_. 0) [Some No_memory] (Inl NullDeref) \<and> Some b \<in> set [Some No_memory]"
    using ex_init by (auto simp: any_run_def)
qed

text \<open>
  (C3) Every task is in exactly one place: in every reachable state the two queues represent
  lists \<open>xs\<close> and \<open>ys\<close>, and every address is unallocated, in one of the queues, with one worker,
  parked in one loop, running, waiting in a semaphore, or left behind, and only one of these.
\<close>

theorem task_in_one_place:
  assumes "posix_ok m NB P" and "pipe_ok P" and "\<And>k. 0 \<le> sint (v k)" and "reachable P NB th n en w v (Inr s)"
  shows "\<exists>xs ys. stailq_rep (nxt (env s)) (todo_queue (env s)) xs \<and> stailq_rep (nxt (env s)) (doing_queue (env s)) ys \<and>
    (\<forall>a. \<exists>!ow. in_place s xs ys a ow)"
proof -
  from reachable_inv [OF assms] obtain own xs ys where i: "inv_with NB {} own xs ys s" by (auto simp: sys_inv_def)
  have "\<exists>!ow. in_place s xs ys a ow" for a using place_iff [OF i] by simp
  with inv_withD(1) [OF i] show ?thesis unfolding queues_ok_def by blast
qed

theorem task_in_one_place_witness:
  "\<exists>s xs ys. mpc s = M_run 1 \<and> stailq_rep (nxt (env s)) (todo_queue (env s)) xs \<and>
     stailq_rep (nxt (env s)) (doing_queue (env s)) ys \<and> (\<forall>a. \<exists>!ow. in_place (s :: unit system) xs ys a ow)"
proof -
  obtain s where s: "reachable ex_posix {} (Foreign 0) 2 (\<lambda>_. 0) () (\<lambda>_. 0) (Inr s)" "mpc s = M_run 1" using ex_run by blast
  have v: "\<And>k. 0 \<le> sint ((\<lambda>_. 0 :: u32) k)" by simp
  from task_in_one_place [OF ex_posix_ok v s(1)] s(2) show ?thesis by blast
qed

text \<open>
  The member of the argument union that belongs to an action: the one \<open>coroutine_set_*\<close> or \<open>crt_create\<close>
  writes with it and the function for the action reads.
\<close>

fun arg_member :: "action_t \<Rightarrow> args_u \<Rightarrow> bool" where
  "arg_member act_new_coroutine u = (case u of Init_arg _ \<Rightarrow> True | _ \<Rightarrow> False)"
| "arg_member act_disk_open u = (case u of Open_arg _ \<Rightarrow> True | _ \<Rightarrow> False)"
| "arg_member act_disk_read u = (case u of Io_arg _ \<Rightarrow> True | _ \<Rightarrow> False)"
| "arg_member act_disk_write u = (case u of Io_arg _ \<Rightarrow> True | _ \<Rightarrow> False)"
| "arg_member act_sock_read u = (case u of Io_arg _ \<Rightarrow> True | _ \<Rightarrow> False)"
| "arg_member act_sock_write u = (case u of Io_arg _ \<Rightarrow> True | _ \<Rightarrow> False)"
| "arg_member act_tcp_blocked_connect u = (case u of Connect_arg _ \<Rightarrow> True | _ \<Rightarrow> False)"
| "arg_member act_tcp_timeout_connect u = (case u of Connect_arg _ \<Rightarrow> True | _ \<Rightarrow> False)"
| "arg_member act_msleep u = (case u of General_arg _ \<Rightarrow> True | _ \<Rightarrow> False)"
| "arg_member act_bg_run u = (case u of Routine_arg _ \<Rightarrow> True | _ \<Rightarrow> False)"
| "arg_member act_tcp_accept u = (case u of Tcp_accept_arg _ \<Rightarrow> True | _ \<Rightarrow> False)"
| "arg_member _ u = True"

lemma request_member: "request_ok NB t \<Longrightarrow> arg_member (action t) (args t) \<and> action t \<noteq> act_new_coroutine \<and> \<not> resumable (action t)"
  by (cases "action t") (auto simp: request_ok_def sock_request_def resumable_def)

lemma todo_member: "todo_ok t \<Longrightarrow> arg_member (action t) (args t) \<and> (action t = act_new_coroutine \<or> resumable (action t))"
  by (cases "action t") (auto simp: todo_ok_def resumable_def)

lemma parked_member:
  "parked_ok NB l a t \<Longrightarrow> action t \<in> {act_sock_read, act_sock_write, act_tcp_timeout_connect, act_msleep, act_tcp_accept} \<and>
    (action t \<noteq> act_msleep \<longrightarrow> arg_member (action t) (args t))"
  by (cases "action t") (auto simp: parked_ok_def parked_conf_def sock_parked_def)

text \<open>
  (C7) The argument union is used with the right type: in every reachable state a task in the todo
  queue is new or completed, a task in the doing queue or with a worker is a request, and the union of
  each of them holds the member of its action; a task parked in a loop has one of the
  five actions that wait for events, with its member (a sleep needs none any more).
\<close>

theorem union_well_typed:
  assumes "posix_ok m NB P" and "pipe_ok P" and "\<And>k. 0 \<le> sint (v k)" and "reachable P NB th n en w v (Inr s)"
    and "tasks (env s) a = Some t"
  shows "\<exists>xs ys. stailq_rep (nxt (env s)) (todo_queue (env s)) xs \<and> stailq_rep (nxt (env s)) (doing_queue (env s)) ys \<and>
    (a \<in> set xs \<longrightarrow> arg_member (action t) (args t) \<and> (action t = act_new_coroutine \<or> resumable (action t))) \<and>
    (a \<in> set ys \<or> (\<exists>i<wcount s. wpc s i = W_run a) \<longrightarrow>
      arg_member (action t) (args t) \<and> action t \<noteq> act_new_coroutine \<and> \<not> resumable (action t)) \<and>
    (\<forall>i<wcount s. in_place s xs ys a (O_parked i) \<longrightarrow>
      action t \<in> {act_sock_read, act_sock_write, act_tcp_timeout_connect, act_msleep, act_tcp_accept} \<and>
      (action t \<noteq> act_msleep \<longrightarrow> arg_member (action t) (args t)))"
proof -
  from reachable_inv [OF assms(1-4)] obtain own xs ys where i: "inv_with NB {} own xs ys s" by (auto simp: sys_inv_def)
  have ok: "task_ok NB (worker_ev (env s)) (own a) a t" using inv_withD(2) [OF i] assms(5) by (simp add: owned_ok_def)
  have "own a = O_todo" if "a \<in> set xs" using inv_withD(1) [OF i] that by (simp add: queues_ok_def)
  then have "todo_ok t" if "a \<in> set xs" using ok that by (simp add: task_ok_def)
  moreover have "request_ok NB t" if "own a = O_doing \<or> own a = O_hand k" for k using ok that by (auto simp: task_ok_def)
  moreover have "a \<in> set ys \<Longrightarrow> own a = O_doing" using inv_withD(1) [OF i] by (simp add: queues_ok_def)
  moreover have "own a = O_hand k" if "k < wcount s" "wpc s k = W_run a" for k using place_iff [OF i, of a "O_hand k"] that by simp
  moreover have "parked_ok NB (worker_ev (env s) k) a t" if "in_place s xs ys a (O_parked k)" for k
    using place_iff [OF i, of a "O_parked k"] that ok by (simp add: task_ok_def del: in_place.simps)
  moreover have "stailq_rep (nxt (env s)) (todo_queue (env s)) xs" "stailq_rep (nxt (env s)) (doing_queue (env s)) ys"
    using inv_withD(1) [OF i] by (simp_all add: queues_ok_def)
  ultimately show ?thesis
    by - (rule exI [of _ xs], rule exI [of _ ys], meson request_member todo_member parked_member)
qed

theorem union_well_typed_witness:
  "\<exists>s t. stailq_rep (nxt (env (s :: unit system))) (todo_queue (env s)) [1] \<and> tasks (env s) 1 = Some t \<and>
     arg_member (action t) (args t) \<and> (action t = act_new_coroutine \<or> resumable (action t))"
proof -
  have "\<exists>s t. reachable ex_posix {} (Foreign 0) 2 (\<lambda>_. 0) () (\<lambda>_. 0) (Inr s) \<and> tasks (env s) 1 = Some t \<and>
      stailq_rep (nxt (env s)) (todo_queue (env s)) [1]" using ex_queued ex_init by (fastforce simp: reachable_def)
  then obtain s t where s: "reachable ex_posix {} (Foreign 0) 2 (\<lambda>_. 0) () (\<lambda>_. 0) (Inr s)" "tasks (env s) 1 = Some t"
    "stailq_rep (nxt (env s)) (todo_queue (env s)) [1]" by blast
  have v: "\<And>k. 0 \<le> sint ((\<lambda>_. 0 :: u32) k)" by simp
  from union_well_typed [OF ex_posix_ok v s(1,2)] obtain xs where
    xs: "stailq_rep (nxt (env s)) (todo_queue (env s)) xs"
      "1 \<in> set xs \<longrightarrow> arg_member (action t) (args t) \<and> (action t = act_new_coroutine \<or> resumable (action t))" by blast
  have "1 \<in> set xs" using rep_first [OF xs(1)] rep_first [OF s(3)] by (cases xs) auto
  with xs(2) s show ?thesis by blast
qed

text \<open>
  (C4) The wake-ups agree with the queues: in every reachable state the todo queue holds one task
  for every unit of the manager's semaphore, for every thread between its \<open>Push\<close> and its
  \<open>sem_post\<close>, and for a manager between its \<open>sem_wait\<close> and its \<open>Shift\<close>; the doing queue holds one
  task for every byte in the pipes, for every worker between reading its byte and its \<open>Shift\<close>, and
  for a coroutine between its \<open>Push\<close> and its \<open>write\<close>. So \<open>Shift\<close> never meets an empty queue.
\<close>

theorem wakeups_match_queues:
  assumes "posix_ok m NB P" and "pipe_ok P" and "\<And>k. 0 \<le> sint (v k)" and "reachable P NB th n en w v (Inr s)"
  shows "\<exists>xs ys. stailq_rep (nxt (env s)) (todo_queue (env s)) xs \<and> stailq_rep (nxt (env s)) (doing_queue (env s)) ys \<and>
    length xs = manager_sem (env s) + creators s + card {i. i < wcount s \<and> wpc s i = W_post} +
      (if mpc s = M_take then 1 else 0) \<and>
    length ys = (\<Sum>i<wcount s. length (pipe_channel (env s) i)) + card {i. i < wcount s \<and> wpc s i = W_take} +
      (if \<exists>a. mpc s = M_write a then 1 else 0)"
proof -
  from reachable_inv [OF assms] obtain own xs ys where i: "inv_with NB {} own xs ys s" by (auto simp: sys_inv_def)
  from inv_withD(1,3) [OF i] show ?thesis unfolding queues_ok_def counts_ok_def at_place_def by blast
qed

theorem wakeups_match_queues_witness:
  "\<exists>s xs. mpc s = M_run 1 \<and> stailq_rep (nxt (env s)) (todo_queue (env s)) xs \<and>
     length xs = manager_sem (env (s :: unit system)) + creators s + card {i. i < wcount s \<and> wpc s i = W_post}"
proof -
  obtain s where s: "reachable ex_posix {} (Foreign 0) 2 (\<lambda>_. 0) () (\<lambda>_. 0) (Inr s)" "mpc s = M_run 1" using ex_run by blast
  have v: "\<And>k. 0 \<le> sint ((\<lambda>_. 0 :: u32) k)" by simp
  from wakeups_match_queues [OF ex_posix_ok v s(1)] s(2) show ?thesis by auto
qed

text \<open>
  (C6) The event loops hold the right watchers: in every reachable state the loop of a started
  worker watches its pipe with the callback \<open>new_event_handler\<close>, and every other watcher that it
  watches or has pending belongs to an allocated task that is parked in this loop for the action
  of the task, so \<open>IO_WATCHER_REF_TASKPTR\<close> and \<open>TIMER_WATCHER_REF_TASKPTR\<close> never give a dangling
  pointer.
\<close>

theorem no_dangling_watcher:
  assumes "posix_ok m NB P" and "pipe_ok P" and "\<And>k. 0 \<le> sint (v k)" and "reachable P NB th n en w v (Inr s)"
    and "i < wcount s" and "wpc s i \<noteq> W_start"
  shows "PipeW \<in> watching (worker_ev (env s) i) \<and> cb (ws (worker_ev (env s) i) PipeW) = Cb_new_event_handler \<and>
    (\<forall>a. engaged (worker_ev (env s) i) (IoW a) \<or> engaged (worker_ev (env s) i) (TimerW a) \<longrightarrow>
      (\<exists>t. tasks (env s) a = Some t \<and> parked_ok NB (worker_ev (env s) i) a t))"
proof -
  from reachable_inv [OF assms(1-4)] obtain own xs ys where inv: "inv_with NB {} own xs ys s" by (auto simp: sys_inv_def)
  have "loop_okay {} own i (pipe_channel (env s) i) (worker_ev (env s) i)"
    using inv_withD(4) [OF inv] assms(5,6) unfolding workers_ok_def by blast
  moreover have "\<exists>t. tasks (env s) a = Some t \<and> parked_ok NB (worker_ev (env s) i) a t"
    if "engaged (worker_ev (env s) i) (IoW a) \<or> engaged (worker_ev (env s) i) (TimerW a)" for a
  proof -
    have "own a = O_parked i" using that assms(5,6) place_iff [OF inv, of a "O_parked i"] by simp
    with owned_task [OF inv_withD(2) [OF inv], of a] show ?thesis by (auto simp: task_ok_def)
  qed
  ultimately show ?thesis unfolding loop_okay_def by blast
qed

theorem no_dangling_watcher_witness:
  "\<exists>s. reachable ex_posix {} (Foreign 0) 2 (\<lambda>_. 0) () (\<lambda>_. 0) (Inr s) \<and> PipeW \<in> watching (worker_ev (env s) 1)"
proof -
  let ?s = "init_system (env_zero 2 (\<lambda>_. 0) ()) (\<lambda>_. 0)"
  have v: "\<And>k. 0 \<le> sint ((\<lambda>_. 0 :: u32) k)" by simp
  have "os_only (env_zero 2 (\<lambda>_. 0) ()) (env_zero 2 (\<lambda>_. 0) ())" by simp
  from init_system_inv [OF this v, where NB = "{}"] obtain own xs ys where i: "inv_with {} {} own xs ys ?s" by (auto simp: sys_inv_def)
  have w: "1 < wcount ?s" "wpc ?s 1 = W_start" by (simp_all add: init_system_def env_zero_def)
  from w_start_inv [OF i w, of 3 0] obtain e where e: "new_background_worker True 3 0 1 (env ?s) = Inr e" by auto
  then have c: "background_worker_count e = 2"
    by (auto simp: new_background_worker_def on_loop_def bind_res_Inr_iff init_system_def env_zero_def)
  let ?s1 = "?s\<lparr>env := e, wpc := (wpc ?s)(1 := W_loop)\<rparr>"
  have "sys_reach ex_posix {} (CurrReadPipe [(3, 4), (3, 4)]) ?s (Inr ?s1)"
    using reach_step [OF reach_init, OF w_start [OF w, where now = 0 and P = ex_posix and NB = "{}" and pfd = "CurrReadPipe [(3, 4), (3, 4)]"]] e by (simp add: CurrReadPipe_def)
  then have r: "reachable ex_posix {} (Foreign 0) 2 (\<lambda>_. 0) () (\<lambda>_. 0) (Inr ?s1)" using ex_init by (auto simp: reachable_def)
  from no_dangling_watcher [OF ex_posix_ok v r, of 1] c r show ?thesis by (intro exI [of _ ?s1]) simp
qed

text \<open>
  No wake-up is lost: in a reachable state in which the manager is not between its \<open>sem_wait\<close> and
  its \<open>Shift\<close>, its semaphore is zero, and no thread is about to post it, the todo queue is empty;
  and when no pipe holds a byte, no worker is about to take a task and no coroutine is about to
  write, the doing queue is empty. A task in a queue is always announced.
\<close>

theorem no_lost_wakeup:
  assumes "posix_ok m NB P" and "pipe_ok P" and "\<And>k. 0 \<le> sint (v k)" and "reachable P NB th n en w v (Inr s)"
  shows "(mpc s \<noteq> M_take \<and> manager_sem (env s) = 0 \<and> creators s = 0 \<and> (\<forall>i<wcount s. wpc s i \<noteq> W_post) \<longrightarrow>
      STAILQ_EMPTY (todo_queue (env s))) \<and>
    ((\<nexists>a. mpc s = M_write a) \<and> (\<forall>i<wcount s. wpc s i \<noteq> W_take \<and> pipe_channel (env s) i = []) \<longrightarrow>
      STAILQ_EMPTY (doing_queue (env s)))"
proof -
  from reachable_inv [OF assms] obtain own xs ys where i: "inv_with NB {} own xs ys s" by (auto simp: sys_inv_def)
  note d = inv_withD [OF i]
  have e: "STAILQ_EMPTY q \<longleftrightarrow> zs = []" if "stailq_rep nx q zs" for nx q zs
    using that rep_first [OF that] by (cases zs) (auto simp: STAILQ_EMPTY_def STAILQ_FIRST_def)
  have z: "at_place f k p = 0" if "\<forall>i<k. f i \<noteq> p" for f k p using that by (auto simp: at_place_def)
  show ?thesis using d(1,3) e z by (auto simp: queues_ok_def counts_ok_def)
qed

theorem no_lost_wakeup_witness:
  "\<exists>s. reachable ex_posix {} (Foreign 0) 2 (\<lambda>_. 0) () (\<lambda>_. 0) (Inr s) \<and> STAILQ_EMPTY (todo_queue (env s)) \<and>
     STAILQ_EMPTY (doing_queue (env s))"
proof -
  let ?s = "init_system (env_zero 2 (\<lambda>_. 0) ()) (\<lambda>_. 0)"
  have v: "\<And>k. 0 \<le> sint ((\<lambda>_. 0 :: u32) k)" by simp
  have r: "reachable ex_posix {} (Foreign 0) 2 (\<lambda>_. 0) () (\<lambda>_. 0) (Inr ?s)" using ex_init reach_init by (auto simp: reachable_def)
  have "mpc ?s \<noteq> M_take \<and> manager_sem (env ?s) = 0 \<and> creators ?s = 0 \<and> (\<forall>i<wcount ?s. wpc ?s i \<noteq> W_post)"
    "(\<nexists>a. mpc ?s = M_write a) \<and> (\<forall>i<wcount ?s. wpc ?s i \<noteq> W_take \<and> pipe_channel (env ?s) i = [])"
    by (auto simp: init_system_def env_zero_def)
  with no_lost_wakeup [OF ex_posix_ok v r] r show ?thesis by (intro exI [of _ ?s]) simp
qed

text \<open>
  (C2) The system implements the abstract scheduler of \<^verbatim>\<open>Acoro_Schedule\<close>: the places of the tasks and the
  contents of the queues in a reachable state are a state \<open>S\<close> the scheduler reaches from no tasks,
  which runs one task at a time and gives a worker one task at a time; and whatever a thread, an
  event loop or the kernel does next is one step of the scheduler from \<open>S\<close>, or changes nothing of it.
\<close>

theorem system_refines_scheduler:
  assumes "posix_ok m NB P" and "pipe_ok P" and "\<And>k. 0 \<le> sint (v k)" and "reachable P NB th n en w v (Inr s)"
  shows "\<exists>S. refines s S \<and> sched_reach S \<and> sched_ok S \<and>
    (\<forall>pfd s'. (\<forall>i. 0 \<le> pfd i) \<longrightarrow> sys_step P NB pfd s (Inr s') \<longrightarrow> (\<exists>S'. refines s' S' \<and> sched_step S S'))"
  using step_refines [OF assms] sched_reach_ok by blast

theorem system_refines_scheduler_witness:
  "\<exists>s S. mpc s = M_run 1 \<and> refines (s :: unit system) S \<and> sched_reach S \<and> place S 1 = O_running"
proof -
  obtain s where s: "reachable ex_posix {} (Foreign 0) 2 (\<lambda>_. 0) () (\<lambda>_. 0) (Inr s)" "mpc s = M_run 1" using ex_run by blast
  have v: "\<And>k. 0 \<le> sint ((\<lambda>_. 0 :: u32) k)" by simp
  from system_refines_scheduler [OF ex_posix_ok v s(1)] obtain S where S: "refines s S" "sched_reach S" by blast
  have "in_place s (todo S) (doing S) 1 O_running" using s(2) by simp
  with S(1) have "place S 1 = O_running" unfolding refines_def by blast
  with s(2) S show ?thesis by blast
qed

text \<open>
  (C5) The queues are first in, first out: a step from a reachable state either adds tasks at the end
  of the todo queue (or leaves it), or takes its head, which then runs, or puts in front a task that
  waited in a semaphore (\<open>CRT_SEM_CRITICAL_PRIORITY\<close>); and it adds tasks at the end of the doing queue (or
  leaves it) or takes its head, which then is in the hands of a worker.
\<close>

theorem queues_keep_order:
  assumes "posix_ok m NB P" and "pipe_ok P" and "\<And>k. 0 \<le> sint (v k)" and "reachable P NB th n en w v (Inr s)"
    and "\<And>i. 0 \<le> pfd i" and "sys_step P NB pfd s (Inr s')"
  shows "\<exists>xs ys xs' ys'.
    stailq_rep (nxt (env s)) (todo_queue (env s)) xs \<and> stailq_rep (nxt (env s)) (doing_queue (env s)) ys \<and>
    stailq_rep (nxt (env s')) (todo_queue (env s')) xs' \<and> stailq_rep (nxt (env s')) (doing_queue (env s')) ys' \<and>
    ((\<exists>zs. xs' = xs @ zs) \<or> (\<exists>a. xs = a # xs' \<and> in_place s' xs' ys' a O_running) \<or>
      (\<exists>a. in_place s xs ys a O_sem \<and> xs' = a # xs)) \<and>
    ((\<exists>zs. ys' = ys @ zs) \<or> (\<exists>a i. ys = a # ys' \<and> in_place s' xs' ys' a (O_hand i)))"
proof -
  from step_refines [OF assms(1-4)] assms(5,6) obtain S S' where r: "refines s S" "refines s' S'" "sched_step S S'" by blast
  show ?thesis
    by (rule exI [of _ "todo S"], rule exI [of _ "doing S"], rule exI [of _ "todo S'"], rule exI [of _ "doing S'"])
      (use todo_order [OF r(3)] doing_order [OF r(3)] r(1,2) in \<open>simp add: refines_def del: in_place.simps\<close>)
qed

theorem queues_keep_order_witness:
  "\<exists>s s' xs xs'. sys_step ex_posix {} (CurrReadPipe [(3, 4), (3, 4)]) s (Inr s') \<and> mpc s = M_wait \<and> creators s' = 1 \<and>
     stailq_rep (nxt (env s)) (todo_queue (env s)) xs \<and> stailq_rep (nxt (env s')) (todo_queue (env s')) xs' \<and>
     (\<exists>zs. xs' = xs @ zs)"
proof -
  let ?s = "init_system (env_zero 2 (\<lambda>_. 0) ()) (\<lambda>_. 0)"
  have v: "\<And>k. 0 \<le> sint ((\<lambda>_. 0 :: u32) k)" by simp
  have fd: "\<And>i. 0 \<le> CurrReadPipe [(3, 4), (3, 4)] i" by (simp add: CurrReadPipe_def nth_Cons split: nat.split)
  have r: "reachable ex_posix {} (Foreign 0) 2 (\<lambda>_. 0) () (\<lambda>_. 0) (Inr ?s)" using ex_init reach_init by (auto simp: reachable_def)
  obtain e id where c: "create_push (Some (1, ex_junk)) None 7 9 (env ?s) = Inr (id, e)"
    using ex_created by (auto simp: init_system_def)
  let ?s' = "?s\<lparr>env := e, creators := 1\<rparr>"
  have st: "sys_step ex_posix {} (CurrReadPipe [(3, 4), (3, 4)]) ?s (Inr ?s')"
    using f_create [where s = ?s and b = 1 and junk = ex_junk and attr = None and br = 7 and x = 9] c
    by (simp add: init_system_def env_zero_def)
  have n: "\<not> in_place ?s' xs ys a O_running" "\<not> in_place ?s xs ys a O_sem" for xs ys a
    by (simp_all add: init_system_def crt_sem_init_def)
  from queues_keep_order [OF ex_posix_ok v r fd st] obtain xs xs' where
    "stailq_rep (nxt (env ?s)) (todo_queue (env ?s)) xs" "stailq_rep (nxt (env ?s')) (todo_queue (env ?s')) xs'"
    "\<exists>zs. xs' = xs @ zs" using n by blast
  with st show ?thesis by (intro exI [of _ ?s] exI [of _ ?s'] exI [of _ xs] exI [of _ xs']) (simp add: init_system_def)
qed

end
